(* ===== verification/Prelude.thy ===== *)
theory Prelude
  imports Main "HOL-Library.Word"
begin

unbundle bit_operations_syntax

text \<open>
  Shared vocabulary of the development: the C integer types, the outcome of a
  kernel function (a value, or the reason why it does not return), byte addressed
  memory with little endian loads and stores, and the word lemmas on pages and
  alignment that the component theories use.

  Rule collections:
  \<^item> \<open>res_iff\<close> inverts a computation that returned (\<open>\<dots> = Inr r\<close>);
  \<^item> \<open>mem_simps\<close> evaluates a load after a store, a \<open>memset\<close> or a \<open>memmove\<close>.
\<close>

named_theorems res_iff
named_theorems mem_simps

section \<open>C integer types\<close>

type_synonym u8 = "8 word"
type_synonym u16 = "16 word"
type_synonym u32 = "32 word"
type_synonym u64 = "64 word"

section \<open>Outcome of a kernel function\<close>

text \<open>
  A kernel function either returns, calls \<open>panic\<close> with a message (the machine
  stops), or blocks: it would spin on a lock or sleep on a channel until some other
  thread acts.  The model of a function stops at that point.
\<close>

datatype stop = Panic string | Block string

type_synonym 'a res = "stop + 'a"

definition andthen :: "'e + 'a \<Rightarrow> ('a \<Rightarrow> 'e + 'b) \<Rightarrow> 'e + 'b" where
  "andthen m f = (case m of Inl e \<Rightarrow> Inl e | Inr x \<Rightarrow> f x)"

abbreviation panic :: "string \<Rightarrow> 'a res" where
  "panic msg \<equiv> Inl (Panic msg)"

lemma andthen_Inl [simp]: "andthen (Inl e) f = Inl e"
  by (simp add: andthen_def)

lemma andthen_Inr [simp]: "andthen (Inr x) f = f x"
  by (simp add: andthen_def)

lemma andthen_Inr_iff [res_iff]: "andthen m f = Inr y \<longleftrightarrow> (\<exists>x. m = Inr x \<and> f x = Inr y)"
  by (cases m) auto

lemma andthen_cong [fundef_cong]:
  "m = m' \<Longrightarrow> (\<And>x. m' = Inr x \<Longrightarrow> f x = f' x) \<Longrightarrow> andthen m f = andthen m' f'"
  by (cases m') (auto simp: andthen_def)

lemma andthen_assoc: "andthen (andthen m f) g = andthen m (\<lambda>x. andthen (f x) g)"
  by (cases m) auto

lemma andthen_split:
  "P (andthen m f) \<longleftrightarrow> (\<forall>e. m = Inl e \<longrightarrow> P (Inl e)) \<and> (\<forall>x. m = Inr x \<longrightarrow> P (f x))"
  by (cases m) auto

lemma if_Inr_iff [res_iff]:
  "(if b then Inl e else m) = Inr y \<longleftrightarrow> \<not> b \<and> m = Inr y"
  by simp

section \<open>Byte addressed memory\<close>

type_synonym memory = "u64 \<Rightarrow> u8"

text \<open>
  \<open>in_range a p n\<close>: the byte address \<open>a\<close> lies in the \<open>n\<close> bytes from \<open>p\<close>
  (address arithmetic wraps at \<open>2 ^ 64\<close>, as on the machine).
\<close>

definition in_range :: "u64 \<Rightarrow> u64 \<Rightarrow> nat \<Rightarrow> bool" where
  "in_range a p n \<longleftrightarrow> unat (a - p) < n"

text \<open>An \<open>n\<close>-byte little endian load and store.\<close>

primrec le_get :: "nat \<Rightarrow> memory \<Rightarrow> u64 \<Rightarrow> 'a::len word" where
  "le_get 0 m p = 0"
| "le_get (Suc n) m p = ucast (m p) OR push_bit 8 (le_get n m (p + 1))"

definition le_put :: "nat \<Rightarrow> memory \<Rightarrow> u64 \<Rightarrow> 'a::len word \<Rightarrow> memory" where
  "le_put n m p v =
     (\<lambda>a. if in_range a p n then ucast (drop_bit (8 * unat (a - p)) v) else m a)"

definition load64 :: "memory \<Rightarrow> u64 \<Rightarrow> u64" where
  "load64 m p = le_get 8 m p"

definition store64 :: "memory \<Rightarrow> u64 \<Rightarrow> u64 \<Rightarrow> memory" where
  "store64 m p v = le_put 8 m p v"

lemma bit_le_get:
  "bit (le_get n m p :: 'a::len word) i \<longleftrightarrow>
     i < LENGTH('a) \<and> i < 8 * n \<and> bit (m (p + of_nat (i div 8))) (i mod 8)"
proof (induction n arbitrary: p i)
  case 0
  then show ?case by simp
next
  case (Suc n)
  show ?case
  proof (cases "i < 8")
    case True
    then show ?thesis
      by (auto simp: bit_simps dest: bit_imp_le_length)
  next
    case False
    then obtain j where j: "i = j + 8" using le_Suc_ex by (metis add.commute not_less)
    have "(j + 8) div 8 = Suc (j div 8)" by simp
    then have "of_nat ((j + 8) div 8) = (1 + of_nat (j div 8) :: u64)"
      by (simp only: of_nat_Suc)
    then show ?thesis
      using Suc.IH [of "p + 1" j]
      by (auto simp: bit_simps j ac_simps dest: bit_imp_le_length)
  qed
qed

text \<open>A load depends only on the bytes it reads.\<close>

lemma le_get_cong:
  assumes "\<And>k. k < n \<Longrightarrow> m (p + of_nat k) = m' (p + of_nat k)"
  shows "(le_get n m p :: 'a::len word) = le_get n m' p"
proof (rule bit_word_eqI)
  fix i assume "i < LENGTH('a)"
  show "bit (le_get n m p :: 'a word) i = bit (le_get n m' p :: 'a word) i"
    using assms [of "i div 8"] by (auto simp: bit_le_get)
qed

lemma unat_of_nat_u64: "k < 2 ^ 64 \<Longrightarrow> unat (of_nat k :: u64) = k"
  by (simp add: unat_of_nat take_bit_nat_eq_self)

lemma le_get_le_put_same:
  assumes "n < 2 ^ 61" "LENGTH('a::len) = 8 * n"
  shows "le_get n (le_put n m p (v :: 'a word)) p = v"
proof (rule bit_word_eqI)
  fix i assume i: "i < LENGTH('a)"
  define k where "k = i div 8"
  have k: "k < n" using i assms(2) by (simp add: k_def less_mult_imp_div_less mult.commute)
  then have u: "unat (of_nat k :: u64) = k" using assms(1) by (intro unat_of_nat_u64) simp
  have "8 * k + i mod 8 = i" by (simp add: k_def)
  moreover have "i mod 8 < 8" by simp
  ultimately show "bit (le_get n (le_put n m p v) p :: 'a word) i = bit v i"
    using i k u assms(2)
    by (auto simp: bit_le_get le_put_def in_range_def bit_simps k_def [symmetric] simp del: unat_of_nat)
qed

lemma load64_store64_same [simp, mem_simps]: "load64 (store64 m p v) p = v"
  unfolding load64_def store64_def by (rule le_get_le_put_same) simp_all

end
