(* ===== verification/Layout.thy ===== *)
theory Layout
  imports Prelude
begin

unbundle bit_operations_syntax

text \<open>
  The constants and macros of \<^verbatim>\<open>param.h\<close>, \<^verbatim>\<open>memlayout.h\<close> and
  \<^verbatim>\<open>riscv.h\<close>: sizes, the physical and virtual memory map, the Sv39 page table
  entry and index macros; then the lemmas on page and word alignment.
\<close>

section \<open>param.h\<close>

definition NPROC :: nat where "NPROC = 64"
definition NCPU :: nat where "NCPU = 8"
definition NOFILE :: nat where "NOFILE = 16"
definition NFILE :: nat where "NFILE = 100"
definition NINODE :: nat where "NINODE = 50"
definition NDEV :: nat where "NDEV = 10"
definition ROOTDEV :: u32 where "ROOTDEV = 1"
definition MAXARG :: nat where "MAXARG = 32"
definition MAXOPBLOCKS :: nat where "MAXOPBLOCKS = 10"
definition LOGBLOCKS :: nat where "LOGBLOCKS = MAXOPBLOCKS * 3"
definition NBUF :: nat where "NBUF = MAXOPBLOCKS * 3"
definition FSSIZE :: nat where "FSSIZE = 2000"
definition MAXPATH :: nat where "MAXPATH = 128"
definition USERSTACK :: u64 where "USERSTACK = 1"

section \<open>riscv.h: pages and page table entries\<close>

definition PGSIZE :: u64 where "PGSIZE = 4096"
definition PGSHIFT :: nat where "PGSHIFT = 12"

definition PGROUNDUP :: "u64 \<Rightarrow> u64" where
  "PGROUNDUP sz = (sz + PGSIZE - 1) AND NOT (PGSIZE - 1)"

definition PGROUNDDOWN :: "u64 \<Rightarrow> u64" where
  "PGROUNDDOWN a = a AND NOT (PGSIZE - 1)"

definition PTE_V :: u64 where "PTE_V = push_bit 0 1"
definition PTE_R :: u64 where "PTE_R = push_bit 1 1"
definition PTE_W :: u64 where "PTE_W = push_bit 2 1"
definition PTE_X :: u64 where "PTE_X = push_bit 3 1"
definition PTE_U :: u64 where "PTE_U = push_bit 4 1"
definition PTE_COW :: u64 where "PTE_COW = push_bit 8 1"

definition PA2PTE :: "u64 \<Rightarrow> u64" where
  "PA2PTE pa = push_bit 10 (drop_bit 12 pa)"

definition PTE2PA :: "u64 \<Rightarrow> u64" where
  "PTE2PA pte = push_bit 12 (drop_bit 10 pte)"

definition PTE_FLAGS :: "u64 \<Rightarrow> u64" where
  "PTE_FLAGS pte = pte AND 0x3FF"

definition PXMASK :: u64 where "PXMASK = 0x1FF"

definition PXSHIFT :: "nat \<Rightarrow> nat" where
  "PXSHIFT level = PGSHIFT + 9 * level"

definition PX :: "nat \<Rightarrow> u64 \<Rightarrow> u64" where
  "PX level va = drop_bit (PXSHIFT level) va AND PXMASK"

definition MAXVA :: u64 where "MAXVA = push_bit (9 + 9 + 9 + 12 - 1) 1"

definition SATP_SV39 :: u64 where "SATP_SV39 = push_bit 60 8"

definition MAKE_SATP :: "u64 \<Rightarrow> u64" where
  "MAKE_SATP pagetable = SATP_SV39 OR drop_bit 12 pagetable"

section \<open>memlayout.h\<close>

definition UART0 :: u64 where "UART0 = 0x10000000"
definition VIRTIO0 :: u64 where "VIRTIO0 = 0x10001000"
definition PLIC :: u64 where "PLIC = 0x0c000000"
definition KERNBASE :: u64 where "KERNBASE = 0x80000000"
definition PHYSTOP :: u64 where "PHYSTOP = KERNBASE + 128 * 1024 * 1024"
definition TRAMPOLINE :: u64 where "TRAMPOLINE = MAXVA - PGSIZE"
definition KSTACK :: "nat \<Rightarrow> u64" where
  "KSTACK p = TRAMPOLINE - (of_nat p + 1) * 2 * PGSIZE"
definition TRAPFRAME :: u64 where "TRAPFRAME = TRAMPOLINE - PGSIZE"

section \<open>Alignment\<close>

text \<open>\<open>align_down k a\<close> clears the low \<open>k\<close> bits of an address.\<close>

definition align_down :: "nat \<Rightarrow> u64 \<Rightarrow> u64" where
  "align_down k a = push_bit k (drop_bit k a)"

definition page_aligned :: "u64 \<Rightarrow> bool" where
  "page_aligned a \<longleftrightarrow> a mod PGSIZE = 0"

lemma bit_align_down [bit_simps]:
  "bit (align_down k a) i \<longleftrightarrow> k \<le> i \<and> bit a i"
  by (auto simp: align_down_def bit_simps dest: bit_imp_le_length)

lemma align_down_idem [simp]: "align_down k (align_down j a) = align_down (max k j) a"
  by (rule bit_word_eqI) (auto simp: bit_simps)

lemma take_bit_zero_iff_align_down: "take_bit k a = 0 \<longleftrightarrow> align_down k a = a"
  by (auto simp: bit_eq_iff bit_simps not_less)

lemma mod_PGSIZE_take_bit: "a mod PGSIZE = take_bit 12 a"
  by (simp add: PGSIZE_def take_bit_eq_mod)

lemma page_aligned_iff: "page_aligned a \<longleftrightarrow> align_down 12 a = a"
  by (simp add: page_aligned_def mod_PGSIZE_take_bit take_bit_zero_iff_align_down)

lemma align_down_align_down_page [simp]: "page_aligned (align_down 12 a)"
  by (simp add: page_aligned_iff)

lemma PGROUNDDOWN_align_down: "PGROUNDDOWN a = align_down 12 a"
proof -
  have eq: "PGSIZE - 1 = mask 12" by (simp add: PGSIZE_def mask_eq_exp_minus_1)
  show ?thesis
    unfolding PGROUNDDOWN_def eq by (rule bit_word_eqI) (auto simp: bit_simps)
qed

lemma PGROUNDUP_align_down: "PGROUNDUP a = align_down 12 (a + 4095)"
  using PGROUNDDOWN_align_down [of "a + 4095"]
  by (simp add: PGROUNDUP_def PGROUNDDOWN_def PGSIZE_def algebra_simps)

lemma unat_take_bit_less: "k < 64 \<Longrightarrow> unat (take_bit k a :: u64) < 2 ^ k"
  by (simp add: unsigned_take_bit_eq)

lemma align_down_plus_take_bit: "align_down k a + take_bit k a = a"
proof -
  have "align_down k a AND take_bit k a = 0"
    by (rule bit_word_eqI) (simp add: bit_simps)
  then have "align_down k a + take_bit k a = align_down k a OR take_bit k a"
    by (rule disjunctive_add_eq_or)
  also have "\<dots> = a" by (rule bit_word_eqI) (auto simp: bit_simps)
  finally show ?thesis .
qed

lemma align_down_add_offset:
  assumes "align_down k p = p" "unat d < 2 ^ k" "k < 64"
  shows "align_down k (p + d) = p"
proof -
  have "take_bit k d = d" using assms(2,3)
    by (metis take_bit_nat_eq_self unsigned_take_bit_eq word_unat_eq_iff)
  then have hd: "bit d i \<Longrightarrow> i < k" for i by (metis bit_take_bit_iff)
  have hp: "bit p i \<Longrightarrow> k \<le> i" for i using assms(1) by (metis bit_align_down)
  have "p AND d = 0"
    by (rule bit_word_eqI) (use hd hp in \<open>force simp: bit_simps\<close>)
  then have "p + d = p OR d" by (rule disjunctive_add_eq_or)
  then show ?thesis
    by (intro bit_word_eqI) (use hd hp in \<open>force simp: bit_simps\<close>)
qed

text \<open>The bytes of an aligned block are the addresses that round down to its base.\<close>

lemma in_range_aligned:
  assumes "align_down k p = p" "k < 64"
  shows "in_range a p (2 ^ k) \<longleftrightarrow> align_down k a = p"
proof
  assume "in_range a p (2 ^ k)"
  then show "align_down k a = p"
    using align_down_add_offset [OF assms(1) _ assms(2), of "a - p"] by (simp add: in_range_def)
next
  assume *: "align_down k a = p"
  then have "a - p = take_bit k a"
    using align_down_plus_take_bit [of k a] by (simp add: algebra_simps)
  then show "in_range a p (2 ^ k)"
    using unat_take_bit_less [OF assms(2)] by (simp add: in_range_def)
qed

lemma in_range_page: "page_aligned p \<Longrightarrow> in_range a p 4096 \<longleftrightarrow> align_down 12 a = p"
  using in_range_aligned [of 12 p a] by (simp add: page_aligned_iff)

lemma in_range_word: "align_down 3 p = p \<Longrightarrow> in_range a p 8 \<longleftrightarrow> align_down 3 a = p"
  using in_range_aligned [of 3 p a] by simp

lemma page_aligned_align3: "page_aligned p \<Longrightarrow> align_down 3 p = p"
  using align_down_idem [of 3 12 p] by (simp add: page_aligned_iff)

lemma align_down_12_3: "align_down 3 a = q \<Longrightarrow> align_down 12 a = align_down 12 q"
  using align_down_idem [of 12 3 a] by simp

section \<open>Loads, stores and fills\<close>

text \<open>\<open>fill m p c n\<close>: the \<open>n\<close> bytes from \<open>p\<close> set to \<open>c\<close>; \<open>copy m d s n\<close>: the \<open>n\<close>
  bytes from \<open>s\<close> copied to \<open>d\<close>. They state what \<open>memset\<close> and \<open>memmove\<close> of
  \<^verbatim>\<open>string.c\<close> do; theory \<open>Cstring\<close> proves that the loops of the code do it.\<close>

definition fill :: "memory \<Rightarrow> u64 \<Rightarrow> u8 \<Rightarrow> nat \<Rightarrow> memory" where
  "fill m p c n = (\<lambda>a. if in_range a p n then c else m a)"

definition copy :: "memory \<Rightarrow> u64 \<Rightarrow> u64 \<Rightarrow> nat \<Rightarrow> memory" where
  "copy m d s n = (\<lambda>a. if in_range a d n then m (s + (a - d)) else m a)"

lemma load64_cong:
  assumes "align_down 3 q = q" "\<And>a. align_down 3 a = q \<Longrightarrow> m a = m' a"
  shows "load64 m q = load64 m' q"
  unfolding load64_def
proof (rule le_get_cong)
  fix k :: nat assume "k < 8"
  then have "unat (of_nat k :: u64) < 2 ^ 3" by (simp add: unat_of_nat_u64)
  then show "m (q + of_nat k) = m' (q + of_nat k)"
    by (intro assms(2) align_down_add_offset [OF assms(1)]) simp_all
qed

lemma load64_store64_other [mem_simps]:
  assumes "align_down 3 p = p" "align_down 3 q = q" "p \<noteq> q"
  shows "load64 (store64 m p v) q = load64 m q"
  using assms by (intro load64_cong) (auto simp: store64_def le_put_def in_range_word)

lemma load64_fill_other [mem_simps]:
  assumes "page_aligned p" "align_down 3 q = q" "align_down 12 q \<noteq> p"
  shows "load64 (fill m p c 4096) q = load64 m q"
proof (rule load64_cong [OF assms(2)])
  fix a assume "align_down 3 a = q"
  then have "align_down 12 a = align_down 12 q" by (rule align_down_12_3)
  with assms show "fill m p c 4096 a = m a" by (simp add: fill_def in_range_page)
qed

lemma load64_zero: "(\<And>a. align_down 3 a = q \<Longrightarrow> m a = 0) \<Longrightarrow> align_down 3 q = q \<Longrightarrow> load64 m q = 0"
proof -
  assume *: "\<And>a. align_down 3 a = q \<Longrightarrow> m a = 0" and q: "align_down 3 q = q"
  have "load64 m q = load64 (\<lambda>_. 0) q" using * by (intro load64_cong [OF q]) simp
  also have "\<dots> = 0" unfolding load64_def by (rule bit_word_eqI) (simp add: bit_le_get)
  finally show ?thesis .
qed

lemma load64_fill_zero [mem_simps]:
  assumes "page_aligned p" "align_down 3 q = q" "align_down 12 q = p"
  shows "load64 (fill m p 0 4096) q = 0"
proof (rule load64_zero [OF _ assms(2)])
  fix a assume "align_down 3 a = q"
  then have "align_down 12 a = align_down 12 q" by (rule align_down_12_3)
  with assms show "fill m p 0 4096 a = 0" by (simp add: fill_def in_range_page)
qed

end
