(* ===== verification/Spinlock.thy ===== *)
theory Spinlock
  imports Layout
begin

text \<open>
  Model of \<^verbatim>\<open>kernel/spinlock.c\<close>: the lock word, the owner field and the
  interrupt nesting counter of every hart, at the granularity of the atomic
  instructions. The second part is the step system of all harts together and its
  invariant: mutual exclusion, interrupts off while a lock is held, and the relation to
  the list of locks a hart holds, the view of locking the other components use.
\<close>

section \<open>Locks, harts and the operations of spinlock.c\<close>

datatype lockid =
    Lkmem | Lkref | Lpid | Lwait | Lproc nat | Ltick | Lpt | Lpr | Lcons | Ltx
  | Lftable | Lpipe u64 | Litable | Lbcache | Llog | Lvdisk | Lbuf nat | Linode nat

record spinlock =
  locked :: u32
  lk_name :: string
  lk_cpu :: "nat option"

record cpu =
  noff :: int
  intena :: bool

record smp =
  locks :: "lockid \<Rightarrow> spinlock"
  cpus :: "nat \<Rightarrow> cpu"
  sie :: "nat \<Rightarrow> bool"

definition initlock :: "lockid \<Rightarrow> string \<Rightarrow> smp \<Rightarrow> smp" where
  "initlock l nm s = s\<lparr>locks := (locks s)(l := \<lparr>locked = 0, lk_name = nm, lk_cpu = None\<rparr>)\<rparr>"

definition intr_get :: "nat \<Rightarrow> smp \<Rightarrow> bool" where
  "intr_get h s = sie s h"

definition intr_off :: "nat \<Rightarrow> smp \<Rightarrow> smp" where
  "intr_off h s = s\<lparr>sie := (sie s)(h := False)\<rparr>"

definition intr_on :: "nat \<Rightarrow> smp \<Rightarrow> smp" where
  "intr_on h s = s\<lparr>sie := (sie s)(h := True)\<rparr>"

definition holding :: "nat \<Rightarrow> lockid \<Rightarrow> smp \<Rightarrow> bool" where
  "holding h l s \<longleftrightarrow> locked (locks s l) \<noteq> 0 \<and> lk_cpu (locks s l) = Some h"

definition push_off :: "nat \<Rightarrow> smp \<Rightarrow> smp" where
  "push_off h s =
     (let old = intr_get h s;
          s1 = intr_off h s;
          c = cpus s1 h;
          c1 = (if noff c = 0 then c\<lparr>intena := old\<rparr> else c)
      in s1\<lparr>cpus := (cpus s1)(h := c1\<lparr>noff := noff c1 + 1\<rparr>)\<rparr>)"

definition pop_off :: "nat \<Rightarrow> smp \<Rightarrow> smp res" where
  "pop_off h s =
     (if intr_get h s then panic ''pop_off - interruptible''
      else if noff (cpus s h) < 1 then panic ''pop_off''
      else
        (let c = (cpus s h)\<lparr>noff := noff (cpus s h) - 1\<rparr>;
             s1 = s\<lparr>cpus := (cpus s)(h := c)\<rparr>
         in Inr (if noff c = 0 \<and> intena c then intr_on h s1 else s1)))"

text \<open>
  \<open>acquire\<close> is a loop around an atomic swap. Its pieces: what precedes the loop
  (\<open>acquire_enter\<close>), one swap (\<open>test_and_set\<close>), and the owner record after a
  successful swap (\<open>acquire_done\<close>). \<open>acquire\<close> composes them for a hart that runs
  alone: if the lock is taken the hart spins.
\<close>

definition acquire_enter :: "nat \<Rightarrow> lockid \<Rightarrow> smp \<Rightarrow> smp res" where
  "acquire_enter h l s =
     (let s1 = push_off h s in if holding h l s1 then panic ''acquire'' else Inr s1)"

definition test_and_set :: "lockid \<Rightarrow> smp \<Rightarrow> u32 \<times> smp" where
  "test_and_set l s =
     (locked (locks s l), s\<lparr>locks := (locks s)(l := (locks s l)\<lparr>locked := 1\<rparr>)\<rparr>)"

definition acquire_done :: "nat \<Rightarrow> lockid \<Rightarrow> smp \<Rightarrow> smp" where
  "acquire_done h l s = s\<lparr>locks := (locks s)(l := (locks s l)\<lparr>lk_cpu := Some h\<rparr>)\<rparr>"

definition acquire :: "nat \<Rightarrow> lockid \<Rightarrow> smp \<Rightarrow> smp res" where
  "acquire h l s =
     andthen (acquire_enter h l s) (\<lambda>s1.
     case test_and_set l s1 of (old, s2) \<Rightarrow>
       if old \<noteq> 0 then Inl (Block ''spin'') else Inr (acquire_done h l s2))"

text \<open>\<open>release\<close> clears the owner, unlocks, and undoes one \<open>push_off\<close>.\<close>

definition release_owner :: "nat \<Rightarrow> lockid \<Rightarrow> smp \<Rightarrow> smp res" where
  "release_owner h l s =
     (if \<not> holding h l s then panic ''release''
      else Inr (s\<lparr>locks := (locks s)(l := (locks s l)\<lparr>lk_cpu := None\<rparr>)\<rparr>))"

definition release_unlock :: "lockid \<Rightarrow> smp \<Rightarrow> smp" where
  "release_unlock l s = s\<lparr>locks := (locks s)(l := (locks s l)\<lparr>locked := 0\<rparr>)\<rparr>"

definition release :: "nat \<Rightarrow> lockid \<Rightarrow> smp \<Rightarrow> smp res" where
  "release h l s =
     andthen (release_owner h l s) (\<lambda>s1. pop_off h (release_unlock l s1))"

section \<open>All harts together\<close>

text \<open>
  Where a hart is with respect to locking: in ordinary code (\<open>Run\<close>), in the swap
  loop, between the swap and the owner record, between clearing the owner and the
  unlock, or before the final \<open>pop_off\<close>.
\<close>

datatype lpc = Run | Spinning lockid | Won lockid | Leaving lockid | Popping

record lsys =
  mc :: smp
  pc :: "nat \<Rightarrow> lpc"
  lheld :: "nat \<Rightarrow> lockid list"

text \<open>\<open>lheld\<close> is a history variable: the locks a hart holds, the most recent first.\<close>

inductive lock_step :: "lsys \<Rightarrow> lsys \<Rightarrow> bool" where
  enter: "pc s h = Run \<Longrightarrow> acquire_enter h l (mc s) = Inr m \<Longrightarrow>
     lock_step s (s\<lparr>mc := m, pc := (pc s)(h := Spinning l)\<rparr>)"
| spin: "pc s h = Spinning l \<Longrightarrow> test_and_set l (mc s) = (old, m) \<Longrightarrow> old \<noteq> 0 \<Longrightarrow>
     lock_step s (s\<lparr>mc := m\<rparr>)"
| win: "pc s h = Spinning l \<Longrightarrow> test_and_set l (mc s) = (0, m) \<Longrightarrow>
     lock_step s (s\<lparr>mc := m, pc := (pc s)(h := Won l)\<rparr>)"
| own: "pc s h = Won l \<Longrightarrow>
     lock_step s (s\<lparr>mc := acquire_done h l (mc s), pc := (pc s)(h := Run),
                    lheld := (lheld s)(h := l # lheld s h)\<rparr>)"
| leave: "pc s h = Run \<Longrightarrow> release_owner h l (mc s) = Inr m \<Longrightarrow>
     lock_step s (s\<lparr>mc := m, pc := (pc s)(h := Leaving l),
                    lheld := (lheld s)(h := remove1 l (lheld s h))\<rparr>)"
| unlock: "pc s h = Leaving l \<Longrightarrow>
     lock_step s (s\<lparr>mc := release_unlock l (mc s), pc := (pc s)(h := Popping)\<rparr>)"
| pop: "pc s h = Popping \<Longrightarrow> pop_off h (mc s) = Inr m \<Longrightarrow>
     lock_step s (s\<lparr>mc := m, pc := (pc s)(h := Run)\<rparr>)"
| intr: "pc s h = Run \<Longrightarrow> noff (cpus (mc s) h) = 0 \<Longrightarrow>
     lock_step s (s\<lparr>mc := (if b then intr_on h (mc s) else intr_off h (mc s))\<rparr>)"

inductive lock_reach :: "lsys \<Rightarrow> lsys \<Rightarrow> bool" where
  start: "lock_reach s s"
| step: "lock_reach s t \<Longrightarrow> lock_step t u \<Longrightarrow> lock_reach s u"

definition lock_boot :: "lsys \<Rightarrow> bool" where
  "lock_boot s \<longleftrightarrow>
     (\<forall>l. locked (locks (mc s) l) = 0 \<and> lk_cpu (locks (mc s) l) = None) \<and>
     (\<forall>h. noff (cpus (mc s) h) = 0 \<and> pc s h = Run \<and> lheld s h = [])"

text \<open>A hart owns a lock from the successful swap to the unlock.\<close>

definition owns :: "lsys \<Rightarrow> nat \<Rightarrow> lockid \<Rightarrow> bool" where
  "owns s h l \<longleftrightarrow> pc s h = Won l \<or> pc s h = Leaving l \<or> lk_cpu (locks (mc s) l) = Some h"

definition locked_iff_owned :: "lsys \<Rightarrow> bool" where
  "locked_iff_owned s \<longleftrightarrow> (\<forall>l. locked (locks (mc s) l) \<noteq> 0 \<longleftrightarrow> (\<exists>h. owns s h l))"

definition one_owner :: "lsys \<Rightarrow> bool" where
  "one_owner s \<longleftrightarrow> (\<forall>l h h'. owns s h l \<longrightarrow> owns s h' l \<longrightarrow> h = h')"

definition owner_recorded :: "lsys \<Rightarrow> bool" where
  "owner_recorded s \<longleftrightarrow>
     (\<forall>l h. pc s h = Won l \<or> pc s h = Leaving l \<longrightarrow> lk_cpu (locks (mc s) l) = None)"

definition held_is_owner :: "lsys \<Rightarrow> bool" where
  "held_is_owner s \<longleftrightarrow>
     (\<forall>h. distinct (lheld s h) \<and> set (lheld s h) = {l. lk_cpu (locks (mc s) l) = Some h})"

definition noff_counts :: "lsys \<Rightarrow> bool" where
  "noff_counts s \<longleftrightarrow>
     (\<forall>h. noff (cpus (mc s) h) = int (length (lheld s h)) + (if pc s h = Run then 0 else 1))"

definition intr_masked :: "lsys \<Rightarrow> bool" where
  "intr_masked s \<longleftrightarrow> (\<forall>h. 0 < noff (cpus (mc s) h) \<longrightarrow> \<not> sie (mc s) h)"

definition lock_inv :: "lsys \<Rightarrow> bool" where
  "lock_inv s \<longleftrightarrow>
     locked_iff_owned s \<and> one_owner s \<and> owner_recorded s \<and>
     held_is_owner s \<and> noff_counts s \<and> intr_masked s"

lemmas lock_op_defs =
  intr_get_def intr_off_def intr_on_def holding_def push_off_def pop_off_def acquire_enter_def
  test_and_set_def acquire_done_def release_owner_def release_unlock_def Let_def

lemmas lock_part_defs =
  locked_iff_owned_def one_owner_def owner_recorded_def held_is_owner_def noff_counts_def
  intr_masked_def owns_def

lemma lock_inv_boot: "lock_boot s \<Longrightarrow> lock_inv s"
  by (auto simp: lock_inv_def lock_part_defs lock_boot_def)

text \<open>What each micro step does to the fields the invariant reads.\<close>

lemma acquire_enter_Inr:
  assumes "acquire_enter h l s = Inr m"
  shows "locks m = locks s" "noff (cpus m g) = noff (cpus s g) + (if g = h then 1 else 0)"
    "sie m g = (sie s g \<and> g \<noteq> h)"
  using assms by (auto simp: lock_op_defs split: if_splits)

lemma release_owner_Inr:
  assumes "release_owner h l s = Inr m"
  shows "lk_cpu (locks s l) = Some h" "locked (locks s l) \<noteq> 0"
    "m = s\<lparr>locks := (locks s)(l := (locks s l)\<lparr>lk_cpu := None\<rparr>)\<rparr>"
  using assms by (auto simp: lock_op_defs split: if_splits)

lemma pop_off_Inr:
  assumes "pop_off h s = Inr m"
  shows "locks m = locks s" "1 \<le> noff (cpus s h)" "\<not> sie s h"
    "noff (cpus m g) = noff (cpus s g) - (if g = h then 1 else 0)"
    "sie m g \<Longrightarrow> sie s g \<or> g = h \<and> noff (cpus s h) = 1"
  using assms by (auto simp: lock_op_defs split: if_splits)

lemma step_noff_counts:
  assumes "lock_step s t" "noff_counts s" "held_is_owner s"
  shows "noff_counts t"
  using assms
proof (induction rule: lock_step.induct)
  case (leave s h l m)
  then have "l \<in> set (lheld s h)" by (auto simp: held_is_owner_def dest: release_owner_Inr)
  then have "int (length (lheld s h)) = int (length (remove1 l (lheld s h))) + 1"
    using length_pos_if_in_set [of l "lheld s h"]
    by (simp add: length_remove1 del: length_greater_0_conv)
  with leave show ?case
    by (auto simp: noff_counts_def dest!: release_owner_Inr(3))
qed (auto simp: noff_counts_def acquire_enter_Inr pop_off_Inr(4) test_and_set_def acquire_done_def
       release_unlock_def intr_on_def intr_off_def)

lemma step_intr_masked:
  assumes "lock_step s t" "intr_masked s" "noff_counts s"
  shows "intr_masked t"
  using assms
proof (induction rule: lock_step.induct)
  case (pop s h m)
  show ?case
    unfolding intr_masked_def
  proof (intro allI impI)
    fix g assume "0 < noff (cpus (mc (s\<lparr>mc := m, pc := (pc s)(h := Run)\<rparr>)) g)"
    then have "0 < noff (cpus (mc s) g) - (if g = h then 1 else 0)"
      using pop_off_Inr(4) [OF pop.hyps(2)] by simp
    then show "\<not> sie (mc (s\<lparr>mc := m, pc := (pc s)(h := Run)\<rparr>)) g"
      using pop.prems(1) pop_off_Inr(5) [OF pop.hyps(2), of g]
      by (auto simp: intr_masked_def split: if_splits)
  qed
qed (auto simp: intr_masked_def acquire_enter_Inr test_and_set_def acquire_done_def
       release_unlock_def intr_on_def intr_off_def dest!: release_owner_Inr(3))

lemma step_held_is_owner: "lock_step s t \<Longrightarrow> lock_inv s \<Longrightarrow> held_is_owner t"
  unfolding lock_inv_def
  by (erule lock_step.cases)
     (auto simp: held_is_owner_def owner_recorded_def lock_op_defs split: if_splits)

lemma step_owner_recorded:
  assumes "lock_step s t" "owner_recorded s" "one_owner s" "locked_iff_owned s"
  shows "owner_recorded t"
  using assms
proof (induction rule: lock_step.induct)
  case (win s h l m)
  then have "lk_cpu (locks (mc s) l) = None"
    by (auto simp: locked_iff_owned_def owns_def test_and_set_def)
  with win show ?case by (auto simp: owner_recorded_def test_and_set_def)
next
  case (own s h l)
  then show ?case
    by (auto simp: owner_recorded_def one_owner_def owns_def acquire_done_def)
qed (auto simp: owner_recorded_def acquire_enter_Inr pop_off_Inr(1) test_and_set_def
       release_unlock_def intr_on_def intr_off_def dest!: release_owner_Inr(3))

text \<open>
  Ownership changes at two steps only: a winning swap makes the hart an owner of a lock
  nobody owned, and the unlock ends it.
\<close>

lemma owns_step:
  assumes "lock_step s t" "owner_recorded s"
  obtains (same) "\<And>h l. owns t h l = owns s h l"
      "\<And>l. locked (locks (mc t) l) \<noteq> 0 \<longleftrightarrow> locked (locks (mc s) l) \<noteq> 0"
  | (gain) h l where "locked (locks (mc s) l) = 0"
      "\<And>g k. owns t g k \<longleftrightarrow> owns s g k \<or> g = h \<and> k = l"
      "\<And>k. locked (locks (mc t) k) \<noteq> 0 \<longleftrightarrow> locked (locks (mc s) k) \<noteq> 0 \<or> k = l"
  | (lose) h l where "owns s h l"
      "\<And>g k. owns t g k \<longleftrightarrow> owns s g k \<and> \<not> (g = h \<and> k = l)"
      "\<And>k. locked (locks (mc t) k) \<noteq> 0 \<longleftrightarrow> locked (locks (mc s) k) \<noteq> 0 \<and> k \<noteq> l"
  using assms(1)
proof (cases rule: lock_step.cases)
  case (enter h l m)
  then show ?thesis by (intro same) (auto simp: owns_def acquire_enter_Inr(1))
next
  case (spin h l old m)
  then show ?thesis by (intro same) (auto simp: owns_def test_and_set_def split: if_splits)
next
  case (win h l m)
  then show ?thesis
    by (intro gain [of l h]) (auto simp: owns_def test_and_set_def split: if_splits)
next
  case (own h l)
  then have "lk_cpu (locks (mc s) l) = None" using assms(2) by (simp add: owner_recorded_def)
  with own show ?thesis by (intro same) (auto simp: owns_def acquire_done_def split: if_splits)
next
  case (leave h l m)
  with release_owner_Inr [OF leave(3)] show ?thesis
    by (intro same) (auto simp: owns_def split: if_splits)
next
  case (unlock h l)
  then have "lk_cpu (locks (mc s) l) = None" using assms(2) by (simp add: owner_recorded_def)
  with unlock show ?thesis
    by (intro lose [of h l]) (auto simp: owns_def release_unlock_def split: if_splits)
next
  case (pop h m)
  then show ?thesis by (intro same) (auto simp: owns_def pop_off_Inr(1))
next
  case (intr h b)
  then show ?thesis by (intro same) (auto simp: owns_def intr_on_def intr_off_def)
qed

lemma step_one_owner:
  assumes "lock_step s t" "owner_recorded s" "one_owner s" "locked_iff_owned s"
  shows "one_owner t"
  using assms(1,2)
proof (cases rule: owns_step)
  case same
  then show ?thesis using assms(3) by (simp add: one_owner_def)
next
  case (gain h l)
  then have "\<not> owns s g l" for g using assms(4) by (auto simp: locked_iff_owned_def)
  then show ?thesis using assms(3) by (auto simp: one_owner_def gain(2))
next
  case (lose h l)
  show ?thesis using assms(3) by (auto simp: one_owner_def lose(2))
qed

lemma step_locked_iff_owned:
  assumes "lock_step s t" "owner_recorded s" "one_owner s" "locked_iff_owned s"
  shows "locked_iff_owned t"
  using assms(1,2)
proof (cases rule: owns_step)
  case same
  then show ?thesis using assms(4) by (simp add: locked_iff_owned_def)
next
  case (gain h l)
  show ?thesis using assms(4) by (auto simp: locked_iff_owned_def gain(2,3))
next
  case (lose h l)
  show ?thesis
    unfolding locked_iff_owned_def
  proof
    fix k
    show "(locked (locks (mc t) k) \<noteq> 0) = (\<exists>g. owns t g k)"
    proof (cases "k = l")
      case True
      then have "\<not> owns t g k" for g using lose(1,2) assms(3) by (auto simp: one_owner_def)
      with True lose(3) show ?thesis by simp
    next
      case False
      with lose(2,3) assms(4) show ?thesis by (simp add: locked_iff_owned_def)
    qed
  qed
qed

lemma lock_step_inv: "lock_step s t \<Longrightarrow> lock_inv s \<Longrightarrow> lock_inv t"
  using step_held_is_owner [of s t] step_locked_iff_owned [of s t] step_one_owner [of s t]
    step_owner_recorded [of s t] step_noff_counts [of s t] step_intr_masked [of s t]
  by (simp add: lock_inv_def)

lemma lock_reach_inv: "lock_reach s t \<Longrightarrow> lock_boot s \<Longrightarrow> lock_inv t"
  by (induction rule: lock_reach.induct) (auto intro: lock_inv_boot lock_step_inv)

section \<open>The list of held locks as the view of one hart\<close>

text \<open>
  \<open>lock_view h m hs e\<close>: hart \<open>h\<close> holds exactly the locks \<open>hs\<close>, and \<open>e\<close> is whether
  interrupts are on once it holds none. The other components work on this view:
  \<open>acquire\<close> adds a lock to the list, \<open>release\<close> removes it, and the panics are the
  same.
\<close>

definition lock_view :: "nat \<Rightarrow> smp \<Rightarrow> lockid list \<Rightarrow> bool \<Rightarrow> bool" where
  "lock_view h m hs e \<longleftrightarrow>
     distinct hs \<and> set hs = {l. holding h l m} \<and>
     noff (cpus m h) = int (length hs) \<and> sie m h = (hs = [] \<and> e) \<and>
     (hs \<noteq> [] \<longrightarrow> intena (cpus m h) = e)"

lemma push_off_sel [simp]:
  "locks (push_off h m) = locks m"
  "noff (cpus (push_off h m) h) = noff (cpus m h) + 1"
  "intena (cpus (push_off h m) h) = (if noff (cpus m h) = 0 then sie m h else intena (cpus m h))"
  "sie (push_off h m) h = False"
  by (simp_all add: lock_op_defs)

lemma acquire_done_sel [simp]:
  "cpus (acquire_done h l m) = cpus m" "sie (acquire_done h l m) = sie m"
  by (simp_all add: acquire_done_def)

lemma test_and_set_sel [simp]:
  "fst (test_and_set l m) = locked (locks m l)"
  "cpus (snd (test_and_set l m)) = cpus m" "sie (snd (test_and_set l m)) = sie m"
  by (simp_all add: test_and_set_def)

lemma holding_push_off [simp]: "holding h l (push_off g m) = holding h l m"
  by (simp add: lock_op_defs)

lemma acquire_view_panic:
  assumes "lock_view h m hs e" "l \<in> set hs"
  shows "acquire h l m = panic ''acquire''"
  using assms by (auto simp: lock_view_def acquire_def acquire_enter_def Let_def)

lemma acquire_view:
  assumes "lock_view h m hs e" "l \<notin> set hs" "locked (locks m l) = 0"
  shows "\<exists>m'. acquire h l m = Inr m' \<and> lock_view h m' (l # hs) e"
proof -
  have nh: "\<not> holding h l m" using assms(1,2) by (auto simp: lock_view_def)
  define m' where "m' = acquire_done h l (snd (test_and_set l (push_off h m)))"
  have "acquire h l m = Inr m'"
    using nh assms(3)
    by (simp add: acquire_def acquire_enter_def test_and_set_def m'_def Let_def)
  moreover have "{k. holding h k m'} = insert l {k. holding h k m}"
    using nh by (auto simp: m'_def holding_def acquire_done_def test_and_set_def split: if_splits)
  then have "lock_view h m' (l # hs) e"
    using assms(1,2) by (simp add: lock_view_def m'_def)
  ultimately show ?thesis by blast
qed

lemma release_view_panic:
  assumes "lock_view h m hs e" "l \<notin> set hs"
  shows "release h l m = panic ''release''"
  using assms by (auto simp: lock_view_def release_def release_owner_def)

lemma release_view:
  assumes "lock_view h m hs e" "l \<in> set hs"
  shows "\<exists>m'. release h l m = Inr m' \<and> lock_view h m' (remove1 l hs) e"
proof -
  have hold: "holding h l m" using assms by (auto simp: lock_view_def)
  define m1 where "m1 = release_unlock l (m\<lparr>locks := (locks m)(l := (locks m l)\<lparr>lk_cpu := None\<rparr>)\<rparr>)"
  have len: "length hs = Suc (length (remove1 l hs))"
    using assms(2) length_pos_if_in_set [of l hs] by (simp add: length_remove1 del: length_greater_0_conv)
  have m1: "sie m1 h = False" "noff (cpus m1 h) = int (length (remove1 l hs)) + 1" "intena (cpus m1 h) = e"
    using assms len by (auto simp: m1_def lock_view_def release_unlock_def)
  obtain m' where m': "pop_off h m1 = Inr m'" using m1 by (simp add: lock_op_defs)
  then have rel: "release h l m = Inr m'"
    using hold by (simp add: release_def release_owner_def m1_def)
  have "{k. holding h k m1} = {k. holding h k m} - {l}"
    using hold by (auto simp: m1_def holding_def release_unlock_def split: if_splits)
  then have "{k. holding h k m'} = {k. holding h k m} - {l}"
    using pop_off_Inr(1) [OF m'] by (simp add: holding_def)
  moreover have "noff (cpus m' h) = int (length (remove1 l hs))" "intena (cpus m' h) = e"
      "sie m' h = (remove1 l hs = [] \<and> e)"
    using m' m1 by (auto simp: pop_off_def intr_get_def intr_on_def Let_def split: if_splits)
  ultimately have "lock_view h m' (remove1 l hs) e"
    using assms(1) by (simp add: lock_view_def)
  with rel show ?thesis by blast
qed

end
