(* ===== verification/Kstate.thy ===== *)
theory Kstate
  imports Spinlock
begin

unbundle bit_operations_syntax

text \<open>
  The kernel state one hart sees: the structs of \<^verbatim>\<open>proc.h\<close>, the globals of
  \<^verbatim>\<open>kalloc.c\<close>, \<^verbatim>\<open>vm.c\<close>, \<^verbatim>\<open>proc.c\<close>, \<^verbatim>\<open>trap.c\<close> and
  \<^verbatim>\<open>sysproc.c\<close>, the control registers the C code reads and writes, and the
  locks the hart holds. The record is extensible: the file system theories add their
  own state.

  Locking is the list view of theory \<open>Spinlock\<close>: \<open>held\<close> lists the locks of this
  hart, \<open>noff\<close> is its length and interrupts are on iff no lock is held and \<open>ien\<close>
  (\<open>acquire_view\<close> and \<open>release_view\<close> prove that the code implements this view).
  \<open>kacquire\<close> returns once the lock is this hart's: what other harts do in between
  happens before it, since the lock excludes them (\<open>lock_reach_inv\<close>).
\<close>

section \<open>proc.h\<close>

datatype procstate = UNUSED | USED | SLEEPING | RUNNABLE | RUNNING | ZOMBIE

text \<open>Sleep channels are kernel addresses in the code; here they name the object.\<close>

datatype chan =
    ChProc nat | ChTicks | ChLog | ChPipeR u64 | ChPipeW u64 | ChCons | ChTx
  | ChSleepBuf nat | ChSleepInode nat | ChBuf nat | ChVfree

record kcontext =
  ctx_ra :: u64
  ctx_sp :: u64
  ctx_s :: "u64 list"

record proc =
  kpagetable :: u64
  state :: procstate
  p_chan :: "chan option"
  p_killed :: int
  xstate :: int
  pid :: int
  parent :: "nat option"
  kstack :: u64
  sz :: u64
  pagetable :: u64
  trapframe :: u64
  ctxt :: kcontext
  ofile :: "nat \<Rightarrow> nat option"
  cwd :: "nat option"
  p_name :: "u8 list"
  fault_count :: int
  filter_mask :: u64
  sc_filter :: u64

text \<open>Byte offsets in \<^verbatim>\<open>struct trapframe\<close>, as the comments in proc.h give them.\<close>

definition tf_kernel_satp :: u64 where "tf_kernel_satp = 0"
definition tf_kernel_sp :: u64 where "tf_kernel_sp = 8"
definition tf_kernel_trap :: u64 where "tf_kernel_trap = 16"
definition tf_epc :: u64 where "tf_epc = 24"
definition tf_kernel_hartid :: u64 where "tf_kernel_hartid = 32"
definition tf_sp :: u64 where "tf_sp = 48"
definition tf_a :: "nat \<Rightarrow> u64" where "tf_a n = 112 + 8 * of_nat n"
definition tf_size :: nat where "tf_size = 288"

section \<open>Link-time symbols and control registers\<close>

text \<open>Addresses the linker assigns (\<^verbatim>\<open>kernel.ld\<close>): parameters of the model.\<close>

record ksyms =
  sym_end :: u64
  sym_etext :: u64
  sym_trampoline :: u64
  sym_uservec :: u64
  sym_userret :: u64
  sym_forkret :: u64
  sym_usertrap :: u64
  sym_kernelvec :: u64

record csrs =
  sstatus :: u64
  sepc :: u64
  scause :: u64
  stval :: u64
  stvec :: u64
  satp :: u64
  stimecmp :: u64

section \<open>The state\<close>

record kst =
  held :: "lockid list"
  ien :: bool
  hart :: nat
  cur :: "nat option"
  csr :: csrs
  syms :: ksyms
  mem :: memory
  freelist :: u64
  kref :: "u64 \<Rightarrow> int"
  kernel_pagetable :: u64
  procs :: "nat \<Rightarrow> proc"
  nextpid :: int
  initproc :: "nat option"
  ticks :: u32
  stride_faults :: int
  shared_pte :: int
  out :: "u8 list"

section \<open>Locking on the list view\<close>

definition kacquire :: "lockid \<Rightarrow> 'z kst_scheme \<Rightarrow> 'z kst_scheme res" where
  "kacquire l s =
     (if l \<in> set (held s) then panic ''acquire'' else Inr (s\<lparr>held := l # held s\<rparr>))"

definition krelease :: "lockid \<Rightarrow> 'z kst_scheme \<Rightarrow> 'z kst_scheme res" where
  "krelease l s =
     (if l \<notin> set (held s) then panic ''release'' else Inr (s\<lparr>held := remove1 l (held s)\<rparr>))"

definition kholding :: "lockid \<Rightarrow> 'z kst_scheme \<Rightarrow> bool" where
  "kholding l s \<longleftrightarrow> l \<in> set (held s)"

definition kintr_get :: "'z kst_scheme \<Rightarrow> bool" where
  "kintr_get s \<longleftrightarrow> held s = [] \<and> ien s"

lemma kacquire_Inr [res_iff]:
  "kacquire l s = Inr t \<longleftrightarrow> l \<notin> set (held s) \<and> t = s\<lparr>held := l # held s\<rparr>"
  by (auto simp: kacquire_def)

lemma krelease_Inr [res_iff]:
  "krelease l s = Inr t \<longleftrightarrow> l \<in> set (held s) \<and> t = s\<lparr>held := remove1 l (held s)\<rparr>"
  by (auto simp: krelease_def)

lemma kacquire_free [simp]: "l \<notin> set (held s) \<Longrightarrow> kacquire l s = Inr (s\<lparr>held := l # held s\<rparr>)"
  by (simp add: kacquire_def)

lemma krelease_top [simp]: "held s = l # hs \<Longrightarrow> krelease l s = Inr (s\<lparr>held := hs\<rparr>)"
  by (simp add: krelease_def)

section \<open>Current process\<close>

text \<open>\<open>myproc\<close> of \<^verbatim>\<open>proc.c\<close>: the process of this hart, its \<open>push_off\<close> and
  \<open>pop_off\<close> cancel. The kernel dereferences the result, so no process is a stop.\<close>

definition myproc :: "'z kst_scheme \<Rightarrow> nat option" where
  "myproc s = cur s"

definition my :: "'z kst_scheme \<Rightarrow> nat res" where
  "my s = (case cur s of None \<Rightarrow> Inl (Block ''null process'') | Some p \<Rightarrow> Inr p)"

definition set_proc :: "nat \<Rightarrow> (proc \<Rightarrow> proc) \<Rightarrow> 'z kst_scheme \<Rightarrow> 'z kst_scheme" where
  "set_proc p f s = s\<lparr>procs := (procs s)(p := f (procs s p))\<rparr>"

lemma my_Inr [res_iff]: "my s = Inr p \<longleftrightarrow> cur s = Some p"
  by (auto simp: my_def split: option.splits)

lemma set_proc_sel [simp]:
  "procs (set_proc p f s) q = (if q = p then f (procs s p) else procs s q)"
  "held (set_proc p f s) = held s" "ien (set_proc p f s) = ien s"
  "hart (set_proc p f s) = hart s" "cur (set_proc p f s) = cur s"
  "csr (set_proc p f s) = csr s" "syms (set_proc p f s) = syms s"
  "mem (set_proc p f s) = mem s" "freelist (set_proc p f s) = freelist s"
  "kref (set_proc p f s) = kref s" "kernel_pagetable (set_proc p f s) = kernel_pagetable s"
  "nextpid (set_proc p f s) = nextpid s" "initproc (set_proc p f s) = initproc s"
  "ticks (set_proc p f s) = ticks s" "out (set_proc p f s) = out s"
  by (auto simp: set_proc_def)

section \<open>Trapframe fields in memory\<close>

definition tf_get :: "'z kst_scheme \<Rightarrow> nat \<Rightarrow> u64 \<Rightarrow> u64" where
  "tf_get s p off = load64 (mem s) (trapframe (procs s p) + off)"

definition tf_set :: "nat \<Rightarrow> u64 \<Rightarrow> u64 \<Rightarrow> 'z kst_scheme \<Rightarrow> 'z kst_scheme" where
  "tf_set p off v s = s\<lparr>mem := store64 (mem s) (trapframe (procs s p) + off) v\<rparr>"

end
