(* ===== verification/Cstring.thy ===== *)
theory Cstring
  imports Layout
begin

unbundle bit_operations_syntax

text \<open>
  Model of \<^verbatim>\<open>kernel/string.c\<close>. The functions are loops over byte addressed memory;
  the lemmas show what the loops compute: \<open>memset\<close> is \<open>fill\<close>, \<open>memmove\<close> is a
  simultaneous copy even for overlapping regions, the string copies write exactly the
  bytes their documentation promises and stop inside the buffer.
\<close>

section \<open>memset, memcmp, memmove\<close>

text \<open>The loop variable \<open>i\<close> and the number of iterations left, \<open>n - i\<close>.\<close>

fun memset_loop :: "memory \<Rightarrow> u64 \<Rightarrow> u8 \<Rightarrow> nat \<Rightarrow> nat \<Rightarrow> memory" where
  "memset_loop m dst c i 0 = m"
| "memset_loop m dst c i (Suc k) = memset_loop (m(dst + of_nat i := c)) dst c (Suc i) k"

definition memset :: "memory \<Rightarrow> u64 \<Rightarrow> int \<Rightarrow> u32 \<Rightarrow> memory" where
  "memset m dst c n = memset_loop m dst (word_of_int c) 0 (unat n)"

fun memcmp_loop :: "memory \<Rightarrow> u64 \<Rightarrow> u64 \<Rightarrow> nat \<Rightarrow> int" where
  "memcmp_loop m s1 s2 0 = 0"
| "memcmp_loop m s1 s2 (Suc n) =
     (if m s1 \<noteq> m s2 then uint (m s1) - uint (m s2)
      else memcmp_loop m (s1 + 1) (s2 + 1) n)"

definition memcmp :: "memory \<Rightarrow> u64 \<Rightarrow> u64 \<Rightarrow> u32 \<Rightarrow> int" where
  "memcmp m v1 v2 n = memcmp_loop m v1 v2 (unat n)"

fun move_up :: "memory \<Rightarrow> u64 \<Rightarrow> u64 \<Rightarrow> nat \<Rightarrow> memory" where
  "move_up m d s 0 = m"
| "move_up m d s (Suc n) = move_up (m(d := m s)) (d + 1) (s + 1) n"

fun move_down :: "memory \<Rightarrow> u64 \<Rightarrow> u64 \<Rightarrow> nat \<Rightarrow> memory" where
  "move_down m d s 0 = m"
| "move_down m d s (Suc n) = move_down (m(d - 1 := m (s - 1))) (d - 1) (s - 1) n"

definition memmove :: "memory \<Rightarrow> u64 \<Rightarrow> u64 \<Rightarrow> u32 \<Rightarrow> memory" where
  "memmove m dst src n =
     (if n = 0 then m
      else if src < dst \<and> src + ucast n > dst
      then move_down m (dst + ucast n) (src + ucast n) (unat n)
      else move_up m dst src (unat n))"

section \<open>Strings\<close>

text \<open>
  \<open>strncmp\<close> reads two byte sequences, given here as functions of the index, so that
  it applies to memory and to the arrays of the on-disk structures alike.
\<close>

fun strncmp_loop :: "(nat \<Rightarrow> u8) \<Rightarrow> (nat \<Rightarrow> u8) \<Rightarrow> nat \<Rightarrow> nat \<Rightarrow> int" where
  "strncmp_loop p q i 0 = 0"
| "strncmp_loop p q i (Suc n) =
     (if p i \<noteq> 0 \<and> p i = q i then strncmp_loop p q (Suc i) n
      else uint (p i) - uint (q i))"

definition strncmp :: "(nat \<Rightarrow> u8) \<Rightarrow> (nat \<Rightarrow> u8) \<Rightarrow> nat \<Rightarrow> int" where
  "strncmp p q n = strncmp_loop p q 0 n"

text \<open>The bytes \<open>strncpy (s, t, n)\<close> and \<open>safestrcpy (s, t, n)\<close> store, from \<open>s[0]\<close> on.\<close>

fun strncpy_loop :: "(nat \<Rightarrow> u8) \<Rightarrow> nat \<Rightarrow> nat \<Rightarrow> u8 list" where
  "strncpy_loop t i 0 = []"
| "strncpy_loop t i (Suc n) =
     t i # (if t i \<noteq> 0 then strncpy_loop t (Suc i) n else replicate n 0)"

definition strncpy :: "(nat \<Rightarrow> u8) \<Rightarrow> int \<Rightarrow> u8 list" where
  "strncpy t n = strncpy_loop t 0 (nat n)"

text \<open>\<open>--n > 0\<close> is tested before each byte; the last byte stored is the NUL.\<close>

fun safestrcpy_loop :: "(nat \<Rightarrow> u8) \<Rightarrow> nat \<Rightarrow> nat \<Rightarrow> u8 list" where
  "safestrcpy_loop t i 0 = [0]"
| "safestrcpy_loop t i (Suc n) =
     t i # (if t i \<noteq> 0 then safestrcpy_loop t (Suc i) n else [0])"

definition safestrcpy :: "(nat \<Rightarrow> u8) \<Rightarrow> int \<Rightarrow> u8 list" where
  "safestrcpy t n = (if n \<le> 0 then [] else safestrcpy_loop t 0 (nat (n - 1)))"

partial_function (option) strlen_loop :: "(nat \<Rightarrow> u8) \<Rightarrow> nat \<Rightarrow> nat option" where
  "strlen_loop s n = (if s n \<noteq> 0 then strlen_loop s (Suc n) else Some n)"

definition strlen :: "(nat \<Rightarrow> u8) \<Rightarrow> nat option" where
  "strlen s = strlen_loop s 0"

section \<open>memset is fill\<close>

lemma in_range_Suc: "n < 2 ^ 64 \<Longrightarrow> in_range a p (Suc n) \<longleftrightarrow> in_range a p n \<or> a = p + of_nat n"
proof -
  assume n: "n < 2 ^ 64"
  have "unat (a - p) = n \<longleftrightarrow> a = p + of_nat n"
  proof
    assume "unat (a - p) = n"
    then have "a - p = of_nat n" by auto
    then show "a = p + of_nat n" by (simp add: algebra_simps)
  next
    assume "a = p + of_nat n"
    then show "unat (a - p) = n" using n by (simp add: unat_of_nat_u64)
  qed
  then show ?thesis by (auto simp: in_range_def less_Suc_eq)
qed

lemma in_range_0 [simp]: "\<not> in_range a p 0"
  by (simp add: in_range_def)

lemma memset_loop_fill:
  "i + k < 2 ^ 64 \<Longrightarrow>
   memset_loop m dst c i k a = (if in_range a dst (i + k) \<and> \<not> in_range a dst i then c else m a)"
proof (induction k arbitrary: m i)
  case 0
  then show ?case by auto
next
  case (Suc k)
  have r: "in_range (dst + of_nat i) dst (i + Suc k)" "\<not> in_range (dst + of_nat i) dst i"
    using Suc.prems by (simp_all add: in_range_def unat_of_nat_u64)
  have "in_range a dst (Suc i) \<longleftrightarrow> in_range a dst i \<or> a = dst + of_nat i"
    using Suc.prems by (intro in_range_Suc) simp
  moreover define m' where "m' = m(dst + of_nat i := c)"
  ultimately show ?case
    using r Suc.IH [of "Suc i" m'] Suc.prems by (auto simp: m'_def [symmetric]) (auto simp: m'_def)
qed

lemma unat_u32_less: "unat (n :: u32) < 2 ^ 64"
  by (rule less_trans [OF unsigned_less [of n]]) simp

lemma memset_fill: "memset m dst c n = fill m dst (word_of_int c) (unat n)"
  using memset_loop_fill [of 0 "unat n"] unat_u32_less [of n]
  by (simp add: memset_def fill_def fun_eq_iff)

section \<open>memmove is a simultaneous copy\<close>

lemma in_range_shift: "n < 2 ^ 64 - 1 \<Longrightarrow> in_range a p (Suc n) \<longleftrightarrow> a = p \<or> in_range a (p + 1) n"
proof -
  assume n: "n < 2 ^ 64 - 1"
  show ?thesis
  proof (cases "a = p")
    case True
    then show ?thesis by (simp add: in_range_def)
  next
    case False
    then have ne: "a - p \<noteq> 0" by simp
    have "unat (a - (p + 1)) = unat (a - p) - 1"
      using unat_minus_one [OF ne] by (simp add: diff_diff_eq)
    moreover have "0 < unat (a - p)" using ne by (simp add: unat_gt_0)
    ultimately show ?thesis using False by (auto simp: in_range_def)
  qed
qed

lemma not_in_range_pred: "n < 2 ^ 63 \<Longrightarrow> \<not> in_range d (d + 1) n"
proof -
  assume "n < 2 ^ 63"
  moreover have "unat (- 1 :: u64) = 2 ^ 64 - 1"
    by (simp add: unsigned_minus_1_eq_mask mask_eq_exp_minus_1)
  ultimately show ?thesis by (simp add: in_range_def)
qed

lemma move_up_copy:
  assumes "n < 2 ^ 63" "unat (d - s) = 0 \<or> n \<le> unat (d - s)"
  shows "move_up m d s n a = copy m d s n a"
  using assms
proof (induction n arbitrary: m d s)
  case 0
  then show ?case by (simp add: copy_def)
next
  case (Suc n)
  define m' where "m' = m(d := m s)"
  have IH: "move_up m' (d + 1) (s + 1) n a = copy m' (d + 1) (s + 1) n a"
    by (rule Suc.IH) (use Suc.prems in auto)
  have rng: "in_range a d (Suc n) \<longleftrightarrow> a = d \<or> in_range a (d + 1) n"
    using Suc.prems(1) by (intro in_range_shift) simp
  have src: "m' (s + (a - d)) = m (s + (a - d))" if "in_range a (d + 1) n"
  proof (cases "s = d")
    case True
    then show ?thesis by (simp add: m'_def)
  next
    case False
    then have "Suc n \<le> unat (d - s)" using Suc.prems(2) by (simp add: unat_eq_zero)
    moreover have "unat (a - d) < Suc n" using rng that by (simp add: in_range_def)
    ultimately have "a - d \<noteq> d - s" by auto
    then have "s + (a - d) \<noteq> d" by (metis add_diff_cancel_left')
    then show ?thesis by (simp add: m'_def)
  qed
  have sh: "s + 1 + (a - (d + 1)) = s + (a - d)" by (simp add: algebra_simps)
  have nd: "\<not> in_range d (d + 1) n" using Suc.prems(1) by (intro not_in_range_pred) simp
  have "move_up m d s (Suc n) a = copy m' (d + 1) (s + 1) n a" using IH by (simp add: m'_def)
  also have "\<dots> = (if in_range a (d + 1) n then m (s + (a - d)) else m' a)"
    using src sh by (simp add: copy_def)
  also have "\<dots> = copy m d s (Suc n) a" using nd by (auto simp: copy_def rng m'_def)
  finally show ?case .
qed

lemma move_down_copy:
  assumes "n < 2 ^ 63" "unat (s - d) = 0 \<or> n \<le> unat (s - d)"
  shows "move_down m (d + of_nat n) (s + of_nat n) n a = copy m d s n a"
  using assms
proof (induction n arbitrary: m)
  case 0
  then show ?case by (simp add: copy_def)
next
  case (Suc n)
  define dn where "dn = d + of_nat n"
  define m' where "m' = m(dn := m (s + of_nat n))"
  have IH: "move_down m' dn (s + of_nat n) n a = copy m' d s n a"
    unfolding dn_def by (rule Suc.IH) (use Suc.prems in auto)
  have rng: "in_range a d (Suc n) \<longleftrightarrow> in_range a d n \<or> a = dn"
    unfolding dn_def using Suc.prems(1) by (intro in_range_Suc) simp
  have src: "m' (s + (a - d)) = m (s + (a - d))" if "in_range a d n"
  proof (cases "s = d")
    case True
    then show ?thesis by (simp add: m'_def dn_def)
  next
    case False
    then have le: "Suc n \<le> unat (s - d)" using Suc.prems(2) by (simp add: unat_eq_zero)
    have un: "unat (of_nat n :: u64) = n" using Suc.prems(1) by (intro unat_of_nat_u64) simp
    have "s + (a - d) \<noteq> dn"
    proof
      assume "s + (a - d) = dn"
      then have "s - d = of_nat n - (a - d)" by (simp add: dn_def algebra_simps)
      moreover have "a - d \<le> of_nat n" using that un by (simp add: in_range_def word_le_nat_alt)
      ultimately have "unat (s - d) = n - unat (a - d)" using un by (simp only: unat_sub)
      with le show False by simp
    qed
    then show ?thesis by (simp add: m'_def)
  qed
  have last: "dn - d = of_nat n" by (simp add: dn_def)
  have nd: "\<not> in_range dn d n"
    using Suc.prems(1) by (simp add: dn_def in_range_def unat_of_nat_u64)
  have p1: "d + of_nat (Suc n) - 1 = dn" "s + of_nat (Suc n) - 1 = s + of_nat n"
    by (simp_all add: dn_def)
  have "move_down m (d + of_nat (Suc n)) (s + of_nat (Suc n)) (Suc n) a = copy m' d s n a"
    unfolding move_down.simps p1 using IH by (simp add: m'_def)
  also have "\<dots> = (if in_range a d n then m (s + (a - d)) else m' a)"
    using src by (simp add: copy_def)
  also have "\<dots> = copy m d s (Suc n) a" using nd last by (auto simp: copy_def rng m'_def)
  finally show ?case .
qed

lemma memmove_copy:
  assumes "unat src + unat n < 2 ^ 64"
  shows "memmove m dst src n = copy m dst src (unat n)"
proof -
  have n32: "unat n < 2 ^ 32" using unsigned_less [of n, where ?'a = nat] by simp
  have un: "unat (ucast n :: u64) = unat n" 
    using unat_u32_less [of n] by (simp add: unsigned_ucast_eq take_bit_nat_eq_self)
  have sum: "unat (src + ucast n) = unat src + unat n"
    using assms un by (simp add: unat_word_ariths)
  consider (zero) "n = 0" | (down) "n \<noteq> 0" "src < dst" "src + ucast n > dst"
    | (up) "n \<noteq> 0" "\<not> (src < dst \<and> src + ucast n > dst)" by blast
  then show ?thesis
  proof cases
    case zero
    then show ?thesis by (simp add: memmove_def copy_def fun_eq_iff)
  next
    case down
    have "unat (src - dst) = 2 ^ 64 - (unat dst - unat src)"
      using down(2) unsigned_less [of dst] by (simp add: word_less_nat_alt unat_sub_if_size word_size)
    then have "unat n \<le> unat (src - dst)"
      using down(3) sum n32 by (simp add: word_less_nat_alt)
    then show ?thesis
      using down move_down_copy [of "unat n" src dst m] n32
      by (simp add: memmove_def fun_eq_iff)
  next
    case up
    have "unat (dst - src) = 0 \<or> unat n \<le> unat (dst - src)"
    proof (cases "src < dst")
      case True
      then have "unat src + unat n \<le> unat dst" using up(2) sum by (simp add: word_less_nat_alt)
      then show ?thesis using True by (simp add: word_less_nat_alt unat_sub_if_size)
    next
      case False
      then show ?thesis
        using assms by (auto simp: word_less_nat_alt unat_sub_if_size word_size not_less)
    qed
    then show ?thesis
      using up move_up_copy [of "unat n" dst src m] n32 by (auto simp: memmove_def fun_eq_iff)
  qed
qed

section \<open>String functions\<close>

lemma strncmp_loop_zero:
  "strncmp_loop p q i n = 0 \<longleftrightarrow> (\<forall>k < n. (\<forall>j < k. p (i + j) \<noteq> 0) \<longrightarrow> p (i + k) = q (i + k))"
proof (induction p q i n rule: strncmp_loop.induct)
  case (1 p q i)
  then show ?case by simp
next
  case (2 p q i n)
  have sp: "(\<forall>k < Suc n. P k) \<longleftrightarrow> P 0 \<and> (\<forall>k < n. P (Suc k))" for P by (auto simp: less_Suc_eq_0_disj)
  have sp': "(\<forall>j < Suc k. P j) \<longleftrightarrow> P 0 \<and> (\<forall>j < k. P (Suc j))" for P k
    by (auto simp: less_Suc_eq_0_disj)
  have eq0: "uint (p i) - uint (q i) = 0 \<longleftrightarrow> p i = q i" by (simp add: word_uint_eq_iff)
  show ?case
  proof (cases "p i \<noteq> 0 \<and> p i = q i")
    case True
    with 2 show ?thesis by (simp add: sp sp')
  next
    case False
    have "strncmp_loop p q i (Suc n) = 0 \<longleftrightarrow> p i = q i" using False eq0
      by (simp only: strncmp_loop.simps if_False)
    then show ?thesis using False by (auto simp: sp sp' simp del: strncmp_loop.simps)
  qed
qed

text \<open>\<open>strncmp\<close> returns 0 iff the strings agree up to the first NUL or \<open>n\<close> bytes.\<close>

lemma strncmp_zero: "strncmp p q n = 0 \<longleftrightarrow> (\<forall>k < n. (\<forall>j < k. p j \<noteq> 0) \<longrightarrow> p k = q k)"
  using strncmp_loop_zero [of p q 0 n] by (simp add: strncmp_def)

lemma strncpy_loop_length [simp]: "length (strncpy_loop t i n) = n"
  by (induction t i n rule: strncpy_loop.induct) auto

lemma strncpy_loop_nth:
  "k < n \<Longrightarrow> strncpy_loop t i n ! k = (if \<forall>j < k. t (i + j) \<noteq> 0 then t (i + k) else 0)"
proof (induction t i n arbitrary: k rule: strncpy_loop.induct)
  case (2 t i n)
  then show ?case by (cases k) (auto simp: less_Suc_eq_0_disj nth_Cons')
qed simp

lemma strncpy_length [simp]: "length (strncpy t n) = nat n"
  by (simp add: strncpy_def)

lemma strncpy_nth: "k < nat n \<Longrightarrow> strncpy t n ! k = (if \<forall>j < k. t j \<noteq> 0 then t k else 0)"
  using strncpy_loop_nth [of k "nat n" t 0] by (auto simp: strncpy_def)

lemma safestrcpy_loop_props:
  "safestrcpy_loop t i n \<noteq> [] \<and> length (safestrcpy_loop t i n) \<le> n + 1 \<and>
   last (safestrcpy_loop t i n) = 0"
  by (induction t i n rule: safestrcpy_loop.induct) auto

lemma safestrcpy_fits:
  assumes "0 < n"
  shows "length (safestrcpy t n) \<le> nat n" "safestrcpy t n \<noteq> []" "last (safestrcpy t n) = 0"
  using safestrcpy_loop_props [of t 0 "nat (n - 1)"] assms by (auto simp: safestrcpy_def)

lemma strlen_loop_eq:
  "s (n + k) = 0 \<Longrightarrow> (\<forall>j < k. s (n + j) \<noteq> 0) \<Longrightarrow> strlen_loop s n = Some (n + k)"
proof (induction k arbitrary: n)
  case 0
  then show ?case by (simp add: strlen_loop.simps)
next
  case (Suc k)
  have "strlen_loop s (Suc n) = Some (Suc n + k)"
    by (rule Suc.IH) (use Suc.prems in auto)
  moreover have "s n \<noteq> 0" using Suc.prems(2) by force
  ultimately show ?case by (simp add: strlen_loop.simps [of s n])
qed

text \<open>\<open>strlen\<close> returns, and with the index of the first NUL, when there is one.\<close>

lemma strlen_first: "s k = 0 \<Longrightarrow> (\<forall>j < k. s j \<noteq> 0) \<Longrightarrow> strlen s = Some k"
  using strlen_loop_eq [of s 0 k] by (simp add: strlen_def)

end
