(* ===== verification/Kalloc.thy ===== *)
theory Kalloc
  imports Kstate Cstring
begin

unbundle bit_operations_syntax

text \<open>
  Model of \<^verbatim>\<open>kernel/kalloc.c\<close>: the free list threaded through the free pages and
  the reference counts that copy-on-write adds. The invariant \<open>kmem_inv\<close> says that the
  list is a duplicate free chain of managed pages, exactly those with reference count
  0. The allocator is then shown to implement an abstract one, the list of free pages
  and the count of every page.
\<close>

section \<open>Operations\<close>

definition pa_idx :: "u64 \<Rightarrow> u64" where
  "pa_idx pa = pa div PGSIZE"

definition kfree :: "u64 \<Rightarrow> 'z kst_scheme \<Rightarrow> 'z kst_scheme res" where
  "kfree pa s =
     (if pa mod PGSIZE \<noteq> 0 \<or> pa < sym_end (syms s) \<or> pa \<ge> PHYSTOP then panic ''kfree''
      else
       andthen (kacquire Lkref s) (\<lambda>s.
       let idx = pa div PGSIZE;
           s = (if kref s idx \<le> 0 then s\<lparr>kref := (kref s)(idx := 1)\<rparr> else s);
           s = s\<lparr>kref := (kref s)(idx := kref s idx - 1)\<rparr>
       in if kref s idx > 0 then krelease Lkref s
          else
           andthen (krelease Lkref s) (\<lambda>s.
           let s = s\<lparr>mem := memset (mem s) pa 1 4096\<rparr>
           in andthen (kacquire Lkmem s) (\<lambda>s.
              let s = s\<lparr>mem := store64 (mem s) pa (freelist s)\<rparr>;
                  s = s\<lparr>freelist := pa\<rparr>
              in krelease Lkmem s))))"

definition kalloc :: "'z kst_scheme \<Rightarrow> (u64 \<times> 'z kst_scheme) res" where
  "kalloc s =
     andthen (kacquire Lkmem s) (\<lambda>s.
     let r = freelist s;
         s = (if r \<noteq> 0 then s\<lparr>freelist := load64 (mem s) r\<rparr> else s)
     in andthen (krelease Lkmem s) (\<lambda>s.
        if r \<noteq> 0
        then
          let s = s\<lparr>mem := memset (mem s) r 5 4096\<rparr>
          in andthen (kacquire Lkref s) (\<lambda>s.
             let s = s\<lparr>kref := (kref s)(pa_idx r := 1)\<rparr>
             in andthen (krelease Lkref s) (\<lambda>s. Inr (r, s)))
        else Inr (r, s)))"

definition kref_incr :: "u64 \<Rightarrow> 'z kst_scheme \<Rightarrow> 'z kst_scheme res" where
  "kref_incr pa s =
     (if pa \<ge> PHYSTOP \<or> pa < sym_end (syms s) then Inr s
      else
       andthen (kacquire Lkref s) (\<lambda>s.
       krelease Lkref (s\<lparr>kref := (kref s)(pa div PGSIZE := kref s (pa div PGSIZE) + 1)\<rparr>)))"

definition kref_get :: "u64 \<Rightarrow> 'z kst_scheme \<Rightarrow> (int \<times> 'z kst_scheme) res" where
  "kref_get pa s =
     (if pa \<ge> PHYSTOP \<or> pa < sym_end (syms s) then Inr (0, s)
      else
       andthen (kacquire Lkref s) (\<lambda>s.
       let cnt = kref s (pa div PGSIZE)
       in andthen (krelease Lkref s) (\<lambda>s. Inr (cnt, s))))"

text \<open>
  The loop of \<open>freerange\<close>: \<open>n\<close> bounds the iterations; one page is left for each
  unit of it (\<open>freerange\<close> passes the number of pages below \<open>pa_end\<close>).
\<close>

primrec freerange_loop :: "nat \<Rightarrow> u64 \<Rightarrow> u64 \<Rightarrow> 'z kst_scheme \<Rightarrow> 'z kst_scheme res" where
  "freerange_loop 0 p pa_end s = (if p + PGSIZE \<le> pa_end then Inl (Block ''freerange'') else Inr s)"
| "freerange_loop (Suc n) p pa_end s =
     (if p + PGSIZE \<le> pa_end
      then andthen (kfree p (s\<lparr>kref := (kref s)(pa_idx p := 1)\<rparr>)) (freerange_loop n (p + PGSIZE) pa_end)
      else Inr s)"

definition freerange :: "u64 \<Rightarrow> u64 \<Rightarrow> 'z kst_scheme \<Rightarrow> 'z kst_scheme res" where
  "freerange pa_start pa_end s =
     freerange_loop (unat (pa_end div PGSIZE)) (PGROUNDUP pa_start) pa_end s"

definition kinit :: "'z kst_scheme \<Rightarrow> 'z kst_scheme res" where
  "kinit s =
     andthen (kacquire Lkref s) (\<lambda>s.
     let s = s\<lparr>kref := (\<lambda>i. if i < PHYSTOP div PGSIZE then 0 else kref s i)\<rparr>
     in andthen (krelease Lkref s) (freerange (sym_end (syms s)) PHYSTOP))"

section \<open>Free list and invariant\<close>

text \<open>\<open>fl_chain m p ps\<close>: following the links from \<open>p\<close> visits the pages \<open>ps\<close>.\<close>

primrec fl_chain :: "memory \<Rightarrow> u64 \<Rightarrow> u64 list \<Rightarrow> bool" where
  "fl_chain m p [] \<longleftrightarrow> p = 0"
| "fl_chain m p (q # qs) \<longleftrightarrow> p = q \<and> q \<noteq> 0 \<and> fl_chain m (load64 m q) qs"

definition managed :: "'z kst_scheme \<Rightarrow> u64 \<Rightarrow> bool" where
  "managed s p \<longleftrightarrow> page_aligned p \<and> sym_end (syms s) \<le> p \<and> p < PHYSTOP"

definition rc :: "'z kst_scheme \<Rightarrow> u64 \<Rightarrow> int" where
  "rc s p = kref s (p div PGSIZE)"

definition free_pages :: "'z kst_scheme \<Rightarrow> u64 list \<Rightarrow> bool" where
  "free_pages s ps \<longleftrightarrow>
     fl_chain (mem s) (freelist s) ps \<and> distinct ps \<and>
     (\<forall>p. managed s p \<longrightarrow> 0 \<le> rc s p \<and> (p \<in> set ps \<longleftrightarrow> rc s p = 0)) \<and>
     (\<forall>p \<in> set ps. managed s p)"

definition kmem_inv :: "'z kst_scheme \<Rightarrow> bool" where
  "kmem_inv s \<longleftrightarrow> 0 < sym_end (syms s) \<and> (\<exists>ps. free_pages s ps)"

text \<open>The locks of the allocator are not held by this hart.\<close>

definition kmem_unlocked :: "'z kst_scheme \<Rightarrow> bool" where
  "kmem_unlocked s \<longleftrightarrow> Lkmem \<notin> set (held s) \<and> Lkref \<notin> set (held s)"

section \<open>Page arithmetic\<close>

lemma div_PGSIZE: "p div PGSIZE = drop_bit 12 p"
  by (simp add: PGSIZE_def drop_bit_eq_div)

lemma page_index_inj:
  "page_aligned p \<Longrightarrow> page_aligned q \<Longrightarrow> p div PGSIZE = q div PGSIZE \<longleftrightarrow> p = q"
  unfolding div_PGSIZE page_aligned_iff align_down_def by (rule iffI, erule subst, simp_all)

lemma page_index_align_down: "align_down 12 a div PGSIZE = a div PGSIZE"
  by (rule bit_word_eqI) (auto simp: div_PGSIZE bit_simps)

lemma unat_4096_u32 [simp]: "unat (4096 :: u32) = 4096"
  by simp

section \<open>Lemmas on the chain\<close>

lemma fl_chain_unique: "fl_chain m p ps \<Longrightarrow> fl_chain m p qs \<Longrightarrow> ps = qs"
proof (induction ps arbitrary: p qs)
  case Nil
  then show ?case by (cases qs) auto
next
  case (Cons a ps)
  then show ?case by (cases qs) auto
qed

lemma fl_chain_cong:
  "(\<And>q. q \<in> set ps \<Longrightarrow> load64 m q = load64 m' q) \<Longrightarrow> fl_chain m p ps = fl_chain m' p ps"
  by (induction ps arbitrary: p) auto

lemma fl_chain_append:
  "fl_chain m p (ps @ q # qs) \<Longrightarrow> fl_chain m q (q # qs)"
  by (induction ps arbitrary: p) auto

lemma fl_chain_0 [simp]: "fl_chain m 0 ps \<longleftrightarrow> ps = []"
  by (cases ps) auto

lemma load64_page_other:
  assumes "page_aligned p" "page_aligned q" "p \<noteq> q"
  shows "load64 (fill m p c 4096) q = load64 m q" "load64 (store64 m p v) q = load64 m q"
  using assms by (simp_all add: mem_simps page_aligned_align3 page_aligned_iff)

lemma managed_nonzero: "kmem_inv s \<Longrightarrow> managed s p \<Longrightarrow> p \<noteq> 0"
  by (auto simp: kmem_inv_def managed_def)

section \<open>Behaviour of the operations\<close>

lemma kalloc_eq:
  assumes "kmem_unlocked s"
  shows "kalloc s =
    (if freelist s = 0 then Inr (0, s)
     else Inr (freelist s,
       s\<lparr>freelist := load64 (mem s) (freelist s), mem := fill (mem s) (freelist s) 5 4096,
         kref := (kref s)(freelist s div PGSIZE := 1)\<rparr>))"
  using assms by (simp add: kalloc_def kmem_unlocked_def Let_def memset_fill pa_idx_def)

lemma kfree_eq:
  assumes "kmem_unlocked s" "managed s pa"
  shows "kfree pa s =
    (if 1 < rc s pa then Inr (s\<lparr>kref := (kref s)(pa div PGSIZE := rc s pa - 1)\<rparr>)
     else Inr (s\<lparr>kref := (kref s)(pa div PGSIZE := 0),
                 mem := store64 (fill (mem s) pa 1 4096) pa (freelist s), freelist := pa\<rparr>))"
proof -
  have g: "\<not> (pa mod PGSIZE \<noteq> 0 \<or> pa < sym_end (syms s) \<or> PHYSTOP \<le> pa)"
    using assms(2) by (auto simp: managed_def page_aligned_def)
  consider "1 < kref s (pa div PGSIZE)" | "kref s (pa div PGSIZE) = 1" | "kref s (pa div PGSIZE) \<le> 0"
    by linarith
  then show ?thesis
    using assms(1)
    unfolding kfree_def if_not_P [OF g]
    by cases (simp_all add: kmem_unlocked_def rc_def Let_def memset_fill)
qed

lemma kfree_panic: "\<not> managed s pa \<Longrightarrow> kfree pa s = panic ''kfree''"
  unfolding kfree_def managed_def page_aligned_def
  by (rule if_P) (simp only: not_le [symmetric] de_Morgan_conj not_not)

lemma kref_incr_eq:
  assumes "kmem_unlocked s" "managed s pa"
  shows "kref_incr pa s = Inr (s\<lparr>kref := (kref s)(pa div PGSIZE := rc s pa + 1)\<rparr>)"
  using assms by (auto simp: kref_incr_def kmem_unlocked_def managed_def rc_def not_le not_less)

lemma kref_get_eq:
  assumes "kmem_unlocked s" "managed s pa"
  shows "kref_get pa s = Inr (rc s pa, s)"
  using assms by (auto simp: kref_get_def kmem_unlocked_def managed_def rc_def Let_def not_le not_less)

section \<open>The invariant is kept\<close>

lemma free_pagesD:
  assumes "free_pages s ps"
  shows "fl_chain (mem s) (freelist s) ps" "distinct ps" "q \<in> set ps \<Longrightarrow> managed s q"
    "managed s q \<Longrightarrow> 0 \<le> rc s q" "managed s q \<Longrightarrow> q \<in> set ps \<longleftrightarrow> rc s q = 0"
  using assms by (simp_all add: free_pages_def)

lemma managedD:
  assumes "managed s p"
  shows "page_aligned p" "sym_end (syms s) \<le> p" "p < PHYSTOP"
  using assms by (simp_all add: managed_def)

lemma free_pages_alloc:
  assumes "free_pages s (p # ps)" 
  shows "free_pages (s\<lparr>freelist := load64 (mem s) p, mem := fill (mem s) p c 4096,
         kref := (kref s)(p div PGSIZE := 1)\<rparr>) ps" (is "free_pages ?s' ps")
proof -
  have m: "managed s p" "\<forall>q \<in> set ps. managed s q" and d: "p \<notin> set ps" "distinct ps"
    and ch: "fl_chain (mem s) (load64 (mem s) p) ps"
    and r: "\<forall>q. managed s q \<longrightarrow> 0 \<le> rc s q \<and> (q \<in> set (p # ps) \<longleftrightarrow> rc s q = 0)"
    using assms by (auto simp: free_pages_def)
  have "load64 (mem s) q = load64 (fill (mem s) p c 4096) q" if "q \<in> set ps" for q
    using that m d by (subst load64_page_other) (auto simp: managed_def)
  then have "fl_chain (mem ?s') (freelist ?s') ps"
    using ch fl_chain_cong [of ps "mem s" "fill (mem s) p c 4096"] by simp
  moreover have "managed ?s' q = managed s q" for q by (simp add: managed_def)
  moreover have "rc ?s' q = (if q = p then 1 else rc s q)" if "managed s q" for q
    using that m(1) by (simp add: rc_def managed_def page_index_inj)
  ultimately show ?thesis using m d r by (auto simp: free_pages_def)
qed

lemma free_pages_free:
  assumes "free_pages s ps" "managed s pa" "rc s pa = 1" "kmem_inv s"
  shows "free_pages (s\<lparr>kref := (kref s)(pa div PGSIZE := 0),
           mem := store64 (fill (mem s) pa c 4096) pa (freelist s), freelist := pa\<rparr>) (pa # ps)"
    (is "free_pages ?s' _")
proof -
  have np: "pa \<notin> set ps" using free_pagesD(5) [OF assms(1,2)] assms(3) by simp
  have "load64 (mem s) q = load64 (mem ?s') q" if "q \<in> set ps" for q
  proof -
    have "page_aligned q" by (rule managedD(1) [OF free_pagesD(3) [OF assms(1) that]])
    moreover have "page_aligned pa" "pa \<noteq> q" using that np managedD(1) [OF assms(2)] by auto
    ultimately show ?thesis by (simp add: load64_page_other)
  qed
  then have "fl_chain (mem ?s') (freelist s) ps"
    using assms(1) fl_chain_cong [of ps "mem s" "mem ?s'" "freelist s"] free_pagesD(1)
    by blast
  then have "fl_chain (mem ?s') (freelist ?s') (pa # ps)"
    using managed_nonzero [OF assms(4,2)] by simp
  moreover have "managed ?s' q = managed s q" for q by (simp add: managed_def)
  moreover have "rc ?s' q = (if q = pa then 0 else rc s q)" if "managed s q" for q
    using that assms(2) by (simp add: rc_def managed_def page_index_inj)
  ultimately show ?thesis
    using assms(2) np free_pagesD [OF assms(1)] unfolding free_pages_def by auto
qed

lemma free_pages_count:
  assumes "free_pages s ps" "managed s pa" "0 < rc s pa" "0 < n"
  shows "free_pages (s\<lparr>kref := (kref s)(pa div PGSIZE := n)\<rparr>) ps" (is "free_pages ?s' _")
proof -
  have "managed ?s' q = managed s q" for q by (simp add: managed_def)
  moreover have "rc ?s' q = (if q = pa then n else rc s q)" if "managed s q" for q
    using that assms(2) by (simp add: rc_def managed_def page_index_inj)
  moreover have "rc s pa \<noteq> 0" using assms(3) by simp
  ultimately show ?thesis
    using assms(2,4) free_pagesD [OF assms(1)] unfolding free_pages_def by auto
qed

section \<open>Allocation and release under the invariant\<close>

lemma kmem_invI: "0 < sym_end (syms s) \<Longrightarrow> free_pages s ps \<Longrightarrow> kmem_inv s"
  by (auto simp: kmem_inv_def)

lemma fill_other: "page_aligned p \<Longrightarrow> align_down 12 a \<noteq> p \<Longrightarrow> fill m p c 4096 a = m a"
  by (simp add: fill_def in_range_page)

lemma fill_same: "page_aligned p \<Longrightarrow> align_down 12 a = p \<Longrightarrow> fill m p c 4096 a = c"
  by (simp add: fill_def in_range_page)

lemma store64_other_page: "page_aligned p \<Longrightarrow> align_down 12 a \<noteq> p \<Longrightarrow> store64 m p v a = m a"
  using align_down_12_3 [of a p]
  by (auto simp: store64_def le_put_def in_range_word page_aligned_align3 page_aligned_iff)

text \<open>What an allocation changes; \<open>alloc_post s pa s'\<close> for the page \<open>pa\<close> it returns.\<close>

definition alloc_post :: "'z kst_scheme \<Rightarrow> u64 \<Rightarrow> 'z kst_scheme \<Rightarrow> bool" where
  "alloc_post s pa s' \<longleftrightarrow>
     managed s pa \<and> rc s pa = 0 \<and> pa \<noteq> 0 \<and>
     s' = s\<lparr>freelist := load64 (mem s) pa, mem := fill (mem s) pa 5 4096,
            kref := (kref s)(pa div PGSIZE := 1)\<rparr>"

lemma kalloc_cases:
  assumes "kmem_inv s" "kmem_unlocked s"
  obtains (none) "kalloc s = Inr (0, s)" "free_pages s []"
  | (some) pa s' where "kalloc s = Inr (pa, s')" "alloc_post s pa s'" "kmem_inv s'"
proof -
  from assms(1) obtain ps where ps: "free_pages s ps" and e: "0 < sym_end (syms s)"
    by (auto simp: kmem_inv_def)
  show ?thesis
  proof (cases ps)
    case Nil
    then have "freelist s = 0" using free_pagesD(1) [OF ps] by simp
    with Nil ps show ?thesis by (intro none) (simp_all add: kalloc_eq assms(2))
  next
    case (Cons p qs)
    define s' where "s' = s\<lparr>freelist := load64 (mem s) p, mem := fill (mem s) p 5 4096,
            kref := (kref s)(p div PGSIZE := 1)\<rparr>"
    have f: "freelist s = p" "p \<noteq> 0" using free_pagesD(1) [OF ps] Cons by simp_all
    have m: "managed s p" using free_pagesD(3) [OF ps] Cons by simp
    have "rc s p = 0" using free_pagesD(5) [OF ps m] Cons by simp
    with f m have "alloc_post s p s'" by (simp add: alloc_post_def s'_def)
    moreover have "kalloc s = Inr (p, s')" using f by (simp add: kalloc_eq assms(2) s'_def)
    moreover have "free_pages s' qs"
      unfolding s'_def using ps Cons by (intro free_pages_alloc) simp
    then have "kmem_inv s'" using e by (intro kmem_invI) (simp_all add: s'_def)
    ultimately show ?thesis by (intro some)
  qed
qed

lemma rc_alloc_post:
  "alloc_post s pa s' \<Longrightarrow> page_aligned q \<Longrightarrow> rc s' q = (if q = pa then 1 else rc s q)"
  by (auto simp: alloc_post_def rc_def managed_def page_index_inj)

definition free_post :: "'z kst_scheme \<Rightarrow> u64 \<Rightarrow> 'z kst_scheme \<Rightarrow> bool" where
  "free_post s pa s' \<longleftrightarrow>
     s' = (if 1 < rc s pa then s\<lparr>kref := (kref s)(pa div PGSIZE := rc s pa - 1)\<rparr>
           else s\<lparr>kref := (kref s)(pa div PGSIZE := 0),
                 mem := store64 (fill (mem s) pa 1 4096) pa (freelist s), freelist := pa\<rparr>)"

lemma kfree_cases:
  assumes "kmem_inv s" "kmem_unlocked s" "managed s pa" "0 < rc s pa"
  obtains s' where "kfree pa s = Inr s'" "free_post s pa s'" "kmem_inv s'"
proof -
  from assms(1) obtain ps where ps: "free_pages s ps" and e: "0 < sym_end (syms s)"
    by (auto simp: kmem_inv_def)
  obtain s' where s': "free_post s pa s'" by (simp add: free_post_def)
  have k: "kfree pa s = Inr s'" using s' assms(2,3) by (simp add: kfree_eq free_post_def)
  have "kmem_inv s'"
  proof (cases "1 < rc s pa")
    case True
    then have "free_pages s' ps"
      using s' free_pages_count [OF ps assms(3,4), of "rc s pa - 1"] by (simp add: free_post_def)
    then show ?thesis using e s' by (intro kmem_invI [of _ ps]) (simp_all add: free_post_def)
  next
    case False
    with assms(4) have "rc s pa = 1" by simp
    then have "free_pages s' (pa # ps)"
      using s' False free_pages_free [OF ps assms(3) _ assms(1)] by (simp add: free_post_def)
    then show ?thesis using e s' False by (intro kmem_invI [of _ "pa # ps"]) (simp_all add: free_post_def)
  qed
  with k s' show ?thesis by (intro that)
qed

lemma rc_free_post:
  assumes "free_post s pa s'" "managed s pa" "0 < rc s pa" "page_aligned q"
  shows "rc s' q = (if q = pa then rc s pa - 1 else rc s q)"
  using assms by (auto simp: free_post_def rc_def managed_def page_index_inj)

lemma free_post_sel:
  assumes "free_post s pa s'"
  shows "syms s' = syms s" "held s' = held s" "procs s' = procs s" "cur s' = cur s"
  using assms by (auto simp: free_post_def)

lemma free_post_mem:
  assumes "free_post s pa s'" "page_aligned pa" "align_down 12 a \<noteq> pa \<or> 1 < rc s pa"
  shows "mem s' a = mem s a"
  using assms by (auto simp: free_post_def fill_other store64_other_page)

lemma kref_incr_inv:
  assumes "kmem_inv s" "kmem_unlocked s" "managed s pa" "0 < rc s pa"
  shows "\<exists>s'. kref_incr pa s = Inr s' \<and> kmem_inv s' \<and>
     s' = s\<lparr>kref := (kref s)(pa div PGSIZE := rc s pa + 1)\<rparr>"
proof -
  from assms(1) obtain ps where ps: "free_pages s ps" and e: "0 < sym_end (syms s)"
    by (auto simp: kmem_inv_def)
  show ?thesis
    using free_pages_count [OF ps assms(3,4), of "rc s pa + 1"] assms(4) e
    by (auto simp: kref_incr_eq [OF assms(2,3)] intro!: kmem_invI)
qed

section \<open>Double free\<close>

lemma fl_chain_prefix:
  "fl_chain m p (xs @ q # ys) \<Longrightarrow> fl_chain m' p zs \<Longrightarrow> (\<And>x. x \<in> set xs \<Longrightarrow> load64 m' x = load64 m x) \<Longrightarrow>
   \<exists>ws. zs = xs @ ws \<and> fl_chain m' q ws"
proof (induction xs arbitrary: p zs)
  case Nil
  then show ?case by auto
next
  case (Cons x xs)
  then obtain zs' where "zs = x # zs'" by (cases zs) auto
  with Cons show ?case by fastforce
qed

text \<open>Freeing a page that is already free is not detected: the list becomes a cycle.\<close>

lemma double_free_cyclic:
  assumes "free_pages s ps" "pa \<in> set ps" "kmem_unlocked s"
  shows "\<exists>s'. kfree pa s = Inr s' \<and> (\<nexists>qs. fl_chain (mem s') (freelist s') qs)"
proof -
  have m: "managed s pa" and r: "rc s pa = 0"
    using free_pagesD(3,5) [OF assms(1)] assms(2) by auto
  define s' where "s' = s\<lparr>kref := (kref s)(pa div PGSIZE := 0),
                 mem := store64 (fill (mem s) pa 1 4096) pa (freelist s), freelist := pa\<rparr>"
  have k: "kfree pa s = Inr s'" using r by (simp add: kfree_eq assms(3) m s'_def)
  obtain xs ys where sp: "ps = xs @ pa # ys" using assms(2) by (meson split_list)
  have dx: "distinct ps" by (rule free_pagesD(2) [OF assms(1)])
  have ld: "load64 (mem s') x = load64 (mem s) x" if "x \<in> set xs" for x
  proof -
    have "managed s x" "x \<noteq> pa" using that sp dx free_pagesD(3) [OF assms(1)] by auto
    then show ?thesis using m by (simp add: s'_def load64_page_other managed_def)
  qed
  have "False" if "fl_chain (mem s') pa zs" for zs
  proof (cases zs)
    case Nil
    then show ?thesis using that sp assms(1) by (auto simp: free_pages_def dest: fl_chain_append)
  next
    case (Cons z zs')
    then have "fl_chain (mem s') (freelist s) zs'" using that by (auto simp: s'_def load64_store64_same)
    then obtain ws where ws: "zs' = xs @ ws" "fl_chain (mem s') pa ws"
      using fl_chain_prefix [OF _ _ ld] free_pagesD(1) [OF assms(1)] sp by metis
    with that have "zs = ws" by (blast dest: fl_chain_unique)
    with ws Cons show ?thesis by simp
  qed
  moreover have "freelist s' = pa" by (simp add: s'_def)
  ultimately show ?thesis using k by blast
qed

section \<open>Boot: the free list built by kinit\<close>

text \<open>The state of the loop of \<open>freerange\<close> before page \<open>p\<close>: the list holds the pages
  from \<open>start\<close> up to \<open>p\<close> and every count is 0.\<close>

definition filled_to :: "u64 \<Rightarrow> u64 \<Rightarrow> u64 list \<Rightarrow> 'z kst_scheme \<Rightarrow> bool" where
  "filled_to start p ps s \<longleftrightarrow>
     fl_chain (mem s) (freelist s) ps \<and> distinct ps \<and>
     set ps = {q. page_aligned q \<and> start \<le> q \<and> q < p} \<and>
     (\<forall>i < PHYSTOP div PGSIZE. kref s i = 0)"

lemma less_add_dvd: "k dvd m \<Longrightarrow> k dvd n \<Longrightarrow> 0 < k \<Longrightarrow> m < n + k \<longleftrightarrow> m \<le> (n :: nat)"
  by (elim dvdE) (metis add.commute less_Suc_eq_le mult_Suc_right mult_le_mono2 mult_less_cancel1 not_le)

lemma page_aligned_unat: "page_aligned a \<longleftrightarrow> unat a mod 4096 = 0"
  by (simp add: page_aligned_def PGSIZE_def word_arith_nat_mod unat_of_nat flip: unat_eq_0)

lemma page_step:
  assumes "page_aligned p" "unat p + 4096 \<le> unat PHYSTOP"
  shows "page_aligned (p + PGSIZE)" "unat (p + PGSIZE) = unat p + 4096"
    "p + PGSIZE \<le> PHYSTOP" "p < PHYSTOP"
    "page_aligned q \<Longrightarrow> q < p + PGSIZE \<longleftrightarrow> q < p \<or> q = p"
proof -
  have u: "unat PHYSTOP = 0x88000000" by (simp add: PHYSTOP_def KERNBASE_def)
  show e: "unat (p + PGSIZE) = unat p + 4096"
    using assms(2) u by (simp add: unat_word_ariths PGSIZE_def)
  show "p + PGSIZE \<le> PHYSTOP" using e assms(2) by (simp add: word_le_nat_alt)
  show "p < PHYSTOP" using assms(2) by (simp add: word_less_nat_alt)
  note m = page_aligned_unat
  show "page_aligned (p + PGSIZE)" using assms(1) by (simp add: m e)
  show "q < p + PGSIZE \<longleftrightarrow> q < p \<or> q = p" if q: "page_aligned q"
  proof -
    have "unat q < unat p + 4096 \<longleftrightarrow> unat q \<le> unat p"
      using q assms(1) unfolding m mod_eq_0_iff_dvd by (intro less_add_dvd) simp_all
    then show ?thesis by (auto simp: word_less_nat_alt e order_le_less word_unat_eq_iff)
  qed
qed

lemma guard_iff:
  "unat p \<le> unat PHYSTOP \<Longrightarrow> p + PGSIZE \<le> PHYSTOP \<longleftrightarrow> unat p + 4096 \<le> unat PHYSTOP"
  by (simp add: word_le_nat_alt unat_word_ariths PGSIZE_def PHYSTOP_def KERNBASE_def)

lemma filled_to_step:
  assumes f: "filled_to start p ps s" and p: "page_aligned p" "start \<le> p" "sym_end (syms s) \<le> p"
    "p \<noteq> 0" "unat p + 4096 \<le> unat PHYSTOP" and u: "kmem_unlocked s"
  shows "\<exists>s'. kfree p (s\<lparr>kref := (kref s)(pa_idx p := 1)\<rparr>) = Inr s' \<and>
     filled_to start (p + PGSIZE) (p # ps) s' \<and> syms s' = syms s \<and> kmem_unlocked s' \<and> held s' = held s"
proof -
  let ?s = "s\<lparr>kref := (kref s)(pa_idx p := 1)\<rparr>"
  let ?m = "store64 (fill (mem s) p 1 4096) p (freelist s)"
  define s' where "s' = ?s\<lparr>kref := (kref ?s)(p div PGSIZE := 0), mem := ?m, freelist := p\<rparr>"
  have lt: "p < PHYSTOP" by (rule page_step(4) [OF p(1,5)])
  have k: "kfree p ?s = Inr s'"
    using u p(1,3) lt by (subst kfree_eq)
      (auto simp: kmem_unlocked_def managed_def rc_def pa_idx_def s'_def)
  have np: "p \<notin> set ps" using f by (simp add: filled_to_def)
  have "load64 (mem s) q = load64 ?m q" if "q \<in> set ps" for q
  proof -
    have "page_aligned q" "p \<noteq> q" using that f np by (auto simp: filled_to_def)
    then show ?thesis using p(1) by (simp add: load64_page_other)
  qed
  then have "fl_chain ?m (freelist s) ps"
    using f fl_chain_cong [of ps "mem s" ?m "freelist s"] by (simp add: filled_to_def)
  moreover have "{q. page_aligned q \<and> start \<le> q \<and> q < p + PGSIZE} =
     insert p {q. page_aligned q \<and> start \<le> q \<and> q < p}"
    using page_step(5) [OF p(1,5)] p(1,2) by auto
  ultimately have "filled_to start (p + PGSIZE) (p # ps) s'"
    using f np p(4) by (auto simp: filled_to_def s'_def pa_idx_def)
  then show ?thesis using k u by (auto simp: s'_def kmem_unlocked_def)
qed

lemma freerange_loop_fills:
  assumes "filled_to start p ps s" "page_aligned p" "start \<le> p" "sym_end (syms s) \<le> p" "p \<noteq> 0"
    "unat p \<le> unat PHYSTOP" "unat PHYSTOP \<le> unat p + n * 4096" "kmem_unlocked s"
  shows "\<exists>s' qs. freerange_loop n p PHYSTOP s = Inr s' \<and> filled_to start PHYSTOP qs s' \<and>
     syms s' = syms s \<and> kmem_unlocked s' \<and> held s' = held s"
  using assms
proof (induction n arbitrary: p ps s)
  case 0
  then have "unat p = unat PHYSTOP" by simp
  then have "p = PHYSTOP" by (simp only: word_unat_eq_iff)
  then show ?case using 0 guard_iff [of p] by auto
next
  case (Suc n)
  show ?case
  proof (cases "unat p + 4096 \<le> unat PHYSTOP")
    case True
    obtain s' where s': "kfree p (s\<lparr>kref := (kref s)(pa_idx p := 1)\<rparr>) = Inr s'"
      "filled_to start (p + PGSIZE) (p # ps) s'" "syms s' = syms s" "kmem_unlocked s'" "held s' = held s"
      using filled_to_step [OF Suc.prems(1-5) True Suc.prems(8)] by blast
    note st = page_step [OF Suc.prems(2) True]
    have "p \<le> p + PGSIZE" using st(2) by (simp add: word_le_nat_alt)
    then have "\<exists>s'' qs. freerange_loop n (p + PGSIZE) PHYSTOP s' = Inr s'' \<and> filled_to start PHYSTOP qs s'' \<and>
       syms s'' = syms s' \<and> kmem_unlocked s'' \<and> held s'' = held s'"
      using Suc.prems s' st
      by (intro Suc.IH [of "p + PGSIZE" "p # ps"]) (auto simp: word_le_nat_alt)
    then show ?thesis using s' st(3) by auto
  next
    case False
    have "unat PHYSTOP \<le> unat p"
      using False Suc.prems(2) less_add_dvd [of 4096 "unat PHYSTOP" "unat p"]
      unfolding page_aligned_unat mod_eq_0_iff_dvd by (simp add: PHYSTOP_def KERNBASE_def)
    then have "unat p = unat PHYSTOP" using Suc.prems(6) by (rule antisym [rotated])
    then have "p = PHYSTOP" by (simp only: word_unat_eq_iff)
    then show ?thesis using Suc.prems guard_iff [of p] False by auto
  qed
qed

lemma page_div_less: "page_aligned p \<Longrightarrow> page_aligned q \<Longrightarrow> p < q \<Longrightarrow> p div PGSIZE < q div PGSIZE"
  using page_index_inj [of p q]
  by (auto simp: word_less_nat_alt PGSIZE_def unat_div_distrib word_unat_eq_iff order_less_le div_le_mono)

lemma unat_align_down_split: "unat (align_down k a) + unat (take_bit k a) = unat a"
proof -
  have e: "push_bit k (drop_bit k (unat a)) + take_bit k (unat a) = unat a" by (rule bits_ident)
  then have "push_bit k (drop_bit k (unat a)) < 2 ^ 64"
    using unsigned_less [of a, where ?'a = nat] by simp
  moreover have "take_bit 64 (unat a) = unat a"
    using unsigned_less [of a, where ?'a = nat] by (intro take_bit_nat_eq_self) simp
  ultimately have "unat (align_down k a) = push_bit k (drop_bit k (unat a))"
    by (simp add: align_down_def unsigned_push_bit_eq unsigned_drop_bit_eq take_bit_nat_eq_self)
  then show ?thesis using e by (simp add: unsigned_take_bit_eq)
qed

lemma PGROUNDUP_props:
  assumes "0 < a" "a \<le> PHYSTOP"
  shows "page_aligned (PGROUNDUP a)" "a \<le> PGROUNDUP a" "PGROUNDUP a \<le> PHYSTOP"
    "page_aligned q \<Longrightarrow> a \<le> q \<Longrightarrow> PGROUNDUP a \<le> q"
proof -
  let ?d = "PGROUNDUP a"
  have u: "unat PHYSTOP = 0x88000000" by (simp add: PHYSTOP_def KERNBASE_def)
  have s: "unat (a + 4095) = unat a + 4095" using assms(2) u
    by (simp add: unat_word_ariths word_le_nat_alt)
  have t: "unat ?d + unat (take_bit 12 (a + 4095)) = unat (a + 4095)"
    unfolding PGROUNDUP_align_down by (rule unat_align_down_split)
  have l: "unat (take_bit 12 (a + 4095)) < 4096" using unat_take_bit_less [of 12 "a + 4095"] by simp
  show al: "page_aligned ?d" by (simp add: PGROUNDUP_align_down)
  have b: "unat a \<le> unat ?d" "unat ?d < unat a + 4096" using s t l by linarith+
  show "a \<le> ?d" using b by (simp add: word_le_nat_alt)
  show g: "?d \<le> q" if "page_aligned q" "a \<le> q" for q
    using b(2) that al less_add_dvd [of 4096 "unat ?d" "unat q"]
    unfolding page_aligned_unat mod_eq_0_iff_dvd word_le_nat_alt by simp
  show "?d \<le> PHYSTOP"
    by (rule g) (use assms in \<open>simp_all add: page_aligned_unat u\<close>)
qed

lemma kinit_free_pages:
  assumes "0 < sym_end (syms s)" "sym_end (syms s) \<le> PHYSTOP" "freelist s = 0" "kmem_unlocked s"
  shows "\<exists>s' ps. kinit s = Inr s' \<and> free_pages s' ps \<and> set ps = {p. managed s p} \<and>
     syms s' = syms s \<and> held s' = held s"
proof -
  let ?e = "PGROUNDUP (sym_end (syms s))"
  let ?s = "s\<lparr>kref := (\<lambda>i. if i < PHYSTOP div PGSIZE then 0 else kref s i)\<rparr>"
  note e = PGROUNDUP_props [OF assms(1,2)]
  have f: "filled_to ?e ?e [] ?s" using assms(3) by (auto simp: filled_to_def)
  have n: "unat PHYSTOP \<le> unat ?e + unat (PHYSTOP div PGSIZE) * 4096"
    by (simp add: PHYSTOP_def KERNBASE_def PGSIZE_def)
  have "?e \<noteq> 0" using assms(1) e(2) by auto
  then obtain s' ps where s': "freerange_loop (unat (PHYSTOP div PGSIZE)) ?e PHYSTOP ?s = Inr s'"
      "filled_to ?e PHYSTOP ps s'" "syms s' = syms s" "held s' = held s"
    using freerange_loop_fills [OF f e(1) order_refl _ _ _ n] e assms(4)
    by (auto simp: kmem_unlocked_def word_le_nat_alt)
  have k: "kinit s = Inr s'"
    using s'(1) assms(4) by (simp add: kinit_def Let_def freerange_def kmem_unlocked_def cong: if_cong)
  have mg: "set ps = {p. managed s p}"
    using s'(2) e by (auto simp: filled_to_def managed_def intro: order_trans)
  have "managed s' p = managed s p" for p using s'(3) by (simp add: managed_def)
  moreover have "rc s' p = 0" if "managed s p" for p
  proof -
    have "p div PGSIZE < PHYSTOP div PGSIZE"
      using managedD(1,3) [OF that] by (intro page_div_less) (auto simp: page_aligned_def PHYSTOP_def KERNBASE_def PGSIZE_def)
    then show ?thesis using s'(2) by (simp add: filled_to_def rc_def)
  qed
  moreover have "fl_chain (mem s') (freelist s') ps" "distinct ps"
    using s'(2) by (simp_all add: filled_to_def)
  ultimately have "free_pages s' ps" using mg by (simp add: free_pages_def)
  with k mg s' show ?thesis by blast
qed

section \<open>The contract of the allocator\<close>

text \<open>
  A pool of reference counted pages, as its clients (\<^verbatim>\<open>vm.c\<close>, \<^verbatim>\<open>pipe.c\<close>,
  \<^verbatim>\<open>exec.c\<close>) use it: \<open>pool_alloc\<close> returns a page nobody holds or \<open>nil\<close> when
  there is none, \<open>share\<close> adds a holder, \<open>release\<close> drops one, and none of them
  touches a page that somebody else still holds.
\<close>

locale page_pool =
  fixes ok :: "'s \<Rightarrow> bool" and page :: "'s \<Rightarrow> 'p \<Rightarrow> bool" and nil :: 'p
    and count :: "'s \<Rightarrow> 'p \<Rightarrow> int" and contents :: "'s \<Rightarrow> 'p \<Rightarrow> 'c"
    and pool_alloc :: "'s \<Rightarrow> ('p \<times> 's) res" and share :: "'p \<Rightarrow> 's \<Rightarrow> 's res"
    and drop_ref :: "'p \<Rightarrow> 's \<Rightarrow> 's res"
  assumes nil_no_page: "ok s \<Longrightarrow> \<not> page s nil"
    and count_nonneg: "ok s \<Longrightarrow> page s p \<Longrightarrow> 0 \<le> count s p"
    and alloc_law: "ok s \<Longrightarrow> \<exists>p s'. pool_alloc s = Inr (p, s') \<and> ok s' \<and>
      (p = nil \<and> s' = s \<and> (\<forall>q. page s q \<longrightarrow> 0 < count s q) \<or>
       page s p \<and> count s p = 0 \<and> (\<forall>q. page s' q = page s q) \<and>
       (\<forall>q. page s q \<longrightarrow> count s' q = (if q = p then 1 else count s q)) \<and>
       (\<forall>q. page s q \<longrightarrow> q \<noteq> p \<longrightarrow> contents s' q = contents s q))"
    and share_law: "ok s \<Longrightarrow> page s p \<Longrightarrow> 0 < count s p \<Longrightarrow> \<exists>s'. share p s = Inr s' \<and> ok s' \<and>
       (\<forall>q. page s' q = page s q) \<and>
       (\<forall>q. page s q \<longrightarrow> count s' q = (if q = p then count s p + 1 else count s q)) \<and>
       (\<forall>q. page s q \<longrightarrow> contents s' q = contents s q)"
    and drop_law: "ok s \<Longrightarrow> page s p \<Longrightarrow> 0 < count s p \<Longrightarrow> \<exists>s'. drop_ref p s = Inr s' \<and> ok s' \<and>
       (\<forall>q. page s' q = page s q) \<and>
       (\<forall>q. page s q \<longrightarrow> count s' q = (if q = p then count s p - 1 else count s q)) \<and>
       (\<forall>q. page s q \<longrightarrow> q \<noteq> p \<or> 1 < count s p \<longrightarrow> contents s' q = contents s q)"
begin

lemma alloc_distinct:
  assumes "ok s" "pool_alloc s = Inr (p, s1)" "p \<noteq> nil" "pool_alloc s1 = Inr (q, s2)"
  shows "q \<noteq> p"
proof
  assume "q = p"
  have a: "page s p" "count s1 p = 1" "ok s1" "page s1 p"
    using alloc_law [OF assms(1)] assms(2,3) by auto
  then show False using alloc_law [of s1] assms(3,4) \<open>q = p\<close> by auto
qed

lemma share_release:
  assumes "ok s" "page s p" "0 < count s p"
  shows "\<exists>s1 s2. share p s = Inr s1 \<and> drop_ref p s1 = Inr s2 \<and> ok s2 \<and>
     (\<forall>q. page s q \<longrightarrow> count s2 q = count s q \<and> contents s2 q = contents s q)"
proof -
  obtain s1 where s1: "share p s = Inr s1" "ok s1" "\<forall>q. page s1 q = page s q"
    "\<forall>q. page s q \<longrightarrow> count s1 q = (if q = p then count s p + 1 else count s q)"
    "\<forall>q. page s q \<longrightarrow> contents s1 q = contents s q"
    using share_law [OF assms] by blast
  moreover obtain s2 where "drop_ref p s1 = Inr s2" "ok s2"
    "\<forall>q. page s1 q \<longrightarrow> count s2 q = (if q = p then count s1 p - 1 else count s1 q)"
    "\<forall>q. page s1 q \<longrightarrow> q \<noteq> p \<or> 1 < count s1 p \<longrightarrow> contents s2 q = contents s1 q"
    using drop_law [of s1 p] s1 assms(2,3) by auto
  ultimately show ?thesis using assms(2,3) by (intro exI [of _ s1] exI [of _ s2]) auto
qed

text \<open>Dropping one reference for each entry of a list, as \<open>uvmunmap\<close> does for the
  pages of a range: it works when every page has as many references as the list
  drops, and a page with references left keeps its contents.\<close>

primrec drop_all :: "'p list \<Rightarrow> 's \<Rightarrow> 's res" where
  "drop_all [] s = Inr s"
| "drop_all (p # ps) s = andthen (drop_ref p s) (drop_all ps)"

lemma drop_all_ok:
  assumes "ok s" "\<forall>p \<in> set ps. page s p \<and> int (count_list ps p) \<le> count s p"
  shows "\<exists>s'. drop_all ps s = Inr s' \<and> ok s' \<and> (\<forall>q. page s' q = page s q) \<and>
     (\<forall>q. page s q \<longrightarrow> count s' q = count s q - int (count_list ps q)) \<and>
     (\<forall>q. page s q \<longrightarrow> 0 < count s' q \<longrightarrow> contents s' q = contents s q)"
  using assms
proof (induction ps arbitrary: s)
  case (Cons p ps)
  have p: "page s p" "0 < count s p" using Cons.prems(2) by auto
  obtain s1 where s1: "drop_ref p s = Inr s1" "ok s1" "\<forall>q. page s1 q = page s q"
    "\<forall>q. page s q \<longrightarrow> count s1 q = (if q = p then count s p - 1 else count s q)"
    "\<forall>q. page s q \<longrightarrow> q \<noteq> p \<or> 1 < count s p \<longrightarrow> contents s1 q = contents s q"
    using drop_law [OF Cons.prems(1) p] by blast
  have "\<forall>q \<in> set ps. page s1 q \<and> int (count_list ps q) \<le> count s1 q"
    using Cons.prems(2) s1(3,4) by fastforce
  then obtain s2 where s2: "drop_all ps s1 = Inr s2" "ok s2" "\<forall>q. page s2 q = page s1 q"
    "\<forall>q. page s1 q \<longrightarrow> count s2 q = count s1 q - int (count_list ps q)"
    "\<forall>q. page s1 q \<longrightarrow> 0 < count s2 q \<longrightarrow> contents s2 q = contents s1 q"
    using Cons.IH [OF s1(2)] by blast
  have "contents s2 q = contents s q" if "page s q" "0 < count s2 q" for q
    using that s1(3,4,5) s2(4,5) by (cases "q = p") auto
  then show ?case using s1 s2 by auto
qed simp

end

text \<open>The code of \<^verbatim>\<open>kalloc.c\<close> keeps the contract.\<close>

definition page_bytes :: "'z kst_scheme \<Rightarrow> u64 \<Rightarrow> u64 \<Rightarrow> u8" where
  "page_bytes s p a = (if align_down 12 a = p then mem s a else 0)"

definition kmem_ok :: "'z kst_scheme \<Rightarrow> bool" where
  "kmem_ok s \<longleftrightarrow> kmem_inv s \<and> kmem_unlocked s"

lemma page_bytes_alloc:
  "alloc_post s p s' \<Longrightarrow> q \<noteq> p \<Longrightarrow> page_bytes s' q = page_bytes s q"
  by (auto simp: page_bytes_def alloc_post_def managed_def fill_other)

lemma page_bytes_free:
  "free_post s p s' \<Longrightarrow> managed s p \<Longrightarrow> q \<noteq> p \<or> 1 < rc s p \<Longrightarrow> page_bytes s' q = page_bytes s q"
  by (auto simp: page_bytes_def managed_def free_post_mem)

interpretation kmem: page_pool kmem_ok managed 0 rc page_bytes kalloc kref_incr kfree
proof
  fix s :: "'z kst_scheme" and p
  assume ok: "kmem_ok s"
  then have i: "kmem_inv s" and u: "kmem_unlocked s" by (simp_all add: kmem_ok_def)
  show "\<not> managed s 0" using managed_nonzero [OF i] by blast
  show "0 \<le> rc s p" if "managed s p" using i that by (auto simp: kmem_inv_def free_pages_def)
  show "\<exists>p s'. kalloc s = Inr (p, s') \<and> kmem_ok s' \<and>
      (p = 0 \<and> s' = s \<and> (\<forall>q. managed s q \<longrightarrow> 0 < rc s q) \<or>
       managed s p \<and> rc s p = 0 \<and> (\<forall>q. managed s' q = managed s q) \<and>
       (\<forall>q. managed s q \<longrightarrow> rc s' q = (if q = p then 1 else rc s q)) \<and>
       (\<forall>q. managed s q \<longrightarrow> q \<noteq> p \<longrightarrow> page_bytes s' q = page_bytes s q))"
    using i u
  proof (cases rule: kalloc_cases)
    case none
    then show ?thesis using ok by (auto simp: free_pages_def order_less_le)
  next
    case (some pa s')
    have "kmem_unlocked s'" "\<forall>q. managed s' q = managed s q"
      using some(2) u by (auto simp: alloc_post_def kmem_unlocked_def managed_def)
    moreover have "managed s pa" "rc s pa = 0" using some(2) by (auto simp: alloc_post_def)
    ultimately show ?thesis
      using some rc_alloc_post [OF some(2)] page_bytes_alloc [OF some(2)] managedD(1) [of s]
      by (auto simp: kmem_ok_def)
  qed
  assume m: "managed s p" and r: "0 < rc s p"
  obtain s' where s': "kref_incr p s = Inr s'" "kmem_inv s'"
    "s' = s\<lparr>kref := (kref s)(p div PGSIZE := rc s p + 1)\<rparr>"
    using kref_incr_inv [OF i u m r] by blast
  have "kmem_ok s'" using s'(2,3) u by (simp add: kmem_ok_def kmem_unlocked_def)
  moreover have "rc s' q = (if q = p then rc s p + 1 else rc s q)" if "managed s q" for q
    using that m s'(3) by (simp add: rc_def managed_def page_index_inj)
  moreover have "managed s' q = managed s q" "page_bytes s' q = page_bytes s q" for q
    using s'(3) by (simp_all add: managed_def page_bytes_def fun_eq_iff)
  ultimately show "\<exists>s'. kref_incr p s = Inr s' \<and> kmem_ok s' \<and> (\<forall>q. managed s' q = managed s q) \<and>
       (\<forall>q. managed s q \<longrightarrow> rc s' q = (if q = p then rc s p + 1 else rc s q)) \<and>
       (\<forall>q. managed s q \<longrightarrow> page_bytes s' q = page_bytes s q)"
    using s'(1) by blast
  from i u m r show "\<exists>s'. kfree p s = Inr s' \<and> kmem_ok s' \<and> (\<forall>q. managed s' q = managed s q) \<and>
       (\<forall>q. managed s q \<longrightarrow> rc s' q = (if q = p then rc s p - 1 else rc s q)) \<and>
       (\<forall>q. managed s q \<longrightarrow> q \<noteq> p \<or> 1 < rc s p \<longrightarrow> page_bytes s' q = page_bytes s q)"
  proof (cases rule: kfree_cases)
    case (1 s')
    have "kmem_ok s'" "\<forall>q. managed s' q = managed s q"
      using 1(3) free_post_sel [OF 1(2)] u by (auto simp: kmem_ok_def kmem_unlocked_def managed_def)
    then show ?thesis
      using 1(1) rc_free_post [OF 1(2) m r] page_bytes_free [OF 1(2) m] managedD(1) [of s] by auto
  qed
qed

section \<open>Correctness of the allocator\<close>

text \<open>C8: \<open>kalloc\<close> never panics. Under the invariant it either returns 0, exactly when
  every page is held, and changes nothing; or it returns a managed page nobody held,
  now with one reference and filled with the byte 5, leaves the reference counts and the
  bytes of all other pages alone, and keeps the invariant and the locks.\<close>

theorem kalloc_correct:
  assumes "kmem_inv s" "kmem_unlocked s"
  shows "\<exists>pa s'. kalloc s = Inr (pa, s') \<and> kmem_inv s' \<and> held s' = held s \<and>
     (pa = 0 \<longleftrightarrow> (\<forall>q. managed s q \<longrightarrow> 0 < rc s q)) \<and> (pa = 0 \<longrightarrow> s' = s) \<and>
     (pa \<noteq> 0 \<longrightarrow> managed s pa \<and> rc s pa = 0 \<and>
        (\<forall>q. managed s q \<longrightarrow> rc s' q = (if q = pa then 1 else rc s q)) \<and>
        (\<forall>a. mem s' a = (if align_down 12 a = pa then 5 else mem s a)))"
  using assms
proof (cases rule: kalloc_cases)
  case none
  then show ?thesis using assms by (auto simp: free_pages_def order_less_le)
next
  case (some pa s')
  have p: "managed s pa" "rc s pa = 0" "pa \<noteq> 0" "held s' = held s" "mem s' = fill (mem s) pa 5 4096"
    using some(2) by (auto simp: alloc_post_def)
  have "mem s' a = (if align_down 12 a = pa then 5 else mem s a)" for a
    using p by (simp add: fill_same fill_other managed_def)
  then show ?thesis
    using some p rc_alloc_post [OF some(2)] managedD(1) [of s] by (intro exI [of _ pa] exI [of _ s']) auto
qed

text \<open>C2: \<open>kfree\<close> of a held page drops one reference and keeps the invariant. The page
  returns to the free list exactly when that was the last reference; while references
  are left its bytes do not change, and no other page changes. An address that is not a
  managed page panics.\<close>

theorem kfree_correct:
  assumes "kmem_inv s" "kmem_unlocked s"
  shows "(\<not> managed s pa \<longrightarrow> kfree pa s = panic ''kfree'') \<and>
    (managed s pa \<and> 0 < rc s pa \<longrightarrow> (\<exists>s'. kfree pa s = Inr s' \<and> kmem_inv s' \<and> held s' = held s \<and>
       (\<forall>q. managed s q \<longrightarrow> rc s' q = (if q = pa then rc s pa - 1 else rc s q)) \<and>
       freelist s' = (if rc s pa = 1 then pa else freelist s) \<and>
       (\<forall>a. align_down 12 a \<noteq> pa \<or> 1 < rc s pa \<longrightarrow> mem s' a = mem s a)))"
proof (intro conjI impI, simp add: kfree_panic)
  assume m: "managed s pa \<and> 0 < rc s pa"
  obtain s' where s': "kfree pa s = Inr s'" "free_post s pa s'" "kmem_inv s'"
    using kfree_cases [OF assms] m by blast
  have "freelist s' = (if rc s pa = 1 then pa else freelist s)"
    using s'(2) m by (auto simp: free_post_def)
  then show "\<exists>s'. kfree pa s = Inr s' \<and> kmem_inv s' \<and> held s' = held s \<and>
       (\<forall>q. managed s q \<longrightarrow> rc s' q = (if q = pa then rc s pa - 1 else rc s q)) \<and>
       freelist s' = (if rc s pa = 1 then pa else freelist s) \<and>
       (\<forall>a. align_down 12 a \<noteq> pa \<or> 1 < rc s pa \<longrightarrow> mem s' a = mem s a)"
    using s' m free_post_sel(2) [OF s'(2)] rc_free_post [OF s'(2)] free_post_mem [OF s'(2)] managedD(1) [of s]
    by (intro exI [of _ s']) auto
qed

text \<open>C23: \<open>kinit\<close> terminates at boot with every page between the end of the kernel and
  \<open>PHYSTOP\<close> on the free list, and establishes the invariant.\<close>

theorem kinit_correct:
  assumes "0 < sym_end (syms s)" "sym_end (syms s) \<le> PHYSTOP" "freelist s = 0" "kmem_unlocked s"
  shows "\<exists>s' ps. kinit s = Inr s' \<and> kmem_inv s' \<and> held s' = held s \<and>
     fl_chain (mem s') (freelist s') ps \<and> distinct ps \<and> set ps = {p. managed s p}"
proof -
  obtain s' ps where "kinit s = Inr s'" "free_pages s' ps" "set ps = {p. managed s p}"
     "syms s' = syms s" "held s' = held s"
    using kinit_free_pages [OF assms] by blast
  then show ?thesis
    using assms(1) free_pagesD(1,2) [of s' ps] by (intro exI [of _ s'] exI [of _ ps]) (auto simp: kmem_inv_def)
qed

text \<open>C24: \<open>kfree\<close> does not detect a double free. Freeing a page that is on the free list
  succeeds (the code resets a count of 0 to 1) and leaves a free list that is no
  longer a finite chain of pages: the invariant is lost.\<close>

theorem kfree_double_free_undetected:
  assumes "kmem_inv s" "kmem_unlocked s" "managed s pa" "rc s pa = 0"
  shows "\<exists>s'. kfree pa s = Inr s' \<and> (\<nexists>ps. fl_chain (mem s') (freelist s') ps)"
proof -
  obtain ps where ps: "free_pages s ps" using assms(1) by (auto simp: kmem_inv_def)
  then have "pa \<in> set ps" using assms(3,4) free_pagesD(5) [OF ps] by blast
  then show ?thesis by (rule double_free_cyclic [OF ps _ assms(2)])
qed

section \<open>A concrete state\<close>

text \<open>The addresses of \<^verbatim>\<open>kernel.sym\<close>, and a state in which one page is free and every
  other page is held once.\<close>

definition syms0 :: ksyms where
  "syms0 = \<lparr>sym_end = 0x80242848, sym_etext = 0x80008000, sym_trampoline = 0x80007000,
     sym_uservec = 0x80007000, sym_userret = 0x8000709c, sym_forkret = 0x80001a00,
     sym_usertrap = 0x80002800, sym_kernelvec = 0x80005a00\<rparr>"

definition csr0 :: csrs where
  "csr0 = \<lparr>sstatus = 0, sepc = 0, scause = 0, stval = 0, stvec = 0, satp = 0, stimecmp = 0\<rparr>"

definition proc0 :: proc where
  "proc0 = \<lparr>kpagetable = 0, state = UNUSED, p_chan = None, p_killed = 0, xstate = 0, pid = 0,
     parent = None, kstack = 0, sz = 0, pagetable = 0, trapframe = 0,
     ctxt = \<lparr>ctx_ra = 0, ctx_sp = 0, ctx_s = []\<rparr>, ofile = (\<lambda>_. None), cwd = None, p_name = [],
     fault_count = 0, filter_mask = 0, sc_filter = 0\<rparr>"

definition boot0 :: kst where
  "boot0 = \<lparr>held = [], ien = True, hart = 0, cur = None, csr = csr0, syms = syms0,
     mem = (\<lambda>_. 0), freelist = 0, kref = (\<lambda>_. 0), kernel_pagetable = 0, procs = (\<lambda>_. proc0),
     nextpid = 1, initproc = None, ticks = 0, stride_faults = 0, shared_pte = 0, out = []\<rparr>"

definition one_free :: kst where
  "one_free = boot0\<lparr>freelist := 0x87FFF000, kref := (\<lambda>_. 1)(0x87FFF := 0)\<rparr>"

lemma one_free_inv: "kmem_inv one_free" "kmem_unlocked one_free"
  "managed one_free 0x87FFF000" "rc one_free 0x87FFF000 = 0"
  "managed one_free 0x80300000" "rc one_free 0x80300000 = 1"
proof -
  have pa: "page_aligned 0x87FFF000" by (simp add: page_aligned_def PGSIZE_def)
  have i: "(0x87FFF000 :: u64) div PGSIZE = 0x87FFF" by (simp add: PGSIZE_def)
  have m: "managed one_free 0x87FFF000"
    using pa by (simp add: managed_def one_free_def boot0_def syms0_def PHYSTOP_def KERNBASE_def)
  have r: "rc one_free q = (if q = 0x87FFF000 then 0 else 1)" if "page_aligned q" for q
    using page_index_inj [OF that pa] by (simp add: rc_def one_free_def i)
  have l: "load64 (mem one_free) 0x87FFF000 = 0"
    by (rule load64_zero) (simp_all add: one_free_def boot0_def page_aligned_align3 pa)
  have "free_pages one_free [0x87FFF000]"
    using m r l by (auto simp: free_pages_def managed_def one_free_def boot0_def)
  then show "kmem_inv one_free" by (auto simp: kmem_inv_def one_free_def boot0_def syms0_def)
  show "kmem_unlocked one_free" by (simp add: kmem_unlocked_def one_free_def boot0_def)
  show "managed one_free 0x87FFF000" by (rule m)
  show "rc one_free 0x87FFF000 = 0" using r [OF pa] by simp
  have pb: "page_aligned 0x80300000" by (simp add: page_aligned_def PGSIZE_def)
  then show "rc one_free 0x80300000 = 1" using r by simp
  show "managed one_free 0x80300000"
    using pb by (simp add: managed_def one_free_def boot0_def syms0_def PHYSTOP_def KERNBASE_def)
qed

theorem kalloc_correct_witness:
  "\<exists>s'. kalloc one_free = Inr (0x87FFF000, s') \<and> kmem_inv s' \<and> mem s' 0x87FFF123 = 5"
proof -
  obtain pa s' where k: "kalloc one_free = Inr (pa, s')" "kmem_inv s'"
    "pa \<noteq> 0 \<longrightarrow> (\<forall>a. mem s' a = (if align_down 12 a = pa then 5 else mem one_free a))"
    using kalloc_correct [OF one_free_inv(1,2)] by blast
  have "pa = 0x87FFF000" using k(1) kalloc_eq [OF one_free_inv(2)] by (simp add: one_free_def boot0_def)
  then show ?thesis using k by (simp add: align_down_def)
qed

theorem kfree_correct_witness:
  "\<exists>s'. kfree 0x80300000 one_free = Inr s' \<and> kmem_inv s' \<and> freelist s' = 0x80300000"
  using kfree_correct [OF one_free_inv(1,2), of "0x80300000"] one_free_inv(5,6) by auto

theorem kinit_correct_witness:
  "\<exists>s' ps. kinit boot0 = Inr s' \<and> kmem_inv s' \<and> fl_chain (mem s') (freelist s') ps \<and> 0x80300000 \<in> set ps"
proof -
  have "managed boot0 0x80300000" using one_free_inv(5) by (simp add: managed_def one_free_def)
  then show ?thesis
    using kinit_correct [of boot0]
    by (auto simp: boot0_def syms0_def PHYSTOP_def KERNBASE_def kmem_unlocked_def)
qed

theorem kfree_double_free_undetected_witness:
  "\<exists>s'. kfree 0x87FFF000 one_free = Inr s' \<and> (\<nexists>ps. fl_chain (mem s') (freelist s') ps)"
  by (rule kfree_double_free_undetected [OF one_free_inv(1-4)])

end
