(* ===== verification/Vm.thy ===== *)
theory Vm
  imports Kalloc
begin

unbundle bit_operations_syntax

text \<open>
  Model of \<^verbatim>\<open>kernel/vm.c\<close>, function by function in the order of the file (a
  callee comes first where the code has a forward declaration). Page tables are
  the words in \<open>mem\<close> the code reads and writes: \<open>walk\<close> returns the address of an
  entry, 0 for the null pointer. Loops recurse on a bound of the number of iterations and
  keep the condition of the code; \<open>Block\<close> marks a bound that is too small, and the
  lemmas show that the bounds chosen are enough. Buffers of the kernel that
  \<open>copyin\<close> fills and \<open>copyout\<close> reads are byte lists: \<open>copyin\<close> and \<open>copyinstr\<close>
  return the bytes they stored at \<open>dst\<close>, also when they fail half way.
\<close>

definition PTE_is :: "u64 \<Rightarrow> u64 \<Rightarrow> bool" where
  "PTE_is pte flag \<longleftrightarrow> pte AND flag \<noteq> 0"

definition entry :: "u64 \<Rightarrow> nat \<Rightarrow> u64 \<Rightarrow> u64" where
  "entry pt level va = pt + 8 * PX level va"

definition get_bytes :: "memory \<Rightarrow> u64 \<Rightarrow> nat \<Rightarrow> u8 list" where
  "get_bytes m a n = map (\<lambda>i. m (a + of_nat i)) [0..<n]"

definition put_bytes :: "memory \<Rightarrow> u64 \<Rightarrow> u8 list \<Rightarrow> memory" where
  "put_bytes m a bs = (\<lambda>x. if in_range x a (length bs) then bs ! unat (x - a) else m x)"

section \<open>Walking and mapping\<close>

primrec walk_loop :: "nat \<Rightarrow> u64 \<Rightarrow> u64 \<Rightarrow> bool \<Rightarrow> 'z kst_scheme \<Rightarrow> (u64 \<times> 'z kst_scheme) res" where
  "walk_loop 0 pt va alloc s = Inr (entry pt 0 va, s)"
| "walk_loop (Suc level) pt va alloc s =
     (let pte = entry pt (Suc level) va
      in if PTE_is (load64 (mem s) pte) PTE_V
         then walk_loop level (PTE2PA (load64 (mem s) pte)) va alloc s
         else if \<not> alloc then Inr (0, s)
         else andthen (kalloc s) (\<lambda>(pt, s).
           if pt = 0 then Inr (0, s)
           else
             let s = s\<lparr>mem := memset (mem s) pt 0 4096\<rparr>;
                 s = s\<lparr>mem := store64 (mem s) pte (PA2PTE pt OR PTE_V)\<rparr>
             in walk_loop level pt va alloc s))"

definition walk :: "u64 \<Rightarrow> u64 \<Rightarrow> bool \<Rightarrow> 'z kst_scheme \<Rightarrow> (u64 \<times> 'z kst_scheme) res" where
  "walk pt va alloc s =
     (if va \<ge> MAXVA then panic ''walk'' else walk_loop 2 pt va alloc s)"

definition walkaddr :: "u64 \<Rightarrow> u64 \<Rightarrow> 'z kst_scheme \<Rightarrow> (u64 \<times> 'z kst_scheme) res" where
  "walkaddr pt va s =
     (if va \<ge> MAXVA then Inr (0, s)
      else andthen (walk pt va False s) (\<lambda>(pte, s).
        if pte = 0 \<or> \<not> PTE_is (load64 (mem s) pte) PTE_V \<or> \<not> PTE_is (load64 (mem s) pte) PTE_U
        then Inr (0, s)
        else Inr (PTE2PA (load64 (mem s) pte), s)))"

primrec mappages_loop ::
  "nat \<Rightarrow> u64 \<Rightarrow> u64 \<Rightarrow> u64 \<Rightarrow> u64 \<Rightarrow> u64 \<Rightarrow> 'z kst_scheme \<Rightarrow> (int \<times> 'z kst_scheme) res" where
  "mappages_loop 0 pt a lst pa perm s = Inl (Block ''mappages'')"
| "mappages_loop (Suc n) pt a lst pa perm s =
     andthen (walk pt a True s) (\<lambda>(pte, s).
       if pte = 0 then Inr (-1, s)
       else if PTE_is (load64 (mem s) pte) PTE_V then panic ''mappages: remap''
       else
         let s = s\<lparr>mem := store64 (mem s) pte (PA2PTE pa OR perm OR PTE_V)\<rparr>
         in if a = lst then Inr (0, s)
            else mappages_loop n pt (a + PGSIZE) lst (pa + PGSIZE) perm s)"

definition mappages ::
  "u64 \<Rightarrow> u64 \<Rightarrow> u64 \<Rightarrow> u64 \<Rightarrow> u64 \<Rightarrow> 'z kst_scheme \<Rightarrow> (int \<times> 'z kst_scheme) res" where
  "mappages pt va bytes pa perm s =
     (if va mod PGSIZE \<noteq> 0 then panic ''mappages: va not aligned''
      else if bytes mod PGSIZE \<noteq> 0 then panic ''mappages: size not aligned''
      else if bytes = 0 then panic ''mappages: size''
      else mappages_loop (unat (bytes div PGSIZE)) pt va (va + bytes - PGSIZE) pa perm s)"

definition kvmmap ::
  "u64 \<Rightarrow> u64 \<Rightarrow> u64 \<Rightarrow> u64 \<Rightarrow> u64 \<Rightarrow> 'z kst_scheme \<Rightarrow> 'z kst_scheme res" where
  "kvmmap kpgtbl va pa bytes perm s =
     andthen (mappages kpgtbl va bytes pa perm s) (\<lambda>(r, s).
       if r \<noteq> 0 then panic ''kvmmap'' else Inr s)"

definition kvmmake :: "'z kst_scheme \<Rightarrow> (u64 \<times> 'z kst_scheme) res" where
  "kvmmake s =
     andthen (kalloc s) (\<lambda>(kpgtbl, s).
     let s = s\<lparr>mem := memset (mem s) kpgtbl 0 4096\<rparr>;
         etext = sym_etext (syms s)
     in andthen (kvmmap kpgtbl UART0 UART0 PGSIZE (PTE_R OR PTE_W) s) (\<lambda>s.
        andthen (kvmmap kpgtbl VIRTIO0 VIRTIO0 PGSIZE (PTE_R OR PTE_W) s) (\<lambda>s.
        andthen (kvmmap kpgtbl PLIC PLIC 0x4000000 (PTE_R OR PTE_W) s) (\<lambda>s.
        andthen (kvmmap kpgtbl KERNBASE KERNBASE (etext - KERNBASE) (PTE_R OR PTE_X) s) (\<lambda>s.
        andthen (kvmmap kpgtbl etext etext (PHYSTOP - etext) (PTE_R OR PTE_W) s) (\<lambda>s.
        andthen (kvmmap kpgtbl TRAMPOLINE (sym_trampoline (syms s)) PGSIZE (PTE_R OR PTE_X) s) (\<lambda>s.
        Inr (kpgtbl, s))))))))"

definition kvminit :: "'z kst_scheme \<Rightarrow> 'z kst_scheme res" where
  "kvminit s = andthen (kvmmake s) (\<lambda>(kpgtbl, s). Inr (s\<lparr>kernel_pagetable := kpgtbl\<rparr>))"

definition kvm_switch :: "u64 \<Rightarrow> 'z kst_scheme \<Rightarrow> 'z kst_scheme res" where
  "kvm_switch kpt s =
     (if kpt = 0 then panic ''kvm_switch: null kpt''
      else Inr (s\<lparr>csr := (csr s)\<lparr>satp := MAKE_SATP kpt\<rparr>\<rparr>))"

definition kvminithart :: "'z kst_scheme \<Rightarrow> 'z kst_scheme res" where
  "kvminithart s = kvm_switch (kernel_pagetable s) s"

section \<open>User memory\<close>

definition uvmcreate :: "'z kst_scheme \<Rightarrow> (u64 \<times> 'z kst_scheme) res" where
  "uvmcreate s =
     andthen (kalloc s) (\<lambda>(pt, s).
       if pt = 0 then Inr (0, s)
       else Inr (pt, s\<lparr>mem := memset (mem s) pt 0 4096\<rparr>))"

primrec uvmunmap_loop ::
  "nat \<Rightarrow> u64 \<Rightarrow> u64 \<Rightarrow> u64 \<Rightarrow> bool \<Rightarrow> 'z kst_scheme \<Rightarrow> 'z kst_scheme res" where
  "uvmunmap_loop 0 pt a lim do_free s = (if a < lim then Inl (Block ''uvmunmap'') else Inr s)"
| "uvmunmap_loop (Suc n) pt a lim do_free s =
     (if a < lim
      then andthen (walk pt a False s) (\<lambda>(pte, s).
        if pte = 0 then uvmunmap_loop n pt (a + PGSIZE) lim do_free s
        else if \<not> PTE_is (load64 (mem s) pte) PTE_V
        then uvmunmap_loop n pt (a + PGSIZE) lim do_free (s\<lparr>mem := store64 (mem s) pte 0\<rparr>)
        else if PTE_FLAGS (load64 (mem s) pte) = PTE_V then panic ''uvmunmap: not a leaf''
        else andthen (if do_free then kfree (PTE2PA (load64 (mem s) pte)) s else Inr s) (\<lambda>s.
          uvmunmap_loop n pt (a + PGSIZE) lim do_free (s\<lparr>mem := store64 (mem s) pte 0\<rparr>)))
      else Inr s)"

definition uvmunmap :: "u64 \<Rightarrow> u64 \<Rightarrow> u64 \<Rightarrow> bool \<Rightarrow> 'z kst_scheme \<Rightarrow> 'z kst_scheme res" where
  "uvmunmap pt va npages do_free s =
     (if va mod PGSIZE \<noteq> 0 then panic ''uvmunmap: not aligned''
      else uvmunmap_loop (unat npages) pt va (va + npages * PGSIZE) do_free s)"

text \<open>\<open>npages\<close> of \<open>uvmdealloc\<close> is an \<open>int\<close>: the page count is truncated to 32 bits and
  sign extended when it is passed on.\<close>

definition uvmdealloc :: "u64 \<Rightarrow> u64 \<Rightarrow> u64 \<Rightarrow> 'z kst_scheme \<Rightarrow> (u64 \<times> 'z kst_scheme) res" where
  "uvmdealloc pt oldsz newsz s =
     (if newsz \<ge> oldsz then Inr (oldsz, s)
      else if PGROUNDUP newsz < PGROUNDUP oldsz
      then
        let npages = (ucast ((PGROUNDUP oldsz - PGROUNDUP newsz) div PGSIZE) :: u32)
        in andthen (uvmunmap pt (PGROUNDUP newsz) (scast npages) True s) (\<lambda>s. Inr (newsz, s))
      else Inr (newsz, s))"

primrec uvmalloc_loop ::
  "nat \<Rightarrow> u64 \<Rightarrow> u64 \<Rightarrow> u64 \<Rightarrow> u64 \<Rightarrow> u64 \<Rightarrow> 'z kst_scheme \<Rightarrow> (u64 \<times> 'z kst_scheme) res" where
  "uvmalloc_loop 0 pt a oldsz newsz xperm s =
     (if a < newsz then Inl (Block ''uvmalloc'') else Inr (newsz, s))"
| "uvmalloc_loop (Suc n) pt a oldsz newsz xperm s =
     (if a < newsz
      then andthen (kalloc s) (\<lambda>(pg, s).
        if pg = 0
        then andthen (uvmdealloc pt a oldsz s) (\<lambda>(r, s). Inr (0, s))
        else
          let s = s\<lparr>mem := memset (mem s) pg 0 4096\<rparr>
          in andthen (mappages pt a PGSIZE pg (PTE_R OR PTE_U OR xperm) s) (\<lambda>(r, s).
             if r \<noteq> 0
             then andthen (kfree pg s) (\<lambda>s.
                  andthen (uvmdealloc pt a oldsz s) (\<lambda>(r, s). Inr (0, s)))
             else uvmalloc_loop n pt (a + PGSIZE) oldsz newsz xperm s))
      else Inr (newsz, s))"

definition uvmalloc :: "u64 \<Rightarrow> u64 \<Rightarrow> u64 \<Rightarrow> u64 \<Rightarrow> 'z kst_scheme \<Rightarrow> (u64 \<times> 'z kst_scheme) res" where
  "uvmalloc pt oldsz newsz xperm s =
     (if newsz < oldsz then Inr (oldsz, s)
      else
        let oldsz = PGROUNDUP oldsz
        in uvmalloc_loop (Suc (unat (newsz div PGSIZE))) pt oldsz oldsz newsz xperm s)"

text \<open>\<open>freewalk\<close> recurses into the entries that point to a table; the hardware has three
  levels, \<open>freewalk\<close> of a leaf table meets no such entry. \<open>n\<close> bounds the depth.\<close>

primrec freewalk_loop ::
  "('z kst_scheme \<Rightarrow> u64 \<Rightarrow> 'z kst_scheme res) \<Rightarrow> nat \<Rightarrow> u64 \<Rightarrow> 'z kst_scheme \<Rightarrow> 'z kst_scheme res" where
  "freewalk_loop child 0 pt s = Inr s"
| "freewalk_loop child (Suc k) pt s =
     (let i = 512 - Suc k;
          pte = load64 (mem s) (pt + 8 * of_nat i)
      in if PTE_is pte PTE_V \<and> \<not> PTE_is pte (PTE_R OR PTE_W OR PTE_X)
         then andthen (child s (PTE2PA pte)) (\<lambda>s.
              freewalk_loop child k pt
                (s\<lparr>mem := store64 (mem s) (pt + 8 * of_nat i) 0\<rparr>))
         else if PTE_is pte PTE_V then panic ''freewalk: leaf''
         else freewalk_loop child k pt s)"

primrec freewalk :: "nat \<Rightarrow> 'z kst_scheme \<Rightarrow> u64 \<Rightarrow> 'z kst_scheme res" where
  "freewalk 0 s pt = Inl (Block ''freewalk'')"
| "freewalk (Suc n) s pt =
     andthen (freewalk_loop (freewalk n) 512 pt s) (kfree pt)"

definition uvmfree :: "u64 \<Rightarrow> u64 \<Rightarrow> 'z kst_scheme \<Rightarrow> 'z kst_scheme res" where
  "uvmfree pt bytes s =
     andthen (if bytes > 0 then uvmunmap pt 0 (PGROUNDUP bytes div PGSIZE) True s else Inr s)
       (\<lambda>s. freewalk 3 s pt)"

primrec uvmcopy_loop ::
  "nat \<Rightarrow> u64 \<Rightarrow> u64 \<Rightarrow> u64 \<Rightarrow> u64 \<Rightarrow> 'z kst_scheme \<Rightarrow> (int \<times> 'z kst_scheme) res" where
  "uvmcopy_loop 0 old new i bytes s = (if i < bytes then Inl (Block ''uvmcopy'') else Inr (0, s))"
| "uvmcopy_loop (Suc n) old new i bytes s =
     (if i < bytes
      then andthen (walk old i False s) (\<lambda>(pte, s).
        if pte = 0 then uvmcopy_loop n old new (i + PGSIZE) bytes s
        else if \<not> PTE_is (load64 (mem s) pte) PTE_V then uvmcopy_loop n old new (i + PGSIZE) bytes s
        else
          let pa = PTE2PA (load64 (mem s) pte);
              s = (if PTE_is (load64 (mem s) pte) PTE_W \<or> PTE_is (load64 (mem s) pte) PTE_COW
                   then
                     let s = s\<lparr>mem := store64 (mem s) pte (load64 (mem s) pte AND NOT PTE_W)\<rparr>
                     in s\<lparr>mem := store64 (mem s) pte (load64 (mem s) pte OR PTE_COW)\<rparr>
                   else s);
              flags = PTE_FLAGS (load64 (mem s) pte)
          in andthen (mappages new i PGSIZE pa flags s) (\<lambda>(r, s).
             if r \<noteq> 0
             then andthen (uvmunmap new 0 (i div PGSIZE) True s) (\<lambda>s. Inr (-1, s))
             else andthen (kref_incr pa s) (\<lambda>s. uvmcopy_loop n old new (i + PGSIZE) bytes s)))
      else Inr (0, s))"

definition uvmcopy :: "u64 \<Rightarrow> u64 \<Rightarrow> u64 \<Rightarrow> 'z kst_scheme \<Rightarrow> (int \<times> 'z kst_scheme) res" where
  "uvmcopy old new bytes s = uvmcopy_loop (Suc (unat (bytes div PGSIZE))) old new 0 bytes s"

definition uvmclear :: "u64 \<Rightarrow> u64 \<Rightarrow> 'z kst_scheme \<Rightarrow> 'z kst_scheme res" where
  "uvmclear pt va s =
     andthen (walk pt va False s) (\<lambda>(pte, s).
       if pte = 0 then panic ''uvmclear''
       else Inr (s\<lparr>mem := store64 (mem s) pte (load64 (mem s) pte AND NOT PTE_U)\<rparr>))"

section \<open>Demand allocation\<close>

definition ismapped :: "u64 \<Rightarrow> u64 \<Rightarrow> 'z kst_scheme \<Rightarrow> (bool \<times> 'z kst_scheme) res" where
  "ismapped pt va s =
     andthen (walk pt va False s) (\<lambda>(pte, s).
       Inr (pte \<noteq> 0 \<and> PTE_is (load64 (mem s) pte) PTE_V, s))"

definition vmfault :: "u64 \<Rightarrow> u64 \<Rightarrow> 'z kst_scheme \<Rightarrow> (u64 \<times> 'z kst_scheme) res" where
  "vmfault pt va s =
     andthen (my s) (\<lambda>p.
     if va \<ge> sz (procs s p) then Inr (0, s)
     else
       let va = PGROUNDDOWN va
       in andthen (ismapped pt va s) (\<lambda>(mapped, s).
          if mapped then Inr (0, s)
          else andthen (kalloc s) (\<lambda>(pg, s).
            if pg = 0 then Inr (0, s)
            else
              let s = s\<lparr>mem := memset (mem s) pg 0 4096\<rparr>
              in andthen (mappages (pagetable (procs s p)) va PGSIZE pg
                            (PTE_W OR PTE_U OR PTE_R) s) (\<lambda>(r, s).
                 if r \<noteq> 0 then andthen (kfree pg s) (\<lambda>s. Inr (0, s))
                 else Inr (pg, s)))))"

section \<open>Copying between kernel and user\<close>

primrec copyout_loop ::
  "nat \<Rightarrow> u64 \<Rightarrow> u64 \<Rightarrow> u8 list \<Rightarrow> u64 \<Rightarrow> 'z kst_scheme \<Rightarrow> (int \<times> 'z kst_scheme) res" where
  "copyout_loop 0 pt dstva src len s = (if len > 0 then Inl (Block ''copyout'') else Inr (0, s))"
| "copyout_loop (Suc k) pt dstva src len s =
     (if len > 0
      then
        let va0 = PGROUNDDOWN dstva
        in if va0 \<ge> MAXVA then Inr (-1, s)
           else andthen (walkaddr pt va0 s) (\<lambda>(pa0, s).
                andthen (if pa0 = 0 then vmfault pt va0 s else Inr (pa0, s)) (\<lambda>(pa0, s).
                if pa0 = 0 then Inr (-1, s)
                else andthen (walk pt va0 False s) (\<lambda>(pte, s).
                  if pte = 0 then Inl (Block ''null pte'')
                  else if \<not> PTE_is (load64 (mem s) pte) PTE_W then Inr (-1, s)
                  else
                    let n = PGSIZE - (dstva - va0);
                        n = (if n > len then len else n);
                        s = s\<lparr>mem := put_bytes (mem s) (pa0 + (dstva - va0)) (take (unat n) src)\<rparr>
                    in copyout_loop k pt (va0 + PGSIZE) (drop (unat n) src) (len - n) s)))
      else Inr (0, s))"

definition copyout ::
  "u64 \<Rightarrow> u64 \<Rightarrow> u8 list \<Rightarrow> u64 \<Rightarrow> 'z kst_scheme \<Rightarrow> (int \<times> 'z kst_scheme) res" where
  "copyout pt dstva src len s =
     copyout_loop (unat (len div PGSIZE) + 2) pt dstva src len s"

primrec copyin_loop ::
  "nat \<Rightarrow> u64 \<Rightarrow> u8 list \<Rightarrow> u64 \<Rightarrow> u64 \<Rightarrow> 'z kst_scheme \<Rightarrow> (int \<times> u8 list \<times> 'z kst_scheme) res" where
  "copyin_loop 0 pt dst srcva len s = (if len > 0 then Inl (Block ''copyin'') else Inr (0, dst, s))"
| "copyin_loop (Suc k) pt dst srcva len s =
     (if len > 0
      then
        let va0 = PGROUNDDOWN srcva
        in andthen (walkaddr pt va0 s) (\<lambda>(pa0, s).
           andthen (if pa0 = 0 then vmfault pt va0 s else Inr (pa0, s)) (\<lambda>(pa0, s).
           if pa0 = 0 then Inr (-1, dst, s)
           else
             let n = PGSIZE - (srcva - va0);
                 n = (if n > len then len else n)
             in copyin_loop k pt (dst @ get_bytes (mem s) (pa0 + (srcva - va0)) (unat n))
                  (va0 + PGSIZE) (len - n) s))
      else Inr (0, dst, s))"

definition copyin ::
  "u64 \<Rightarrow> u64 \<Rightarrow> u64 \<Rightarrow> 'z kst_scheme \<Rightarrow> (int \<times> u8 list \<times> 'z kst_scheme) res" where
  "copyin pt srcva len s = copyin_loop (unat (len div PGSIZE) + 2) pt [] srcva len s"

text \<open>The inner loop of \<open>copyinstr\<close>: at most \<open>n\<close> bytes from \<open>p\<close>, up to a nul; the
  flag says whether the nul was met.\<close>

primrec copystr_page :: "memory \<Rightarrow> u64 \<Rightarrow> nat \<Rightarrow> u8 list \<Rightarrow> bool \<times> u8 list" where
  "copystr_page m p 0 dst = (False, dst)"
| "copystr_page m p (Suc n) dst =
     (if m p = 0 then (True, dst @ [0]) else copystr_page m (p + 1) n (dst @ [m p]))"

primrec copyinstr_loop ::
  "nat \<Rightarrow> u64 \<Rightarrow> u8 list \<Rightarrow> u64 \<Rightarrow> u64 \<Rightarrow> 'z kst_scheme \<Rightarrow> (int \<times> u8 list \<times> 'z kst_scheme) res" where
  "copyinstr_loop 0 pt dst srcva mx s =
     (if mx > 0 then Inl (Block ''copyinstr'') else Inr (-1, dst, s))"
| "copyinstr_loop (Suc k) pt dst srcva mx s =
     (if mx > 0
      then
        let va0 = PGROUNDDOWN srcva
        in andthen (walkaddr pt va0 s) (\<lambda>(pa0, s).
           if pa0 = 0 then Inr (-1, dst, s)
           else
             let n = PGSIZE - (srcva - va0);
                 n = (if n > mx then mx else n);
                 (got_null, dst) = copystr_page (mem s) (pa0 + (srcva - va0)) (unat n) dst
             in if got_null then Inr (0, dst, s)
                else copyinstr_loop k pt dst (va0 + PGSIZE) (mx - n) s)
      else Inr (-1, dst, s))"

definition copyinstr ::
  "u64 \<Rightarrow> u64 \<Rightarrow> u64 \<Rightarrow> 'z kst_scheme \<Rightarrow> (int \<times> u8 list \<times> 'z kst_scheme) res" where
  "copyinstr pt srcva mx s = copyinstr_loop (unat (mx div PGSIZE) + 2) pt [] srcva mx s"

section \<open>Per-process kernel page tables and copy-on-write\<close>

definition uvmmap ::
  "u64 \<Rightarrow> u64 \<Rightarrow> u64 \<Rightarrow> u64 \<Rightarrow> u64 \<Rightarrow> 'z kst_scheme \<Rightarrow> 'z kst_scheme res" where
  "uvmmap pt va pa bytes perm s =
     andthen (mappages pt va bytes pa perm s) (\<lambda>(r, s).
       if r \<noteq> 0 then panic ''uvmmap'' else Inr s)"

definition proc_kpagetable :: "'z kst_scheme \<Rightarrow> (u64 \<times> 'z kst_scheme) res" where
  "proc_kpagetable s =
     andthen (uvmcreate s) (\<lambda>(kpt, s).
     if kpt = 0 then Inr (0, s)
     else
       let etext = sym_etext (syms s)
       in andthen (uvmmap kpt UART0 UART0 PGSIZE (PTE_R OR PTE_W) s) (\<lambda>s.
          andthen (uvmmap kpt VIRTIO0 VIRTIO0 PGSIZE (PTE_R OR PTE_W) s) (\<lambda>s.
          andthen (uvmmap kpt PLIC PLIC 0x4000000 (PTE_R OR PTE_W) s) (\<lambda>s.
          andthen (uvmmap kpt KERNBASE KERNBASE (etext - KERNBASE) (PTE_R OR PTE_X) s) (\<lambda>s.
          andthen (uvmmap kpt etext etext (PHYSTOP - etext) (PTE_R OR PTE_W) s) (\<lambda>s.
          andthen (uvmmap kpt TRAMPOLINE (sym_trampoline (syms s)) PGSIZE (PTE_R OR PTE_X) s) (\<lambda>s.
          Inr (kpt, s))))))))"

definition proc_free_kpagetable :: "u64 \<Rightarrow> u64 \<Rightarrow> 'z kst_scheme \<Rightarrow> 'z kst_scheme res" where
  "proc_free_kpagetable kpt kstk s =
     (let etext = sym_etext (syms s)
      in andthen (uvmunmap kpt kstk 1 True s) (\<lambda>s.
         andthen (uvmunmap kpt UART0 1 False s) (\<lambda>s.
         andthen (uvmunmap kpt VIRTIO0 1 False s) (\<lambda>s.
         andthen (uvmunmap kpt PLIC (0x4000000 div PGSIZE) False s) (\<lambda>s.
         andthen (uvmunmap kpt KERNBASE ((etext - KERNBASE) div PGSIZE) False s) (\<lambda>s.
         andthen (uvmunmap kpt etext ((PHYSTOP - etext) div PGSIZE) False s) (\<lambda>s.
         andthen (uvmunmap kpt TRAMPOLINE 1 False s) (\<lambda>s.
         uvmfree kpt 0 s))))))))"

definition cow_handler :: "u64 \<Rightarrow> u64 \<Rightarrow> 'z kst_scheme \<Rightarrow> (int \<times> 'z kst_scheme) res" where
  "cow_handler pt va s =
     (let va = PGROUNDDOWN va
      in if va \<ge> MAXVA then Inr (-1, s)
         else andthen (walk pt va False s) (\<lambda>(pte, s).
           if pte = 0 then Inr (-1, s)
           else if \<not> PTE_is (load64 (mem s) pte) PTE_V \<or> \<not> PTE_is (load64 (mem s) pte) PTE_COW
           then Inr (-1, s)
           else
             let pa_old = PTE2PA (load64 (mem s) pte)
             in andthen (kalloc s) (\<lambda>(pg, s).
                if pg = 0 then Inr (-1, s)
                else
                  let s = s\<lparr>mem := memmove (mem s) pg pa_old 4096\<rparr>;
                      flags = PTE_FLAGS (load64 (mem s) pte);
                      flags = flags OR PTE_W;
                      flags = flags AND NOT PTE_COW;
                      s = s\<lparr>mem := store64 (mem s) pte (PA2PTE pg OR flags)\<rparr>
                  in andthen (kfree pa_old s) (\<lambda>s. Inr (0, s)))))"

end
