(* ===== verification/Pagetable.thy ===== *)
theory Pagetable
  imports Vm
begin

unbundle bit_operations_syntax

text \<open>
  The page table as an abstract map. \<open>pt_at m r va d\<close> is the table page that the walk for
  \<open>va\<close> reaches at depth \<open>d\<close> below the root \<open>r\<close>, \<open>pte_of m r va\<close> the leaf entry (0
  when there is none) and \<open>foot m r\<close> the set of table pages. A tree is well formed when
  no page is used twice in it. The lemmas show what a store to a leaf entry, a new table
  page and a change elsewhere do to the map, and then what \<open>walk\<close>, \<open>mappages\<close>,
  \<open>uvmunmap\<close> and \<open>freewalk\<close> do.
\<close>

section \<open>Entries\<close>

lemmas u64_eq_iff = bit_eq_iff [where ?'a = "64 word"]

lemma PTE_is_push_bit: "k < 64 \<Longrightarrow> PTE_is x (push_bit k 1) \<longleftrightarrow> bit x k"
  by (auto simp: PTE_is_def u64_eq_iff bit_simps)

lemma PTE_is_bits [simp]:
  "PTE_is x PTE_V \<longleftrightarrow> bit x 0" "PTE_is x PTE_R \<longleftrightarrow> bit x 1" "PTE_is x PTE_W \<longleftrightarrow> bit x 2"
  "PTE_is x PTE_X \<longleftrightarrow> bit x 3" "PTE_is x PTE_U \<longleftrightarrow> bit x 4" "PTE_is x PTE_COW \<longleftrightarrow> bit x 8"
  unfolding PTE_V_def PTE_R_def PTE_W_def PTE_X_def PTE_U_def PTE_COW_def
  by (simp_all only: PTE_is_push_bit)

lemma bit_push_bit_one: "k < 64 \<Longrightarrow> bit (push_bit k 1 :: u64) i \<longleftrightarrow> i = k"
  by (auto simp: bit_simps)

lemma bit_PTE [simp]:
  "bit PTE_V i \<longleftrightarrow> i = 0" "bit PTE_R i \<longleftrightarrow> i = 1" "bit PTE_W i \<longleftrightarrow> i = 2"
  "bit PTE_X i \<longleftrightarrow> i = 3" "bit PTE_U i \<longleftrightarrow> i = 4" "bit PTE_COW i \<longleftrightarrow> i = 8"
  unfolding PTE_V_def PTE_R_def PTE_W_def PTE_X_def PTE_U_def PTE_COW_def
  by (simp_all only: bit_push_bit_one)

definition flags_ok :: "u64 \<Rightarrow> bool" where
  "flags_ok f \<longleftrightarrow> take_bit 10 f = f"

lemma flags_okD: "flags_ok f \<Longrightarrow> bit f i \<Longrightarrow> i < 10"
  by (metis bit_take_bit_iff flags_ok_def)

lemma bit_PTE_FLAGS: "bit (PTE_FLAGS x) i \<longleftrightarrow> bit x i \<and> i < 10"
proof -
  have "PTE_FLAGS x = take_bit 10 x"
    by (simp add: PTE_FLAGS_def take_bit_eq_mask mask_eq_exp_minus_1)
  then show ?thesis by (auto simp: bit_simps)
qed

lemma flags_ok_intros [simp, intro]:
  "flags_ok PTE_V" "flags_ok PTE_R" "flags_ok PTE_W" "flags_ok PTE_X" "flags_ok PTE_U" "flags_ok PTE_COW"
  "flags_ok f \<Longrightarrow> flags_ok g \<Longrightarrow> flags_ok (f OR g)" "flags_ok f \<Longrightarrow> flags_ok (f AND g)"
  "flags_ok (PTE_FLAGS x)"
  by (auto simp: flags_ok_def u64_eq_iff bit_simps bit_PTE_FLAGS)

lemma bit_PA2PTE: "bit (PA2PTE pa) i \<longleftrightarrow> 10 \<le> i \<and> i < 64 \<and> bit pa (i + 2)"
  by (auto simp: PA2PTE_def bit_simps dest: bit_imp_le_length)

lemma bit_PTE2PA: "bit (PTE2PA e) i \<longleftrightarrow> 12 \<le> i \<and> i < 64 \<and> bit e (i - 2)"
  by (auto simp: PTE2PA_def bit_simps dest: bit_imp_le_length)

lemma page_aligned_bitD: "page_aligned p \<Longrightarrow> bit p i \<Longrightarrow> 12 \<le> i"
  by (metis page_aligned_iff bit_align_down)

lemma page_aligned_PTE2PA [simp]: "page_aligned (PTE2PA e)"
  unfolding page_aligned_iff by (rule bit_word_eqI) (auto simp: bit_simps bit_PTE2PA)

lemma PTE2PA_PA2PTE:
  assumes "page_aligned pa" "flags_ok f"
  shows "PTE2PA (PA2PTE pa OR f) = pa"
proof (rule bit_word_eqI)
  fix i assume i: "i < LENGTH(64)"
  have "bit f (i - 2) \<Longrightarrow> 12 \<le> i \<Longrightarrow> False" using flags_okD [OF assms(2), of "i - 2"] by simp
  moreover have "bit pa i \<Longrightarrow> 12 \<le> i" using page_aligned_bitD [OF assms(1)] by blast
  moreover have "12 \<le> i \<Longrightarrow> i - 2 + 2 = i" by simp
  ultimately show "bit (PTE2PA (PA2PTE pa OR f)) i = bit pa i"
    using i by (auto simp: bit_PTE2PA bit_PA2PTE bit_simps)
qed

lemma PTE_FLAGS_PA2PTE: "flags_ok f \<Longrightarrow> PTE_FLAGS (PA2PTE pa OR f) = f"
  by (rule bit_word_eqI) (auto simp: bit_PTE_FLAGS bit_PA2PTE bit_simps dest: flags_okD)

lemma bit_PA2PTE_low: "i < 10 \<Longrightarrow> bit (PA2PTE pa OR f) i = bit f i"
  by (auto simp: bit_simps bit_PA2PTE)

text \<open>A present entry is determined by its address and flags; \<open>PTE2PA\<close> ignores bits above 61.\<close>

lemma PTE2PA_cong: "(\<And>i. 10 \<le> i \<Longrightarrow> i < 62 \<Longrightarrow> bit e i = bit e' i) \<Longrightarrow> PTE2PA e = PTE2PA e'"
  by (rule bit_word_eqI) (auto simp: bit_PTE2PA)

lemma unat_PX: "unat (PX l va) < 512"
proof -
  have "PX l va = take_bit 9 (drop_bit (PXSHIFT l) va)"
    by (simp add: PX_def PXMASK_def take_bit_eq_mask mask_eq_exp_minus_1)
  then show ?thesis using unat_take_bit_less [of 9 "drop_bit (PXSHIFT l) va"] by simp
qed

definition slot :: "u64 \<Rightarrow> u64 \<Rightarrow> u64" where
  "slot p i = p + 8 * i"

lemma entry_slot: "entry p l va = slot p (PX l va)"
  by (simp add: entry_def slot_def)

lemma unat_8_mult: "unat i < 512 \<Longrightarrow> unat (8 * i :: u64) = 8 * unat i"
  by (simp add: unat_word_ariths)

lemma slot_page [simp]: "page_aligned p \<Longrightarrow> unat i < 512 \<Longrightarrow> align_down 12 (slot p i) = p"
  unfolding slot_def page_aligned_iff by (rule align_down_add_offset) (simp_all add: unat_8_mult)

lemma align3_dvd: "align_down 3 a = a \<longleftrightarrow> 8 dvd unat a"
proof -
  have "align_down 3 a = a \<longleftrightarrow> take_bit 3 a = 0" by (simp add: take_bit_zero_iff_align_down)
  also have "\<dots> \<longleftrightarrow> unat a mod 8 = 0"
    by (simp add: take_bit_eq_mod unat_mod_distrib flip: unat_eq_0)
  finally show ?thesis by (simp add: dvd_eq_mod_eq_0)
qed

lemma slot_align3 [simp]:
  assumes "page_aligned p"
  shows "align_down 3 (slot p i) = slot p i"
proof -
  have "8 dvd unat p" using page_aligned_align3 [OF assms] by (simp add: align3_dvd)
  moreover have "8 dvd unat (8 * i)" by (simp add: unat_word_ariths dvd_mod)
  ultimately show ?thesis
    unfolding align3_dvd slot_def by (simp add: unat_word_ariths dvd_mod)
qed

lemma slot_inj:
  assumes "page_aligned p" "page_aligned q" "unat i < 512" "unat j < 512"
  shows "slot p i = slot q j \<longleftrightarrow> p = q \<and> i = j"
proof
  assume e: "slot p i = slot q j"
  then have "p = q" using slot_page [of p i] slot_page [of q j] assms by metis
  moreover have "8 * i = 8 * j" using e \<open>p = q\<close> by (simp add: slot_def)
  then have "unat (8 * i) = unat (8 * j)" by simp
  then have "i = j" using assms(3,4) by (simp only: unat_8_mult) (simp add: word_unat_eq_iff)
  ultimately show "p = q \<and> i = j" by simp
qed simp

lemmas slot_entry_facts = slot_page [OF _ unat_PX] slot_align3 slot_inj [OF _ _ unat_PX unat_PX]

lemma load64_page_cong:
  assumes "align_down 3 q = q" "\<And>a. align_down 12 a = align_down 12 q \<Longrightarrow> m a = m' a"
  shows "load64 m q = load64 m' q"
  using assms by (intro load64_cong) (auto dest: align_down_12_3)

lemma slot_nonzero: "page_aligned p \<Longrightarrow> p \<noteq> 0 \<Longrightarrow> unat i < 512 \<Longrightarrow> slot p i \<noteq> 0"
  using slot_page [of p i] by (auto simp: align_down_def)

section \<open>The tree\<close>

primrec pt_at :: "memory \<Rightarrow> u64 \<Rightarrow> u64 \<Rightarrow> nat \<Rightarrow> u64 option" where
  "pt_at m r va 0 = Some r"
| "pt_at m r va (Suc d) =
     (case pt_at m r va d of None \<Rightarrow> None
      | Some p \<Rightarrow>
          let e = load64 m (entry p (2 - d) va)
          in if PTE_is e PTE_V then Some (PTE2PA e) else None)"

definition pte_of :: "memory \<Rightarrow> u64 \<Rightarrow> u64 \<Rightarrow> u64" where
  "pte_of m r va = (case pt_at m r va 2 of None \<Rightarrow> 0 | Some p \<Rightarrow> load64 m (entry p 0 va))"

definition foot :: "memory \<Rightarrow> u64 \<Rightarrow> u64 set" where
  "foot m r = {p. \<exists>va d. d \<le> 2 \<and> pt_at m r va d = Some p}"

text \<open>Two addresses take the same way down to depth \<open>d\<close>.\<close>

definition same_path :: "nat \<Rightarrow> u64 \<Rightarrow> u64 \<Rightarrow> bool" where
  "same_path d va vb \<longleftrightarrow> (\<forall>j < d. PX (2 - j) va = PX (2 - j) vb)"

definition wf_tree :: "memory \<Rightarrow> u64 \<Rightarrow> bool" where
  "wf_tree m r \<longleftrightarrow>
     page_aligned r \<and> r \<noteq> 0 \<and>
     (\<forall>va vb d e p. d \<le> 2 \<longrightarrow> e \<le> 2 \<longrightarrow> pt_at m r va d = Some p \<longrightarrow> pt_at m r vb e = Some p \<longrightarrow>
        d = e \<and> same_path d va vb) \<and>
     (\<forall>va d p. d \<le> 2 \<longrightarrow> pt_at m r va d = Some p \<longrightarrow> p \<noteq> 0)"

lemma pt_at_aligned: "page_aligned r \<Longrightarrow> pt_at m r va d = Some p \<Longrightarrow> page_aligned p"
  by (cases d) (auto simp: Let_def split: option.splits if_splits)

lemma wf_treeD:
  assumes "wf_tree m r" "pt_at m r va d = Some p" "d \<le> 2"
  shows "page_aligned p" "p \<noteq> 0"
    "e \<le> 2 \<Longrightarrow> pt_at m r vb e = Some p \<Longrightarrow> d = e" "pt_at m r vb d = Some p \<Longrightarrow> same_path d va vb"
  using assms pt_at_aligned [of r m va d p] unfolding wf_tree_def by blast+

lemma pt_at_foot: "pt_at m r va d = Some p \<Longrightarrow> d \<le> 2 \<Longrightarrow> p \<in> foot m r"
  by (auto simp: foot_def)

lemma root_foot [simp]: "r \<in> foot m r"
  using pt_at_foot [of m r 0 0 r] by simp

lemma same_path_refl [simp]: "same_path d va va"
  by (simp add: same_path_def)

lemma same_path_Suc: "same_path (Suc d) va vb \<longleftrightarrow> same_path d va vb \<and> PX (2 - d) va = PX (2 - d) vb"
  by (auto simp: same_path_def less_Suc_eq)

lemma same_path_sym: "same_path d va vb \<longleftrightarrow> same_path d vb va"
  by (auto simp: same_path_def)

lemma same_path_mono: "same_path d va vb \<Longrightarrow> e \<le> d \<Longrightarrow> same_path e va vb"
  by (auto simp: same_path_def)

lemma pt_at_same_path: "same_path d va vb \<Longrightarrow> pt_at m r va d = pt_at m r vb d"
  by (induction d) (auto simp: same_path_Suc entry_def split: option.splits)

lemma pt_at_prefix: "pt_at m r va (Suc d) \<noteq> None \<Longrightarrow> pt_at m r va d \<noteq> None"
  by (auto split: option.splits)

section \<open>Changes outside the tree\<close>

lemma pt_at_frame:
  assumes "page_aligned r" "\<And>p a. p \<in> foot m r \<Longrightarrow> align_down 12 a = p \<Longrightarrow> m' a = m a" "d \<le> 2"
  shows "pt_at m' r va d = pt_at m r va d"
  using assms(3)
proof (induction d)
  case (Suc d)
  have "load64 m' (entry p (2 - d) va) = load64 m (entry p (2 - d) va)" if p: "pt_at m r va d = Some p" for p
  proof (rule load64_page_cong)
    have "page_aligned p" by (rule pt_at_aligned [OF assms(1) p])
    then show "align_down 3 (entry p (2 - d) va) = entry p (2 - d) va"
      by (simp add: entry_slot slot_entry_facts)
    show "m' a = m a" if "align_down 12 a = align_down 12 (entry p (2 - d) va)" for a
      using that p Suc.prems \<open>page_aligned p\<close>
      by (intro assms(2) [of p] pt_at_foot [of _ _ va d]) (simp_all add: entry_slot slot_entry_facts)
  qed
  then show ?case using Suc by (auto split: option.splits)
qed simp

lemma foot_frame:
  assumes "page_aligned r" "\<And>p a. p \<in> foot m r \<Longrightarrow> align_down 12 a = p \<Longrightarrow> m' a = m a"
  shows "foot m' r = foot m r" "pte_of m' r va = pte_of m r va" "wf_tree m r \<Longrightarrow> wf_tree m' r"
proof -
  have e: "d \<le> 2 \<Longrightarrow> pt_at m' r va d = pt_at m r va d" for d va
    by (rule pt_at_frame [OF assms])
  show "foot m' r = foot m r" by (simp add: foot_def e cong: conj_cong)
  show "wf_tree m' r" if "wf_tree m r" using that unfolding wf_tree_def by (simp add: e)
  have "load64 m' (entry p 0 va) = load64 m (entry p 0 va)" if p: "pt_at m r va 2 = Some p" for p
    using pt_at_aligned [OF assms(1) p] pt_at_foot [OF p] assms(2) [of p]
    by (intro load64_page_cong) (simp_all add: entry_slot slot_entry_facts)
  then show "pte_of m' r va = pte_of m r va" by (auto simp: pte_of_def e split: option.splits)
qed

section \<open>Stores to a leaf entry\<close>

text \<open>The page numbers that Sv39 translates alike.\<close>

definition same_page :: "u64 \<Rightarrow> u64 \<Rightarrow> bool" where
  "same_page va vb \<longleftrightarrow> same_path 3 va vb"

lemma same_page_alt: "same_page va vb \<longleftrightarrow> same_path 2 va vb \<and> PX 0 va = PX 0 vb"
  unfolding same_page_def using same_path_Suc [of 2 va vb] by (simp add: numeral_3_eq_3 numeral_2_eq_2)

lemma leaf_store_pt_at:
  assumes wf: "wf_tree m r" and p: "pt_at m r va 2 = Some p" and d: "d \<le> 2"
  shows "pt_at (store64 m (entry p 0 va) v) r vb d = pt_at m r vb d"
  using d
proof (induction d)
  case (Suc d)
  let ?m = "store64 m (entry p 0 va) v"
  have "load64 ?m (entry q (2 - d) vb) = load64 m (entry q (2 - d) vb)" if q: "pt_at m r vb d = Some q" for q
  proof -
    have "q \<noteq> p" using wf_treeD(3) [OF wf p, of d vb] q Suc.prems by auto
    moreover have "page_aligned q" "page_aligned p"
      using wf_treeD(1) [OF wf q] wf_treeD(1) [OF wf p] Suc.prems by simp_all
    ultimately show ?thesis
      by (simp add: entry_slot load64_store64_other slot_entry_facts)
  qed
  then show ?case using Suc by (auto split: option.splits)
qed simp

lemma leaf_store:
  assumes wf: "wf_tree m r" and p: "pt_at m r va 2 = Some p"
  shows "wf_tree (store64 m (entry p 0 va) v) r" "foot (store64 m (entry p 0 va) v) r = foot m r"
    "pte_of (store64 m (entry p 0 va) v) r vb = (if same_page va vb then v else pte_of m r vb)"
proof -
  let ?m = "store64 m (entry p 0 va) v"
  have e: "d \<le> 2 \<Longrightarrow> pt_at ?m r vb d = pt_at m r vb d" for d vb by (rule leaf_store_pt_at [OF assms])
  show "wf_tree ?m r" using wf unfolding wf_tree_def by (simp add: e)
  show "foot ?m r = foot m r" by (simp add: foot_def e cong: conj_cong)
  show "pte_of ?m r vb = (if same_page va vb then v else pte_of m r vb)"
  proof (cases "pt_at m r vb 2")
    case None
    then have "\<not> same_page va vb" using p pt_at_same_path [of 2 va vb m r] by (auto simp: same_page_alt)
    then show ?thesis using None by (simp add: pte_of_def e)
  next
    case (Some q)
    have al: "page_aligned q" "page_aligned p" using wf_treeD(1) [OF wf Some] wf_treeD(1) [OF wf p] by simp_all
    have lp: "pte_of ?m r vb = load64 ?m (entry q 0 vb)" "pte_of m r vb = load64 m (entry q 0 vb)"
      by (simp_all add: pte_of_def e Some)
    show ?thesis
    proof (cases "q = p")
      case True
      then have "same_path 2 va vb" using wf_treeD(4) [OF wf p, of vb] Some by simp
      then show ?thesis using True al unfolding lp
        by (auto simp: same_page_alt entry_slot load64_store64_other slot_entry_facts)
    next
      case False
      then have "\<not> same_page va vb" using p Some pt_at_same_path [of 2 va vb m r] by (auto simp: same_page_alt)
      then show ?thesis using False al unfolding lp
        by (simp add: entry_slot load64_store64_other slot_entry_facts)
    qed
  qed
qed

section \<open>A new table page\<close>

definition grow :: "memory \<Rightarrow> u64 \<Rightarrow> u64 \<Rightarrow> memory" where
  "grow m pte n = store64 (fill m n 0 4096) pte (PA2PTE n OR PTE_V)"

lemma load64_grow:
  assumes "page_aligned p" "page_aligned n" "page_aligned q" "p \<noteq> n" "unat i < 512" "unat j < 512"
  shows "load64 (grow m (slot p i) n) (slot q j) =
    (if q = p \<and> j = i then PA2PTE n OR PTE_V else if q = n then 0 else load64 m (slot q j))"
proof (cases "slot q j = slot p i")
  case True
  then show ?thesis using slot_inj [OF assms(3,1,6,5)] by (simp add: grow_def)
next
  case False
  then have "\<not> (q = p \<and> j = i)" by auto
  moreover have "load64 (grow m (slot p i) n) (slot q j) = load64 (fill m n 0 4096) (slot q j)"
    using False assms(1,3) by (simp add: grow_def load64_store64_other)
  moreover have "load64 (fill m n 0 4096) (slot q j) = (if q = n then 0 else load64 m (slot q j))"
    using assms by (simp add: load64_fill_zero load64_fill_other)
  ultimately show ?thesis by (simp only: if_False)
qed

lemma pt_at_grow:
  assumes wf: "wf_tree m r" and p: "pt_at m r va d = Some p" and d: "d < 2"
    and n: "page_aligned n" "n \<notin> foot m r" and e: "e \<le> 2"
  shows "pt_at (grow m (entry p (2 - d) va) n) r vb e =
    (if e \<le> d \<or> \<not> same_path (Suc d) va vb then pt_at m r vb e
     else if e = Suc d then Some n else None)"
  using e
proof (induction e)
  case (Suc e)
  let ?m = "grow m (entry p (2 - d) va) n"
  have al: "page_aligned p" using wf_treeD(1) [OF wf p] d by simp
  have "p \<noteq> n" using pt_at_foot [OF p] d n(2) by auto
  note ld = load64_grow [OF al n(1) _ this unat_PX unat_PX]
  consider (new) "d < e" "same_path (Suc d) va vb" | (here) "e = d" "same_path (Suc d) va vb"
    | (other) "e < d \<or> \<not> same_path (Suc d) va vb" by linarith
  then show ?case
  proof cases
    case new
    then have "e = Suc d" using Suc.prems by simp
    then show ?thesis using Suc new by (simp add: entry_slot ld [OF n(1)] \<open>p \<noteq> n\<close> [symmetric])
  next
    case here
    then have "pt_at m r vb d = Some p" using p pt_at_same_path [of d va vb m r] by (simp add: same_path_Suc)
    moreover have "bit (PA2PTE n OR PTE_V) 0" by (simp add: bit_PA2PTE_low)
    ultimately show ?thesis using Suc here n(1)
      by (simp add: entry_slot same_path_Suc ld [OF al] PTE2PA_PA2PTE Let_def)
  next
    case other
    then have eq: "pt_at ?m r vb e = pt_at m r vb e" using Suc by auto
    show ?thesis
    proof (cases "pt_at m r vb e")
      case None
      then show ?thesis using eq other by auto
    next
      case (Some q)
      have q: "q \<noteq> n" "page_aligned q"
        using pt_at_foot [OF Some] wf_treeD(1) [OF wf Some] Suc.prems n(2) by auto
      have "\<not> (q = p \<and> PX (2 - e) vb = PX (2 - d) va)"
      proof
        assume a: "q = p \<and> PX (2 - e) vb = PX (2 - d) va"
        then have "d = e" using wf_treeD(3) [OF wf p, of e vb] Some Suc.prems d by simp
        moreover then have "same_path d va vb" using wf_treeD(4) [OF wf p, of vb] Some a d by simp
        ultimately show False using a other by (simp add: same_path_Suc)
      qed
      then have "load64 ?m (entry q (2 - e) vb) = load64 m (entry q (2 - e) vb)"
        using q(1) unfolding entry_slot ld [OF q(2)] by auto
      then show ?thesis using eq Some other by (auto simp: Let_def)
    qed
  qed
qed simp

lemma pt_at_None_mono: "pt_at m r va d = None \<Longrightarrow> d \<le> e \<Longrightarrow> pt_at m r va e = None"
  by (induction e) (auto simp: le_Suc_eq)

lemma grow_tree:
  assumes wf: "wf_tree m r" and p: "pt_at m r va d = Some p" and d: "d < 2"
    and n: "page_aligned n" "n \<noteq> 0" "n \<notin> foot m r"
    and inv: "\<not> PTE_is (load64 m (entry p (2 - d) va)) PTE_V"
  defines "m' \<equiv> grow m (entry p (2 - d) va) n"
  shows "wf_tree m' r" "foot m' r = insert n (foot m r)" "pte_of m' r vb = pte_of m r vb"
    "pt_at m' r va (Suc d) = Some n"
proof -
  have e: "k \<le> 2 \<Longrightarrow> pt_at m' r vb k = (if k \<le> d \<or> \<not> same_path (Suc d) va vb then pt_at m r vb k
     else if k = Suc d then Some n else None)" for vb k
    unfolding m'_def by (rule pt_at_grow [OF wf p d n(1,3)])
  have dead: "pt_at m r vb k = None" if s: "same_path (Suc d) va vb" and k: "d < k" for vb k
  proof -
    have "pt_at m r vb d = Some p" using p pt_at_same_path [of d va vb m r] s by (simp add: same_path_Suc)
    then have "pt_at m r vb (Suc d) = None" using inv s by (simp add: same_path_Suc entry_def Let_def)
    then show ?thesis by (rule pt_at_None_mono) (use k in simp)
  qed
  have nf: "k \<le> 2 \<Longrightarrow> pt_at m r vb k \<noteq> Some n" for vb k using n(3) by (auto simp: foot_def)
  have iff: "pt_at m' r vb k = Some q \<longleftrightarrow>
     pt_at m r vb k = Some q \<or> q = n \<and> k = Suc d \<and> same_path (Suc d) va vb" if "k \<le> 2" for vb k q
    using that by (auto simp: e dead)
  show new: "pt_at m' r va (Suc d) = Some n" using e [of "Suc d" va] d by simp
  show "foot m' r = insert n (foot m r)"
  proof (intro set_eqI iffI)
    fix q assume "q \<in> foot m' r"
    then obtain vb k where "k \<le> 2" "pt_at m' r vb k = Some q" by (auto simp: foot_def)
    then show "q \<in> insert n (foot m r)" using iff [of k vb q] pt_at_foot [of m r vb k q] by blast
  next
    fix q assume "q \<in> insert n (foot m r)"
    then consider "q = n" | vb k where "k \<le> 2" "pt_at m r vb k = Some q" by (auto simp: foot_def)
    then show "q \<in> foot m' r"
    proof cases
      case 1
      then show ?thesis using pt_at_foot [OF new] d by simp
    next
      case 2
      then show ?thesis using iff [of k vb q] pt_at_foot [of m' r vb k q] by blast
    qed
  qed
  have sp: "same_path k vb vc" if "same_path k va vb" "same_path k va vc" for k vb vc
    using that by (auto simp: same_path_def)
  show "wf_tree m' r"
    using wf n(2) nf sp unfolding wf_tree_def by (simp add: iff)
  show "pte_of m' r vb = pte_of m r vb"
  proof (cases "same_path (Suc d) va vb")
    case True
    then have "pt_at m r vb 2 = None" using dead d by simp
    moreover have "load64 m' (entry n 0 vb) = 0" if "d = 1"
      using that load64_grow [OF wf_treeD(1) [OF wf p] n(1,1) _ unat_PX unat_PX, of m 1 va 0 vb] pt_at_foot [OF p] d n(3)
      by (auto simp: m'_def entry_slot)
    ultimately show ?thesis using e [of 2 vb] True d by (auto simp: pte_of_def)
  next
    case False
    have "load64 m' (entry q 0 vb) = load64 m (entry q 0 vb)" if q: "pt_at m r vb 2 = Some q" for q
    proof -
      have "q \<noteq> p" using wf_treeD(3) [OF wf p, of 2 vb] q d by auto
      moreover have "q \<noteq> n" "p \<noteq> n" using nf [of 2 vb] nf [of d va] q p d by auto
      ultimately show ?thesis
        using load64_grow [OF wf_treeD(1) [OF wf p] n(1) wf_treeD(1) [OF wf q] _ unat_PX unat_PX] d
        by (simp add: m'_def entry_slot)
    qed
    then show ?thesis using e [of 2 vb] False d by (auto simp: pte_of_def split: option.splits)
  qed
qed

section \<open>Footprints of kernel operations on memory\<close>

text \<open>\<open>mem_step s s'\<close>: only memory, free list and counts differ. \<open>touches X s s'\<close>: in
  addition bytes change only in the pages of \<open>X\<close> and in pages that were free, and a
  page outside \<open>X\<close> that was held is still held.\<close>

definition mem_step :: "'z kst_scheme \<Rightarrow> 'z kst_scheme \<Rightarrow> bool" where
  "mem_step s s' \<longleftrightarrow> (\<exists>m f k. s' = s\<lparr>mem := m, freelist := f, kref := k\<rparr>)"

lemma mem_update_simps [simp]:
  "managed (s\<lparr>mem := m\<rparr>) q = managed s q" "rc (s\<lparr>mem := m\<rparr>) q = rc s q"
  "kmem_unlocked (s\<lparr>mem := m\<rparr>) = kmem_unlocked s"
  by (simp_all add: managed_def rc_def kmem_unlocked_def)

definition free_pg :: "'z kst_scheme \<Rightarrow> u64 \<Rightarrow> bool" where
  "free_pg s p \<longleftrightarrow> managed s p \<and> rc s p = 0"

definition touches :: "u64 set \<Rightarrow> 'z kst_scheme \<Rightarrow> 'z kst_scheme \<Rightarrow> bool" where
  "touches X s s' \<longleftrightarrow>
     mem_step s s' \<and> (\<forall>q. managed s q \<longrightarrow> q \<notin> X \<longrightarrow> 0 < rc s q \<longrightarrow> 0 < rc s' q) \<and>
     (\<forall>a. align_down 12 a \<notin> X \<longrightarrow> \<not> free_pg s (align_down 12 a) \<longrightarrow> mem s' a = mem s a)"

lemma mem_step_sel:
  assumes "mem_step s s'"
  shows "held s' = held s" "ien s' = ien s" "hart s' = hart s" "cur s' = cur s" "csr s' = csr s"
    "syms s' = syms s" "kernel_pagetable s' = kernel_pagetable s" "procs s' = procs s"
    "nextpid s' = nextpid s" "initproc s' = initproc s" "ticks s' = ticks s" "out s' = out s"
    "stride_faults s' = stride_faults s" "shared_pte s' = shared_pte s" "kst.more s' = kst.more s"
  using assms by (auto simp: mem_step_def)

lemma mem_stepI: "s' = s\<lparr>mem := m, freelist := f, kref := k\<rparr> \<Longrightarrow> mem_step s s'"
  by (auto simp: mem_step_def)

lemma mem_step_refl [simp]: "mem_step s s"
  by (rule mem_stepI [where m = "mem s" and f = "freelist s" and k = "kref s"]) simp

lemma mem_step_trans: "mem_step s s1 \<Longrightarrow> mem_step s1 s2 \<Longrightarrow> mem_step s s2"
proof -
  assume "mem_step s s1" "mem_step s1 s2"
  then obtain m f k m' f' k' where "s1 = s\<lparr>mem := m, freelist := f, kref := k\<rparr>"
    "s2 = s1\<lparr>mem := m', freelist := f', kref := k'\<rparr>" by (auto simp: mem_step_def)
  then show ?thesis by (intro mem_stepI [where m = m' and f = f' and k = k']) simp
qed

lemma mem_step_update [simp]:
  "mem_step s (s\<lparr>mem := m\<rparr>)" "mem_step s (s\<lparr>kref := k\<rparr>)"
  "mem_step s (s\<lparr>freelist := f, mem := m, kref := k\<rparr>)" "mem_step s (s\<lparr>kref := k, mem := m, freelist := f\<rparr>)"
  by (rule mem_stepI [where m = m and f = "freelist s" and k = "kref s"], simp, rule mem_stepI [where m = "mem s" and f = "freelist s" and k = k], simp)
     (rule mem_stepI [where m = m and f = f and k = k], simp)+

lemma managed_mem_step: "mem_step s s' \<Longrightarrow> managed s' p = managed s p"
  using mem_step_sel(6) [of s s'] by (simp add: managed_def)

lemma touchesD:
  assumes "touches X s s'"
  shows "mem_step s s'" "managed s q \<Longrightarrow> q \<notin> X \<Longrightarrow> 0 < rc s q \<Longrightarrow> 0 < rc s' q"
    "align_down 12 a \<notin> X \<Longrightarrow> \<not> free_pg s (align_down 12 a) \<Longrightarrow> mem s' a = mem s a"
  using assms by (simp_all add: touches_def)

lemma touches_refl [simp]: "touches X s s"
  by (simp add: touches_def)

lemma kmem_ok_nonneg: "kmem_ok s \<Longrightarrow> managed s q \<Longrightarrow> 0 \<le> rc s q"
  by (rule kmem.count_nonneg)

lemma touches_trans:
  assumes "kmem_ok s" "touches X s s1" "touches Y s1 s2" "\<And>q. q \<in> Y \<Longrightarrow> q \<in> X \<or> free_pg s q"
  shows "touches X s s2"
proof -
  note m = managed_mem_step [OF touchesD(1) [OF assms(2)]]
  have "0 < rc s2 q" if "managed s q" "q \<notin> X" "0 < rc s q" for q
    using that assms(4) [of q] touchesD(2) [OF assms(2), of q] touchesD(2) [OF assms(3), of q] m
    by (auto simp: free_pg_def)
  moreover have "mem s2 a = mem s a" if a: "align_down 12 a \<notin> X" "\<not> free_pg s (align_down 12 a)" for a
  proof -
    have "\<not> free_pg s1 (align_down 12 a)"
      using a touchesD(2) [OF assms(2), of "align_down 12 a"] kmem_ok_nonneg [OF assms(1), of "align_down 12 a"]
      by (auto simp: free_pg_def m order_less_le)
    then show ?thesis using a assms(4) [of "align_down 12 a"] touchesD(3) [OF assms(2)] touchesD(3) [OF assms(3)] by metis
  qed
  ultimately show ?thesis
    using mem_step_trans [OF touchesD(1) [OF assms(2)] touchesD(1) [OF assms(3)]] by (simp add: touches_def)
qed

lemma touches_mono: "touches X s s' \<Longrightarrow> X \<subseteq> Y \<Longrightarrow> touches Y s s'"
  unfolding touches_def by blast

lemma touches_store:
  assumes "page_aligned p" "align_down 12 a = p" "p \<in> X" "align_down 3 a = a"
  shows "touches X s (s\<lparr>mem := store64 (mem s) a v\<rparr>)"
  using assms by (auto simp: touches_def rc_def store64_def le_put_def in_range_word dest!: align_down_12_3)

text \<open>A store outside the free pages keeps the invariant of the allocator.\<close>

lemma kmem_ok_mem:
  assumes "kmem_ok s" "\<And>a. free_pg s (align_down 12 a) \<Longrightarrow> m a = mem s a"
  shows "kmem_ok (s\<lparr>mem := m\<rparr>)"
proof -
  obtain ps where ps: "free_pages s ps" and e: "0 < sym_end (syms s)" and u: "kmem_unlocked s"
    using assms(1) by (auto simp: kmem_ok_def kmem_inv_def)
  have "load64 (mem s) q = load64 m q" if "q \<in> set ps" for q
  proof -
    have f: "free_pg s q" "page_aligned q"
      using that free_pagesD(3,5) [OF ps, of q] by (auto simp: free_pg_def managed_def)
    then show ?thesis
      using assms(2) by (intro load64_page_cong) (auto simp: page_aligned_align3 page_aligned_iff)
  qed
  then have "fl_chain m (freelist s) ps"
    using free_pagesD(1) [OF ps] fl_chain_cong [of ps "mem s" m "freelist s"] by simp
  then have "free_pages (s\<lparr>mem := m\<rparr>) ps"
    using free_pagesD [OF ps] unfolding free_pages_def by simp
  then show ?thesis using e u by (auto simp: kmem_ok_def kmem_inv_def kmem_unlocked_def)
qed

lemma kmem_ok_store:
  assumes "kmem_ok s" "align_down 3 a = a" "\<not> free_pg s (align_down 12 a)"
  shows "kmem_ok (s\<lparr>mem := store64 (mem s) a v\<rparr>)"
  using assms by (intro kmem_ok_mem) (auto simp: store64_def le_put_def in_range_word dest!: align_down_12_3)

lemma fill_fill: "fill (fill m p c n) p c' n = fill m p c' n"
  by (auto simp: fill_def)

text \<open>Allocating a page and clearing it, as \<open>walk\<close>, \<open>uvmcreate\<close>, \<open>uvmalloc\<close> and \<open>vmfault\<close> do.\<close>

lemma kalloc_zeroed:
  assumes "kmem_ok s"
  obtains (none) "kalloc s = Inr (0, s)"
  | (some) pg s1 where "kalloc s = Inr (pg, s1)" "pg \<noteq> 0" "free_pg s pg" "page_aligned pg"
      "kmem_ok (s1\<lparr>mem := fill (mem s) pg 0 4096\<rparr>)" "memset (mem s1) pg 0 4096 = fill (mem s) pg 0 4096"
      "touches {} s (s1\<lparr>mem := fill (mem s) pg 0 4096\<rparr>)"
      "\<And>q m. managed s q \<Longrightarrow> rc (s1\<lparr>mem := m\<rparr>) q = (if q = pg then 1 else rc s q)"
      "\<And>m. mem_step s (s1\<lparr>mem := m\<rparr>)" "mem s1 = fill (mem s) pg 5 4096"
proof -
  have ki: "kmem_inv s" "kmem_unlocked s" using assms by (simp_all add: kmem_ok_def)
  show ?thesis
    using ki
  proof (cases rule: kalloc_cases)
    case none
    then show ?thesis using that(1) by blast
  next
    case (some pg s1)
    have a: "managed s pg" "rc s pg = 0" "pg \<noteq> 0" "page_aligned pg"
      "s1 = s\<lparr>freelist := load64 (mem s) pg, mem := fill (mem s) pg 5 4096, kref := (kref s)(pg div PGSIZE := 1)\<rparr>"
      using some(2) by (auto simp: alloc_post_def managed_def)
    let ?s = "s1\<lparr>mem := fill (mem s) pg 0 4096\<rparr>"
    have ms: "mem_step s (s1\<lparr>mem := m\<rparr>)" for m 
      by (rule mem_stepI [where m = m and f = "freelist s1" and k = "kref s1"]) (simp add: a(5))
    have r: "rc (s1\<lparr>mem := m\<rparr>) q = (if q = pg then 1 else rc s q)" if "managed s q" for q m
      using rc_alloc_post [OF some(2) managedD(1) [OF that]] by (simp add: rc_def)
    have k1: "kmem_ok s1" using some(3) ki(2) a(5) by (simp add: kmem_ok_def kmem_unlocked_def)
    have "\<not> free_pg s1 pg" using r [OF a(1), of "mem s1"] by (simp add: free_pg_def)
    have m5: "mem s1 = fill (mem s) pg 5 4096" by (simp add: a(5))
    have k: "kmem_ok ?s"
    proof (rule kmem_ok_mem [OF k1])
      fix b assume "free_pg s1 (align_down 12 b)"
      then have "align_down 12 b \<noteq> pg" using \<open>\<not> free_pg s1 pg\<close> by auto
      then show "fill (mem s) pg 0 4096 b = mem s1 b" by (simp add: m5 fill_other a(4))
    qed
    have m: "memset (mem s1) pg 0 4096 = fill (mem s) pg 0 4096" using a(5) by (simp add: memset_fill fill_fill)
    have fp: "free_pg s pg" using a(1,2) by (simp add: free_pg_def)
    have "mem ?s b = mem s b" if "\<not> free_pg s (align_down 12 b)" for b
      using that fp a(4) by (cases "align_down 12 b = pg") (simp_all add: fill_other)
    then have t: "touches {} s ?s" using ms r unfolding touches_def by simp
    show ?thesis using that(2) [OF some(1) a(3) fp a(4) k m t r ms m5] by blast
  qed
qed

section \<open>walk\<close>

text \<open>The table pages of a tree are pages of the pool with this tree as their only user.\<close>

definition tree_ok :: "'z kst_scheme \<Rightarrow> u64 \<Rightarrow> bool" where
  "tree_ok s r \<longleftrightarrow> wf_tree (mem s) r \<and> (\<forall>p \<in> foot (mem s) r. managed s p \<and> rc s p = 1)"

text \<open>From \<open>s\<close> to \<open>s'\<close> the tree \<open>r\<close> only gained table pages, taken from the pool.\<close>

definition extends :: "u64 \<Rightarrow> 'z kst_scheme \<Rightarrow> 'z kst_scheme \<Rightarrow> bool" where
  "extends r s s' \<longleftrightarrow>
     kmem_ok s' \<and> tree_ok s' r \<and> touches (foot (mem s) r) s s' \<and> foot (mem s) r \<subseteq> foot (mem s') r \<and>
     (\<forall>q \<in> foot (mem s') r - foot (mem s) r. rc s q = 0) \<and>
     (\<forall>q. managed s q \<longrightarrow> q \<notin> foot (mem s') r - foot (mem s) r \<longrightarrow> rc s' q = rc s q)"

lemma tree_okD:
  assumes "tree_ok s r"
  shows "wf_tree (mem s) r" "p \<in> foot (mem s) r \<Longrightarrow> managed s p" "p \<in> foot (mem s) r \<Longrightarrow> rc s p = 1"
    "page_aligned r" "r \<noteq> 0"
  using assms by (auto simp: tree_ok_def wf_tree_def)

lemma extendsD:
  assumes "extends r s s'"
  shows "kmem_ok s'" "tree_ok s' r" "touches (foot (mem s) r) s s'" "foot (mem s) r \<subseteq> foot (mem s') r"
    "q \<in> foot (mem s') r \<Longrightarrow> q \<notin> foot (mem s) r \<Longrightarrow> rc s q = 0"
    "managed s q \<Longrightarrow> q \<notin> foot (mem s') r \<or> q \<in> foot (mem s) r \<Longrightarrow> rc s' q = rc s q"
    "mem_step s s'" "managed s' q = managed s q"
  using assms touchesD(1) [of "foot (mem s) r" s s'] managed_mem_step [of s s' q]
  by (simp_all add: extends_def)

lemma extends_refl: "kmem_ok s \<Longrightarrow> tree_ok s r \<Longrightarrow> extends r s s"
  by (simp add: extends_def)

lemma extends_trans:
  assumes "kmem_ok s" "tree_ok s r" "extends r s s1" "extends r s1 s2"
  shows "extends r s s2"
proof -
  note d1 = extendsD [OF assms(3)] and d2 = extendsD [OF assms(4)]
  have new1: "free_pg s q" if "q \<in> foot (mem s1) r" "q \<notin> foot (mem s) r" for q
    using that d1(5) [of q] tree_okD(2) [OF d1(2), of q] d1(8) [of q] by (simp add: free_pg_def)
  have "touches (foot (mem s) r) s s2"
    using touches_trans [OF assms(1) d1(3) d2(3)] new1 by blast
  moreover have "rc s q = 0" if q: "q \<in> foot (mem s2) r" "q \<notin> foot (mem s) r" for q
  proof (cases "q \<in> foot (mem s1) r")
    case True
    then show ?thesis using new1 q(2) by (simp add: free_pg_def)
  next
    case False
    then have "rc s1 q = 0" by (rule d2(5) [OF q(1)])
    moreover have "managed s q" using tree_okD(2) [OF d2(2) q(1)] d1(8) [of q] d2(8) [of q] by simp
    ultimately show ?thesis using d1(6) [of q] False by simp
  qed
  moreover have "rc s2 q = rc s q" if "managed s q" "q \<notin> foot (mem s2) r \<or> q \<in> foot (mem s) r" for q
    using that d1(4) d1(6,8) [of q] d2(4) d2(6) [of q] by (metis subsetD)
  ultimately show ?thesis using d1(4) d2(1,2,4) unfolding extends_def by blast
qed

lemma kalloc_zeroedD:
  assumes "kmem_ok s" "kalloc s = Inr (pg, s1)" "pg \<noteq> 0"
  shows "free_pg s pg" "page_aligned pg" "kmem_ok (s1\<lparr>mem := fill (mem s) pg 0 4096\<rparr>)"
    "memset (mem s1) pg 0 4096 = fill (mem s) pg 0 4096" "touches {} s (s1\<lparr>mem := fill (mem s) pg 0 4096\<rparr>)"
    "\<And>q m. managed s q \<Longrightarrow> rc (s1\<lparr>mem := m\<rparr>) q = (if q = pg then 1 else rc s q)"
    "\<And>m. mem_step s (s1\<lparr>mem := m\<rparr>)" "mem s1 = fill (mem s) pg 5 4096"
proof -
  have "\<exists>pg' s1'. kalloc s = Inr (pg', s1') \<and> (pg' \<noteq> 0 \<longrightarrow> free_pg s pg' \<and> page_aligned pg' \<and>
     kmem_ok (s1'\<lparr>mem := fill (mem s) pg' 0 4096\<rparr>) \<and> memset (mem s1') pg' 0 4096 = fill (mem s) pg' 0 4096 \<and>
     touches {} s (s1'\<lparr>mem := fill (mem s) pg' 0 4096\<rparr>) \<and>
     (\<forall>q m. managed s q \<longrightarrow> rc (s1'\<lparr>mem := m\<rparr>) q = (if q = pg' then 1 else rc s q)) \<and>
     (\<forall>m. mem_step s (s1'\<lparr>mem := m\<rparr>)) \<and> mem s1' = fill (mem s) pg' 5 4096)"
    using assms(1) by (cases rule: kalloc_zeroed) (simp, blast)
  then show "free_pg s pg" "page_aligned pg" "kmem_ok (s1\<lparr>mem := fill (mem s) pg 0 4096\<rparr>)"
    "memset (mem s1) pg 0 4096 = fill (mem s) pg 0 4096" "touches {} s (s1\<lparr>mem := fill (mem s) pg 0 4096\<rparr>)"
    "\<And>q m. managed s q \<Longrightarrow> rc (s1\<lparr>mem := m\<rparr>) q = (if q = pg then 1 else rc s q)"
    "\<And>m. mem_step s (s1\<lparr>mem := m\<rparr>)" "mem s1 = fill (mem s) pg 5 4096"
    using assms(2,3) by (simp_all add: memset_fill fill_fill)
qed

lemma extends_grow:
  assumes ok: "kmem_ok s" "tree_ok s r" and p: "pt_at (mem s) r va d = Some p" "d < 2"
    and inv: "\<not> PTE_is (load64 (mem s) (entry p (2 - d) va)) PTE_V"
    and k: "kalloc s = Inr (pg, s1)" "pg \<noteq> 0"
  defines "s' \<equiv> s1\<lparr>mem := store64 (memset (mem s1) pg 0 4096) (entry p (2 - d) va) (PA2PTE pg OR PTE_V)\<rparr>"
  shows "extends r s s'" "pte_of (mem s') r vb = pte_of (mem s) r vb"
    "pt_at (mem s') r va (Suc d) = Some pg"
proof -
  let ?e = "entry p (2 - d) va" and ?s = "s1\<lparr>mem := fill (mem s) pg 0 4096\<rparr>"
  have z: "free_pg s pg" "page_aligned pg" "kmem_ok ?s" "memset (mem s1) pg 0 4096 = fill (mem s) pg 0 4096"
      "touches {} s ?s" "\<And>q m. managed s q \<Longrightarrow> rc (s1\<lparr>mem := m\<rparr>) q = (if q = pg then 1 else rc s q)"
      "\<And>m. mem_step s (s1\<lparr>mem := m\<rparr>)"
    using kalloc_zeroedD [OF ok(1) k] by blast+
  note wf = tree_okD(1) [OF ok(2)]
  have m': "mem s' = grow (mem s) ?e pg" by (simp add: s'_def z(4) grow_def)
  have al: "page_aligned p" "p \<in> foot (mem s) r" using wf_treeD(1) [OF wf p(1)] p pt_at_foot [OF p(1)] by simp_all
  have nf: "pg \<notin> foot (mem s) r" using z(1) tree_okD(3) [OF ok(2), of pg] by (auto simp: free_pg_def)
  note g = grow_tree [OF wf p z(2) k(2) nf inv, folded m']
  have s': "s' = ?s\<lparr>mem := store64 (mem ?s) ?e (PA2PTE pg OR PTE_V)\<rparr>" by (simp add: s'_def z(4))
  have ea: "align_down 12 ?e = p" "align_down 3 ?e = ?e" using al(1) by (simp_all add: entry_slot slot_entry_facts)
  have mp: "managed s p" "rc s p = 1" by (rule tree_okD(2,3) [OF ok(2) al(2)])+
  have rc': "rc s' q = (if q = pg then 1 else rc s q)" if "managed s q" for q
    unfolding s'_def by (rule z(6) [OF that])
  have mg: "managed s' q = managed s q" for q unfolding s'_def by (rule managed_mem_step [OF z(7)])
  have "p \<noteq> pg" using al(2) nf by auto
  then have "rc ?s p = 1" using z(6) [OF mp(1)] mp(2) by simp
  then have k': "kmem_ok s'" unfolding s' using z(3) ea by (intro kmem_ok_store) (simp_all add: free_pg_def)
  have "touches (foot (mem s) r) ?s s'" unfolding s' by (rule touches_store [OF al(1) ea(1) al(2) ea(2)])
  then have t: "touches (foot (mem s) r) s s'"
    using touches_trans [OF ok(1) touches_mono [OF z(5) empty_subsetI]] by blast
  have "tree_ok s' r"
    unfolding tree_ok_def g(2) using g(1) z(1) tree_okD(2,3) [OF ok(2)] mg rc' nf
    by (auto simp: free_pg_def)
  then show "extends r s s'"
    unfolding extends_def g(2) using k' t z(1) rc' nf by (auto simp: free_pg_def)
  show "pte_of (mem s') r vb = pte_of (mem s) r vb" by (rule g(3))
  show "pt_at (mem s') r va (Suc d) = Some pg" by (rule g(4))
qed

text \<open>The result of a walk: the address of the leaf entry, or 0.\<close>

definition walk_res :: "memory \<Rightarrow> u64 \<Rightarrow> u64 \<Rightarrow> u64 \<Rightarrow> bool" where
  "walk_res m r va pte \<longleftrightarrow> (\<exists>q. pt_at m r va 2 = Some q \<and> pte = entry q 0 va)"

lemma walk_loop_spec:
  assumes "kmem_ok s" "tree_ok s r" "k \<le> 2" "pt_at (mem s) r va (2 - k) = Some p"
  shows "\<exists>pte s'. walk_loop k p va alloc s = Inr (pte, s') \<and> extends r s s' \<and>
     (\<forall>vb. pte_of (mem s') r vb = pte_of (mem s) r vb) \<and>
     (pte = 0 \<or> walk_res (mem s') r va pte) \<and>
     (\<not> alloc \<longrightarrow> s' = s \<and> (pte = 0 \<longleftrightarrow> pt_at (mem s) r va 2 = None))"
  using assms
proof (induction k arbitrary: s p)
  case 0
  then have "p \<in> foot (mem s) r" using pt_at_foot by force
  then have "page_aligned p" "p \<noteq> 0"
    using 0 wf_treeD(1,2) [OF tree_okD(1) [OF 0(2)], of va 2 p] by auto
  then have "entry p 0 va \<noteq> 0" using slot_nonzero [OF _ _ unat_PX] by (simp add: entry_slot)
  then show ?case using 0 by (auto simp: extends_refl walk_res_def)
next
  case (Suc k)
  let ?d = "2 - Suc k"
  have d: "?d < 2" "2 - ?d = Suc k" "Suc ?d = 2 - k" using Suc.prems(3) by auto
  let ?e = "entry p (Suc k) va"
  show ?case
  proof (cases "PTE_is (load64 (mem s) ?e) PTE_V")
    case True
    then have "pt_at (mem s) r va (2 - k) = Some (PTE2PA (load64 (mem s) ?e))"
      unfolding d(3) [symmetric] using Suc.prems(4) d(2) by (simp add: Let_def)
    then show ?thesis using Suc.IH [OF Suc.prems(1,2) _ ] Suc.prems(3) True by simp
  next
    case inv: False
    then have "pt_at (mem s) r va (Suc ?d) = None" using Suc.prems(4) d(2) by (simp add: Let_def)
    then have none: "pt_at (mem s) r va 2 = None" by (rule pt_at_None_mono) (use d in simp)
    show ?thesis
    proof (cases alloc)
      case False
      then show ?thesis using inv none Suc.prems(1,2) by (simp add: extends_refl)
    next
      case True
      from Suc.prems(1) show ?thesis
      proof (cases rule: kalloc_zeroed)
        case none
        then show ?thesis using inv True Suc.prems(1,2) by (simp add: extends_refl)
      next
        case (some pg s1)
        let ?s = "s1\<lparr>mem := store64 (memset (mem s1) pg 0 4096) ?e (PA2PTE pg OR PTE_V)\<rparr>"
        note g = extends_grow [OF Suc.prems(1,2,4) d(1) _ some(1,2), unfolded d(2,3)]
        have "\<exists>pte s'. walk_loop k pg va alloc ?s = Inr (pte, s') \<and> extends r ?s s' \<and>
           (\<forall>vb. pte_of (mem s') r vb = pte_of (mem ?s) r vb) \<and> (pte = 0 \<or> walk_res (mem s') r va pte) \<and>
           (\<not> alloc \<longrightarrow> s' = ?s \<and> (pte = 0 \<longleftrightarrow> pt_at (mem ?s) r va 2 = None))"
          using Suc.prems(3) inv
          by (intro Suc.IH extendsD(1,2) [OF g(1)] g(3)) simp_all
        then obtain pte s' where w: "walk_loop k pg va alloc ?s = Inr (pte, s')" "extends r ?s s'"
          "\<forall>vb. pte_of (mem s') r vb = pte_of (mem ?s) r vb" "pte = 0 \<or> walk_res (mem s') r va pte" by blast
        have "extends r s s'" by (rule extends_trans [OF Suc.prems(1,2) g(1) [OF inv] w(2)])
        moreover have "\<forall>vb. pte_of (mem s') r vb = pte_of (mem s) r vb" using w(3) g(2) [OF inv] by simp
        ultimately show ?thesis using w(1,4) inv True some(1,2) by (simp add: Let_def)
      qed
    qed
  qed
qed

section \<open>Page addresses\<close>

text \<open>\<open>vpage va\<close>: the address of the page of \<open>va\<close>, as far as Sv39 looks at it.\<close>

definition vpage :: "u64 \<Rightarrow> u64" where
  "vpage va = take_bit 39 (align_down 12 va)"

lemma bit_vpage [bit_simps]: "bit (vpage va) i \<longleftrightarrow> 12 \<le> i \<and> i < 39 \<and> bit va i"
  by (auto simp: vpage_def bit_simps)

lemma PX_bit: "l \<le> 2 \<Longrightarrow> bit (PX l va) i \<longleftrightarrow> i < 9 \<and> bit va (12 + 9 * l + i)"
proof -
  have "PX l va = take_bit 9 (drop_bit (12 + 9 * l) va)"
    by (simp add: PX_def PXMASK_def PXSHIFT_def PGSHIFT_def take_bit_eq_mask mask_eq_exp_minus_1)
  then show ?thesis by (auto simp: bit_simps)
qed

lemma PX_eq_iff:
  assumes "l \<le> 2"
  shows "PX l va = PX l vb \<longleftrightarrow> (\<forall>i. 12 + 9 * l \<le> i \<longrightarrow> i < 21 + 9 * l \<longrightarrow> bit va i = bit vb i)"
proof
  assume e: "PX l va = PX l vb"
  show "\<forall>i. 12 + 9 * l \<le> i \<longrightarrow> i < 21 + 9 * l \<longrightarrow> bit va i = bit vb i"
  proof (intro allI impI)
    fix i assume i: "12 + 9 * l \<le> i" "i < 21 + 9 * l"
    then have "i - (12 + 9 * l) < 9" by linarith
    then show "bit va i = bit vb i"
      using PX_bit [OF assms, of va "i - (12 + 9 * l)"] PX_bit [OF assms, of vb "i - (12 + 9 * l)"] e i by simp
  qed
next
  assume "\<forall>i. 12 + 9 * l \<le> i \<longrightarrow> i < 21 + 9 * l \<longrightarrow> bit va i = bit vb i"
  then show "PX l va = PX l vb" by (intro bit_word_eqI) (auto simp: PX_bit [OF assms])
qed

lemma same_page_vpage: "same_page va vb \<longleftrightarrow> vpage va = vpage vb"
proof -
  have "same_page va vb \<longleftrightarrow> PX 2 va = PX 2 vb \<and> PX 1 va = PX 1 vb \<and> PX 0 va = PX 0 vb"
    by (auto simp: same_page_def same_path_def less_Suc_eq numeral_3_eq_3)
  also have "\<dots> \<longleftrightarrow> (\<forall>i. 12 \<le> i \<longrightarrow> i < 39 \<longrightarrow> bit va i = bit vb i)"
  proof (rule iffI, intro allI impI)
    fix i :: nat assume a: "PX 2 va = PX 2 vb \<and> PX 1 va = PX 1 vb \<and> PX 0 va = PX 0 vb" "12 \<le> i" "i < 39"
    then consider "i < 21" | "21 \<le> i \<and> i < 30" | "30 \<le> i" by linarith
    then show "bit va i = bit vb i"
      using a PX_eq_iff [of 0 va vb] PX_eq_iff [of 1 va vb] PX_eq_iff [of 2 va vb] by cases auto
  qed (auto simp: PX_eq_iff)
  also have "\<dots> \<longleftrightarrow> vpage va = vpage vb"
  proof (rule iffI [rotated], intro allI impI)
    fix i :: nat assume "vpage va = vpage vb" "12 \<le> i" "i < 39"
    then show "bit va i = bit vb i" using bit_vpage [of va i] bit_vpage [of vb i] by simp
  next
    assume "\<forall>i. 12 \<le> i \<longrightarrow> i < 39 \<longrightarrow> bit va i = bit vb i"
    then show "vpage va = vpage vb" by (intro bit_word_eqI) (auto simp: bit_simps)
  qed
  finally show ?thesis .
qed

lemma MAXVA_eq: "MAXVA = 2 ^ 38" "unat MAXVA = 2 ^ 38"
  by (simp_all add: MAXVA_def)

lemma less_MAXVA_take_bit: "va < MAXVA \<Longrightarrow> k \<ge> 38 \<Longrightarrow> take_bit k va = va"
proof -
  assume "va < MAXVA" "k \<ge> 38"
  then have "unat va < 2 ^ 38" by (simp add: word_less_nat_alt MAXVA_eq)
  also have "\<dots> \<le> 2 ^ k" using \<open>k \<ge> 38\<close> by (intro power_increasing) simp_all
  finally have "take_bit k (unat va) = unat va" by (rule take_bit_nat_eq_self)
  then show "take_bit k va = va" by (metis unsigned_take_bit_eq word_unat_eq_iff)
qed

lemma align_down_le: "unat (align_down k a) \<le> unat a"
  using unat_align_down_split [of k a] by simp

lemma vpage_low: "va < MAXVA \<Longrightarrow> vpage va = align_down 12 va"
  unfolding vpage_def using align_down_le [of 12 va] by (intro less_MAXVA_take_bit) (simp_all add: word_less_nat_alt)

lemma vpage_page [simp]: "va < MAXVA \<Longrightarrow> page_aligned va \<Longrightarrow> vpage va = va"
  by (simp add: vpage_low page_aligned_iff)

lemma vpage_aligned [simp]: "page_aligned (vpage va)"
  unfolding page_aligned_iff vpage_def by (rule bit_word_eqI) (auto simp: bit_simps)

lemma vpage_idem [simp]: "vpage (vpage va) = vpage va"
  unfolding vpage_def by (rule bit_word_eqI) (auto simp: bit_simps)

lemma vpage_align_down [simp]: "vpage (align_down 12 va) = vpage va"
  unfolding vpage_def by simp

lemma pte_of_vpage: "vpage va = vpage vb \<Longrightarrow> pte_of m r va = pte_of m r vb"
  using pt_at_same_path [of 2 va vb m r]
  by (simp add: same_page_vpage [symmetric] same_page_alt pte_of_def entry_def split: option.splits)

lemma pte_of_vpage_self [simp]: "pte_of m r (vpage va) = pte_of m r va"
  by (rule pte_of_vpage) simp

section \<open>Lookups\<close>

definition leaf_ptr :: "memory \<Rightarrow> u64 \<Rightarrow> u64 \<Rightarrow> u64" where
  "leaf_ptr m r va = (case pt_at m r va 2 of None \<Rightarrow> 0 | Some q \<Rightarrow> entry q 0 va)"

lemma walk_loop_ro:
  assumes "k \<le> 2" "pt_at (mem s) r va (2 - k) = Some p"
  shows "walk_loop k p va False s = Inr (leaf_ptr (mem s) r va, s)"
  using assms
proof (induction k arbitrary: p)
  case (Suc k)
  let ?d = "2 - Suc k"
  have d: "2 - ?d = Suc k" "2 - k = Suc ?d" using Suc.prems(1) by auto
  show ?case
  proof (cases "PTE_is (load64 (mem s) (entry p (Suc k) va)) PTE_V")
    case True
    then have "pt_at (mem s) r va (2 - k) = Some (PTE2PA (load64 (mem s) (entry p (Suc k) va)))"
      unfolding d(2) using Suc.prems(2) d(1) by (simp add: Let_def)
    then show ?thesis using Suc.IH Suc.prems(1) True by simp
  next
    case False
    then have "pt_at (mem s) r va (Suc ?d) = None" using Suc.prems(2) d(1) by (simp add: Let_def)
    then have "pt_at (mem s) r va 2 = None" by (rule pt_at_None_mono) (use Suc.prems in simp)
    then show ?thesis using False by (simp add: leaf_ptr_def)
  qed
qed (simp add: leaf_ptr_def)

lemma walk_ro: "walk r va False s = (if va \<ge> MAXVA then panic ''walk'' else Inr (leaf_ptr (mem s) r va, s))"
  using walk_loop_ro [of 2 s r va r] by (simp add: walk_def)

lemma leaf_ptr_load: "leaf_ptr m r va \<noteq> 0 \<Longrightarrow> load64 m (leaf_ptr m r va) = pte_of m r va"
  by (auto simp: leaf_ptr_def pte_of_def split: option.splits)

lemma leaf_ptr_0:
  assumes "wf_tree m r"
  shows "leaf_ptr m r va = 0 \<longleftrightarrow> pt_at m r va 2 = None"
  using slot_nonzero [OF _ _ unat_PX] wf_treeD(1,2) [OF assms]
  by (auto simp: leaf_ptr_def entry_slot split: option.splits)

lemma leaf_ptr_0_pte: "wf_tree m r \<Longrightarrow> leaf_ptr m r va = 0 \<Longrightarrow> pte_of m r va = 0"
  by (simp add: leaf_ptr_0 pte_of_def)

lemma walkaddr_eq:
  assumes "wf_tree (mem s) r"
  shows "walkaddr r va s =
    Inr (if va < MAXVA \<and> bit (pte_of (mem s) r va) 0 \<and> bit (pte_of (mem s) r va) 4
         then PTE2PA (pte_of (mem s) r va) else 0, s)"
  using leaf_ptr_load [of "mem s" r va] leaf_ptr_0_pte [OF assms, of va]
  by (cases "leaf_ptr (mem s) r va = 0") (auto simp: walkaddr_def walk_ro not_less)

lemma ismapped_eq:
  assumes "wf_tree (mem s) r" "va < MAXVA"
  shows "ismapped r va s = Inr (bit (pte_of (mem s) r va) 0, s)"
  using leaf_ptr_load [of "mem s" r va] leaf_ptr_0_pte [OF assms(1), of va] assms(2)
  by (cases "leaf_ptr (mem s) r va = 0") (auto simp: ismapped_def walk_ro not_le)

section \<open>Writing a leaf entry\<close>

lemma leaf_ptr_Some:
  assumes "leaf_ptr m r va \<noteq> 0"
  obtains q where "pt_at m r va 2 = Some q" "leaf_ptr m r va = entry q 0 va"
  using assms by (auto simp: leaf_ptr_def split: option.splits)

lemma set_leaf:
  fixes v :: u64
  assumes ok: "kmem_ok s" "tree_ok s r" and p: "leaf_ptr (mem s) r va \<noteq> 0"
  defines "s' \<equiv> s\<lparr>mem := store64 (mem s) (leaf_ptr (mem s) r va) v\<rparr>"
  shows "extends r s s'" "foot (mem s') r = foot (mem s) r" "leaf_ptr (mem s') r vb = leaf_ptr (mem s) r vb"
    "pte_of (mem s') r vb = (if vpage vb = vpage va then v else pte_of (mem s) r vb)"
    "rc s' q = rc s q"
proof -
  obtain q where q: "pt_at (mem s) r va 2 = Some q" and e: "leaf_ptr (mem s) r va = entry q 0 va"
    using p by (rule leaf_ptr_Some)
  note wf = tree_okD(1) [OF ok(2)]
  have al: "page_aligned q" "q \<in> foot (mem s) r" using wf_treeD(1) [OF wf q] pt_at_foot [OF q] by simp_all
  have m: "mem s' = store64 (mem s) (entry q 0 va) v" by (simp add: s'_def e)
  note ls = leaf_store [OF wf q, of v, folded m]
  have ea: "align_down 12 (entry q 0 va) = q" "align_down 3 (entry q 0 va) = entry q 0 va"
    using al(1) by (simp_all add: entry_slot slot_entry_facts)
  show f: "foot (mem s') r = foot (mem s) r" by (rule ls(2))
  show "pte_of (mem s') r vb = (if vpage vb = vpage va then v else pte_of (mem s) r vb)"
    by (simp add: ls(3) same_page_vpage eq_commute)
  show "leaf_ptr (mem s') r vb = leaf_ptr (mem s) r vb"
    unfolding m leaf_ptr_def by (simp add: leaf_store_pt_at [OF wf q])
  have k: "kmem_ok s'" unfolding s'_def e
    using ok(1) ea tree_okD(3) [OF ok(2) al(2)] by (intro kmem_ok_store) (simp_all add: free_pg_def)
  have "touches (foot (mem s) r) s s'" unfolding s'_def e by (rule touches_store [OF al(1) ea(1) al(2) ea(2)])
  moreover have t: "tree_ok s' r" using ok(2) ls(1) unfolding tree_ok_def f by (simp add: s'_def)
  ultimately show "extends r s s'" using k by (simp add: extends_def f) (simp add: s'_def)
  show "rc s' q = rc s q" for q by (simp add: s'_def)
qed

section \<open>mappages\<close>

lemma walk_alloc:
  assumes "kmem_ok s" "tree_ok s r" "va < MAXVA"
  obtains pte s' where "walk r va True s = Inr (pte, s')" "extends r s s'"
    "\<And>vb. pte_of (mem s') r vb = pte_of (mem s) r vb" "pte = 0 \<or> pte = leaf_ptr (mem s') r va"
proof -
  have "\<exists>pte s'. walk_loop 2 r va True s = Inr (pte, s') \<and> extends r s s' \<and>
     (\<forall>vb. pte_of (mem s') r vb = pte_of (mem s) r vb) \<and> (pte = 0 \<or> walk_res (mem s') r va pte)"
    using walk_loop_spec [OF assms(1,2), of 2 va r True] by auto
  then show ?thesis
    using that assms(3) by (auto simp: walk_def not_le walk_res_def leaf_ptr_def)
qed

text \<open>The map after \<open>k\<close> pages from \<open>a\<close> were mapped to the pages from \<open>pa\<close>.\<close>

definition mapped :: "u64 \<Rightarrow> nat \<Rightarrow> u64 \<Rightarrow> u64 \<Rightarrow> (u64 \<Rightarrow> u64) \<Rightarrow> u64 \<Rightarrow> u64" where
  "mapped a k pa perm f vb =
     (if in_range (vpage vb) a (k * 4096) then PA2PTE (pa + (vpage vb - a)) OR perm OR PTE_V else f vb)"

lemma in_range_pages_Suc:
  assumes "page_aligned a" "page_aligned v" "n < 2 ^ 40"
  shows "in_range v a (Suc n * 4096) \<longleftrightarrow> v = a \<or> in_range v (a + PGSIZE) (n * 4096)"
proof (cases "v = a")
  case False
  have m: "unat (v - a) mod 4096 = 0"
  proof -
    have "4096 dvd unat v" "4096 dvd unat a"
      using assms(1,2) page_aligned_unat by (auto simp: dvd_eq_mod_eq_0)
    then have "4096 dvd unat (v - a)" by (auto simp: unat_sub_if_size word_size intro!: dvd_diff_nat dvd_add)
    then show ?thesis by simp
  qed
  have g: "4096 \<le> unat (v - a)"
    using m False by (metis dvd_imp_le mod_eq_0_iff_dvd unat_eq_zero right_minus_eq gr0I)
  then have "unat (v - (a + PGSIZE)) = unat (v - a) - 4096"
    by (simp add: PGSIZE_def diff_diff_eq [symmetric] unat_sub word_le_nat_alt)
  then show ?thesis using False g by (auto simp: in_range_def)
qed (simp add: in_range_def)

lemma not_in_range_next:
  assumes "page_aligned a" "n < 2 ^ 40"
  shows "\<not> in_range a (a + PGSIZE) (n * 4096)"
proof -
  have "a - (a + PGSIZE) = - PGSIZE" by simp
  then have "unat (a - (a + PGSIZE)) = 2 ^ 64 - 4096" by (simp add: PGSIZE_def)
  then show ?thesis using assms(2) by (simp add: in_range_def)
qed

lemma mapped_Suc:
  assumes "page_aligned a" "n < 2 ^ 40"
  shows "mapped a (Suc n) pa perm f vb =
    mapped (a + PGSIZE) n (pa + PGSIZE) perm (\<lambda>vb. if vpage vb = a then PA2PTE pa OR perm OR PTE_V else f vb) vb"
proof -
  have "vpage vb - (a + PGSIZE) + PGSIZE = vpage vb - a" by (simp add: algebra_simps)
  then show ?thesis
    using in_range_pages_Suc [OF assms(1) vpage_aligned assms(2), of vb] not_in_range_next [OF assms]
    by (auto simp: mapped_def algebra_simps)
qed

lemma mapped_0 [simp]: "mapped a 0 pa perm f = f"
  by (simp add: mapped_def in_range_def fun_eq_iff)

lemma mapped_1:
  "page_aligned a \<Longrightarrow> mapped a (Suc 0) pa perm f vb = (if vpage vb = a then PA2PTE pa OR perm OR PTE_V else f vb)"
  using mapped_Suc [of a 0 pa perm f vb] by simp

lemma next_page:
  assumes "page_aligned a" "unat a + Suc (Suc n) * 4096 \<le> 2 ^ 38"
  shows "page_aligned (a + PGSIZE)" "unat (a + PGSIZE) = unat a + 4096"
proof -
  show u: "unat (a + PGSIZE) = unat a + 4096" using assms(2) by (simp add: unat_word_ariths PGSIZE_def)
  show "page_aligned (a + PGSIZE)" using assms(1) by (simp add: page_aligned_unat u)
qed

lemma mappages_loop_spec:
  assumes "kmem_ok s" "tree_ok s r" "page_aligned a" "unat a + Suc n * 4096 \<le> 2 ^ 38"
    "lst = a + of_nat n * PGSIZE"
    "\<And>vb. in_range (vpage vb) a (Suc n * 4096) \<Longrightarrow> \<not> bit (pte_of (mem s) r vb) 0"
  shows "\<exists>k ret s'. mappages_loop (Suc n) r a lst pa perm s = Inr (ret, s') \<and> extends r s s' \<and>
     (ret = 0 \<and> k = Suc n \<or> ret = -1 \<and> k \<le> n) \<and>
     pte_of (mem s') r = mapped a k pa perm (pte_of (mem s) r)"
  using assms
proof (induction n arbitrary: a pa s)
  case 0
  have lt: "a < MAXVA" using 0(4) by (simp add: word_less_nat_alt MAXVA_eq)
  obtain pte s1 where w: "walk r a True s = Inr (pte, s1)" "extends r s s1"
    "\<And>vb. pte_of (mem s1) r vb = pte_of (mem s) r vb" "pte = 0 \<or> pte = leaf_ptr (mem s1) r a"
    using walk_alloc [OF 0(1,2) lt] by metis
  show ?case
  proof (cases "pte = 0")
    case True
    then show ?thesis using w by (auto intro!: exI [of _ 0] simp: fun_eq_iff)
  next
    case False
    with w(4) have p: "pte = leaf_ptr (mem s1) r a" "leaf_ptr (mem s1) r a \<noteq> 0" by auto
    note sl = set_leaf [OF extendsD(1,2) [OF w(2)] p(2), of "PA2PTE pa OR perm OR PTE_V", folded p(1)]
    have "\<not> bit (load64 (mem s1) pte) 0"
      using leaf_ptr_load [OF p(2)] w(3) 0(6) [of a] lt 0(3) by (simp add: p(1) in_range_def)
    then show ?thesis
      using w(1,3) False 0(3,5) lt extends_trans [OF 0(1,2) w(2) sl(1)] sl(4)
      by (intro exI [of _ "Suc 0"]) (simp add: Let_def fun_eq_iff mapped_1)
  qed
next
  case (Suc n)
  have lt: "a < MAXVA" using Suc.prems(4) by (simp add: word_less_nat_alt MAXVA_eq)
  obtain pte s1 where w: "walk r a True s = Inr (pte, s1)" "extends r s s1"
    "\<And>vb. pte_of (mem s1) r vb = pte_of (mem s) r vb" "pte = 0 \<or> pte = leaf_ptr (mem s1) r a"
    using walk_alloc [OF Suc.prems(1,2) lt] by metis
  show ?case
  proof (cases "pte = 0")
    case True
    then show ?thesis using w by (auto intro!: exI [of _ 0] simp: fun_eq_iff)
  next
    case False
    with w(4) have p: "pte = leaf_ptr (mem s1) r a" "leaf_ptr (mem s1) r a \<noteq> 0" by auto
    let ?v = "PA2PTE pa OR perm OR PTE_V"
    define s2 where "s2 = s1\<lparr>mem := store64 (mem s1) pte ?v\<rparr>"
    note sl = set_leaf [OF extendsD(1,2) [OF w(2)] p(2), of ?v, folded p(1), folded s2_def]
    note ex = extends_trans [OF Suc.prems(1,2) w(2) sl(1)]
    have v: "\<not> bit (load64 (mem s1) pte) 0"
      using leaf_ptr_load [OF p(2)] w(3) Suc.prems(6) [of a] lt Suc.prems(3) by (simp add: p(1) in_range_def)
    note nx = next_page [OF Suc.prems(3,4)]
    have f: "pte_of (mem s2) r = (\<lambda>vb. if vpage vb = a then ?v else pte_of (mem s) r vb)"
      using sl(4) w(3) lt Suc.prems(3) by (simp add: fun_eq_iff)
    have "n < 2 ^ 40" using Suc.prems(4) by simp
    note ip = in_range_pages_Suc [OF Suc.prems(3) vpage_aligned, of "Suc n"] not_in_range_next [OF Suc.prems(3), of "Suc n"]
    have "\<exists>k ret s'. mappages_loop (Suc n) r (a + PGSIZE) lst (pa + PGSIZE) perm s2 = Inr (ret, s') \<and> extends r s2 s' \<and>
       (ret = 0 \<and> k = Suc n \<or> ret = -1 \<and> k \<le> n) \<and>
       pte_of (mem s') r = mapped (a + PGSIZE) k (pa + PGSIZE) perm (pte_of (mem s2) r)"
    proof (rule Suc.IH [OF extendsD(1,2) [OF ex]])
      show "lst = a + PGSIZE + of_nat n * PGSIZE" using Suc.prems(5) by (simp add: algebra_simps)
      show "unat (a + PGSIZE) + Suc n * 4096 \<le> 2 ^ 38" using nx(2) Suc.prems(4) by simp
      show "\<not> bit (pte_of (mem s2) r vb) 0" if "in_range (vpage vb) (a + PGSIZE) (Suc n * 4096)" for vb
        using that Suc.prems(4,6) ip by (auto simp: f)
    qed (rule nx(1))
    then obtain k ret s' where r: "mappages_loop (Suc n) r (a + PGSIZE) lst (pa + PGSIZE) perm s2 = Inr (ret, s')"
      "extends r s2 s'" "ret = 0 \<and> k = Suc n \<or> ret = -1 \<and> k \<le> n"
      "pte_of (mem s') r = mapped (a + PGSIZE) k (pa + PGSIZE) perm (pte_of (mem s2) r)" by blast
    have "a \<noteq> lst"
    proof
      assume "a = lst"
      then have "of_nat (Suc n) * PGSIZE = 0" using Suc.prems(5) by simp
      then have "unat (of_nat (Suc n) * PGSIZE) = 0" by simp
      moreover have "unat (of_nat (Suc n) * PGSIZE :: u64) = Suc n * 4096"
        using Suc.prems(4) by (simp add: PGSIZE_def unat_word_ariths unat_of_nat_u64)
      ultimately show False by simp
    qed
    moreover have "pte_of (mem s') r = mapped a (Suc k) pa perm (pte_of (mem s) r)"
      using r(3,4) mapped_Suc [OF Suc.prems(3), of k pa perm "pte_of (mem s) r"] Suc.prems(4)
      by (auto simp: fun_eq_iff f)
    ultimately show ?thesis
      using w(1) False v r extends_trans [OF Suc.prems(1,2) ex r(2)]
      by (intro exI [of _ "Suc k"] exI [of _ ret] exI [of _ s'])
         (simp only: mappages_loop.simps, simp add: Let_def s2_def)
  qed
qed

text \<open>A page on its own.\<close>

lemma page_below_MAXVA: "page_aligned a \<Longrightarrow> a < MAXVA \<Longrightarrow> unat a + 4096 \<le> 2 ^ 38"
proof -
  assume a: "page_aligned a" "a < MAXVA"
  have "4096 dvd (2 ^ 38 :: nat)" by simp
  moreover have "4096 dvd unat a" using a(1) by (simp add: page_aligned_unat mod_eq_0_iff_dvd)
  ultimately have "\<not> 2 ^ 38 < unat a + 4096"
    using less_add_dvd [of 4096 "2 ^ 38" "unat a"] a(2) by (simp add: word_less_nat_alt MAXVA_eq)
  then show ?thesis by simp
qed

lemma mappages_one:
  assumes "kmem_ok s" "tree_ok s r" "page_aligned a" "a < MAXVA" "\<not> bit (pte_of (mem s) r a) 0"
  obtains (mapped) s' where "mappages r a PGSIZE pa perm s = Inr (0, s')" "extends r s s'"
      "\<And>vb. pte_of (mem s') r vb = (if vpage vb = a then PA2PTE pa OR perm OR PTE_V else pte_of (mem s) r vb)"
  | (nomem) s' where "mappages r a PGSIZE pa perm s = Inr (-1, s')" "extends r s s'"
      "\<And>vb. pte_of (mem s') r vb = pte_of (mem s) r vb"
proof -
  have "\<exists>k ret s'. mappages_loop (Suc 0) r a a pa perm s = Inr (ret, s') \<and> extends r s s' \<and>
     (ret = 0 \<and> k = Suc 0 \<or> ret = -1 \<and> k \<le> 0) \<and>
     pte_of (mem s') r = mapped a k pa perm (pte_of (mem s) r)"
  proof (rule mappages_loop_spec [OF assms(1-3)])
    show "unat a + Suc 0 * 4096 \<le> 2 ^ 38" using page_below_MAXVA [OF assms(3,4)] by simp
    show "\<not> bit (pte_of (mem s) r vb) 0" if "in_range (vpage vb) a (Suc 0 * 4096)" for vb
    proof -
      have "vpage vb = a"
        using that in_range_pages_Suc [OF assms(3) vpage_aligned, of 0 vb] by (simp add: in_range_def)
      then show ?thesis using assms(5) pte_of_vpage_self [of "mem s" r vb] by simp
    qed
  qed simp
  moreover have "mappages r a PGSIZE pa perm s = mappages_loop (Suc 0) r a a pa perm s"
    using assms(3) by (simp add: mappages_def page_aligned_def) (simp add: PGSIZE_def)
  ultimately show ?thesis
    using that assms(3) by (auto simp: mapped_1)
qed

section \<open>Trees elsewhere\<close>

lemma tree_frame:
  assumes "tree_ok s r" "touches X s s'" "foot (mem s) r \<inter> X = {}"
    "\<And>q. q \<in> foot (mem s) r \<Longrightarrow> rc s' q = rc s q"
  shows "tree_ok s' r" "foot (mem s') r = foot (mem s) r" "pte_of (mem s') r vb = pte_of (mem s) r vb"
    "leaf_ptr (mem s') r vb = leaf_ptr (mem s) r vb"
proof -
  have eq: "mem s' a = mem s a" if "p \<in> foot (mem s) r" "align_down 12 a = p" for p a
    using that assms(3) touchesD(3) [OF assms(2), of a] tree_okD(3) [OF assms(1), of p]
    by (auto simp: free_pg_def)
  note al = tree_okD(4) [OF assms(1)]
  note ff = foot_frame [OF al eq]
  show f: "foot (mem s') r = foot (mem s) r" by (rule ff(1))
  show "pte_of (mem s') r vb = pte_of (mem s) r vb" by (rule ff(2))
  show "leaf_ptr (mem s') r vb = leaf_ptr (mem s) r vb"
    unfolding leaf_ptr_def using pt_at_frame [OF al eq, where d = 2 and va = vb] by simp
  show "tree_ok s' r"
    unfolding tree_ok_def f using ff(3) tree_okD(1-3) [OF assms(1)] assms(4)
      managed_mem_step [OF touchesD(1) [OF assms(2)]] by simp
qed

text \<open>Two trees without a common page, one of which grows.\<close>

lemma extends_other:
  assumes "kmem_ok s" "extends r s s'" "tree_ok s r" "tree_ok s r2" "foot (mem s) r \<inter> foot (mem s) r2 = {}"
  shows "tree_ok s' r2" "foot (mem s') r2 = foot (mem s) r2" "pte_of (mem s') r2 vb = pte_of (mem s) r2 vb"
    "leaf_ptr (mem s') r2 vb = leaf_ptr (mem s) r2 vb" "foot (mem s') r \<inter> foot (mem s') r2 = {}"
proof -
  note d = extendsD [OF assms(2)]
  have nf: "q \<notin> foot (mem s') r" if "q \<in> foot (mem s) r2" for q
    using that assms(5) d(5) [of q] tree_okD(3) [OF assms(4) that] by auto
  have "rc s' q = rc s q" if "q \<in> foot (mem s) r2" for q
    using d(6) [OF tree_okD(2) [OF assms(4) that]] nf [OF that] by blast
  note tf = tree_frame [OF assms(4) d(3) _ this]
  show "tree_ok s' r2" "foot (mem s') r2 = foot (mem s) r2" "pte_of (mem s') r2 vb = pte_of (mem s) r2 vb"
    "leaf_ptr (mem s') r2 vb = leaf_ptr (mem s) r2 vb"
    using tf assms(5) by blast+
  then show "foot (mem s') r \<inter> foot (mem s') r2 = {}" using nf by blast
qed

section \<open>kfree with a footprint\<close>

lemma kfree_touches:
  assumes "kmem_ok s" "managed s p" "0 < rc s p"
  obtains s' where "kfree p s = Inr s'" "kmem_ok s'" "touches {p} s s'"
    "\<And>q. managed s q \<Longrightarrow> rc s' q = (if q = p then rc s p - 1 else rc s q)"
    "\<And>a. 1 < rc s p \<Longrightarrow> mem s' a = mem s a"
proof -
  have i: "kmem_inv s" "kmem_unlocked s" using assms(1) by (simp_all add: kmem_ok_def)
  obtain s' where s': "kfree p s = Inr s'" "free_post s p s'" "kmem_inv s'"
    using kfree_cases [OF i assms(2,3)] by blast
  have ms: "mem_step s s'" using s'(2)
    by (cases "1 < rc s p")
       (auto simp: free_post_def intro!: mem_stepI [where m = "mem s'" and f = "freelist s'" and k = "kref s'"])
  note r = rc_free_post [OF s'(2) assms(2,3)]
  have "kmem_ok s'" using s'(3) i(2) mem_step_sel(1) [OF ms] by (simp add: kmem_ok_def kmem_unlocked_def)
  moreover have "touches {p} s s'"
    unfolding touches_def using ms r managedD(1) [of s] free_post_mem [OF s'(2) managedD(1) [OF assms(2)]] by auto
  ultimately show ?thesis
    using that [OF s'(1)] r managedD(1) [of s] free_post_mem [OF s'(2) managedD(1) [OF assms(2)]] by auto
qed

end
