(* ===== verification/Uvm.thy ===== *)
theory Uvm
  imports Pagetable
begin

unbundle bit_operations_syntax

text \<open>
  What \<open>uvmunmap\<close> and \<open>freewalk\<close> do to one page table: entries cleared, references to
  the mapped pages dropped, table pages returned to the pool, all else as before.
\<close>

section \<open>uvmunmap\<close>

text \<open>The pages that the present entries among \<open>n\<close> pages from \<open>a\<close> point to, in order.\<close>

primrec unmap_list :: "(u64 \<Rightarrow> u64) \<Rightarrow> u64 \<Rightarrow> nat \<Rightarrow> u64 list" where
  "unmap_list f a 0 = []"
| "unmap_list f a (Suc n) = (if bit (f a) 0 then [PTE2PA (f a)] else []) @ unmap_list f (a + PGSIZE) n"

definition unmapped :: "u64 \<Rightarrow> nat \<Rightarrow> (u64 \<Rightarrow> u64) \<Rightarrow> u64 \<Rightarrow> u64" where
  "unmapped a n f vb = (if in_range (vpage vb) a (n * 4096) then 0 else f vb)"

lemma page_range_step:
  assumes "page_aligned a" "unat a + Suc n * 4096 \<le> 2 ^ 38"
  shows "page_aligned (a + PGSIZE)" "unat (a + PGSIZE) + n * 4096 \<le> 2 ^ 38" "a < MAXVA" "n < 2 ^ 40"
    "unat (a + PGSIZE) = unat a + 4096"
proof -
  show u: "unat (a + PGSIZE) = unat a + 4096" using assms(2) by (simp add: unat_word_ariths PGSIZE_def)
  show "page_aligned (a + PGSIZE)" using assms(1) by (simp add: page_aligned_unat u)
  show "unat (a + PGSIZE) + n * 4096 \<le> 2 ^ 38" using assms(2) by (simp add: u)
  show "a < MAXVA" using assms(2) by (simp add: word_less_nat_alt MAXVA_eq)
  show "n < 2 ^ 40" using assms(2) by simp
qed

lemma unmap_list_cong:
  assumes "page_aligned a" "unat a + n * 4096 \<le> 2 ^ 38"
    "\<And>x. page_aligned x \<Longrightarrow> x < MAXVA \<Longrightarrow> in_range x a (n * 4096) \<Longrightarrow> f x = g x"
  shows "unmap_list f a n = unmap_list g a n"
  using assms
proof (induction n arbitrary: a)
  case (Suc n)
  note st = page_range_step [OF Suc.prems(1,2)]
  have "f a = g a" using Suc.prems(1) st(3) by (intro Suc.prems(3)) (simp_all add: in_range_def)
  moreover have "unmap_list f (a + PGSIZE) n = unmap_list g (a + PGSIZE) n"
    using in_range_pages_Suc [OF Suc.prems(1) _ st(4)] by (intro Suc.IH st Suc.prems(3)) auto
  ultimately show ?case by simp
qed simp

lemma unmapped_Suc:
  assumes "page_aligned a" "n < 2 ^ 40"
  shows "unmapped a (Suc n) f vb = unmapped (a + PGSIZE) n (\<lambda>vb. if vpage vb = a then 0 else f vb) vb"
  using in_range_pages_Suc [OF assms(1) vpage_aligned assms(2), of vb] by (auto simp: unmapped_def)

lemma unmapped_0 [simp]: "unmapped a 0 f = f"
  by (simp add: unmapped_def in_range_def fun_eq_iff)

text \<open>What it takes to drop the references in \<open>ps\<close>, and what remains.\<close>

definition droppable :: "'z kst_scheme \<Rightarrow> u64 set \<Rightarrow> u64 list \<Rightarrow> bool" where
  "droppable s F ps \<longleftrightarrow> (\<forall>p \<in> set ps. managed s p \<and> p \<notin> F \<and> int (count_list ps p) \<le> rc s p)"

definition dropped :: "u64 set \<Rightarrow> u64 list \<Rightarrow> 'z kst_scheme \<Rightarrow> 'z kst_scheme \<Rightarrow> bool" where
  "dropped F ps s s' \<longleftrightarrow> (\<forall>q. managed s q \<longrightarrow> rc s' q = rc s q - int (count_list ps q)) \<and>
     (\<forall>a. managed s (align_down 12 a) \<longrightarrow> align_down 12 a \<notin> F \<longrightarrow> 0 < rc s' (align_down 12 a) \<longrightarrow>
        mem s' a = mem s a)"

lemma dropped_trans:
  assumes "dropped F xs s s1" "dropped F ys s1 s2" "mem_step s s1"
  shows "dropped F (xs @ ys) s s2"
proof -
  note m = managed_mem_step [OF assms(3)]
  have r: "rc s2 q = rc s q - int (count_list (xs @ ys) q)" "rc s2 q \<le> rc s1 q" if "managed s q" for q
    using that assms(1,2) m by (simp_all add: dropped_def)
  have "mem s2 a = mem s a"
    if a: "managed s (align_down 12 a)" "align_down 12 a \<notin> F" "0 < rc s2 (align_down 12 a)" for a
    using a r(2) [OF a(1)] assms(1,2) m [of "align_down 12 a"] unfolding dropped_def by auto
  with r(1) show ?thesis by (simp add: dropped_def)
qed

lemma droppable_step:
  assumes "droppable s F (xs @ ys)" "dropped F xs s s1" "mem_step s s1"
  shows "droppable s1 F ys"
  unfolding droppable_def
proof
  fix p assume p: "p \<in> set ys"
  then have d: "managed s p" "p \<notin> F" "int (count_list (xs @ ys) p) \<le> rc s p"
    using assms(1) by (simp_all add: droppable_def)
  moreover have "rc s1 p = rc s p - int (count_list xs p)" using assms(2) d(1) by (simp add: dropped_def)
  ultimately show "managed s1 p \<and> p \<notin> F \<and> int (count_list ys p) \<le> rc s1 p"
    using managed_mem_step [OF assms(3)] by simp
qed

text \<open>The step of the loop on a present entry: drop the reference, clear the entry.\<close>

lemma unmap_step:
  assumes ok: "kmem_ok s" "tree_ok s r" and v: "bit (pte_of (mem s) r a) 0"
    and p: "p = PTE2PA (pte_of (mem s) r a)" "managed s p" "p \<notin> foot (mem s) r" "0 < rc s p"
  obtains s1 s2 where "kfree p s = Inr s1" "s2 = s1\<lparr>mem := store64 (mem s1) (leaf_ptr (mem s) r a) 0\<rparr>"
    "kmem_ok s2" "tree_ok s2 r" "foot (mem s2) r = foot (mem s) r" "touches (insert p (foot (mem s) r)) s s2"
    "\<And>vb. pte_of (mem s2) r vb = (if vpage vb = vpage a then 0 else pte_of (mem s) r vb)"
    "\<And>q. managed s q \<Longrightarrow> rc s2 q = (if q = p then rc s p - 1 else rc s q)"
    "\<And>b. 1 < rc s p \<Longrightarrow> align_down 12 b \<notin> foot (mem s) r \<Longrightarrow> mem s2 b = mem s b"
proof -
  obtain s1 where s1: "kfree p s = Inr s1" "kmem_ok s1" "touches {p} s s1"
    "\<And>q. managed s q \<Longrightarrow> rc s1 q = (if q = p then rc s p - 1 else rc s q)"
    "\<And>a. 1 < rc s p \<Longrightarrow> mem s1 a = mem s a"
    using kfree_touches [OF ok(1) p(2,4)] by metis
  have "rc s1 q = rc s q" if "q \<in> foot (mem s) r" for q
    using s1(4) [OF tree_okD(2) [OF ok(2) that]] that p(3) by auto
  note tf = tree_frame [OF ok(2) s1(3) _ this]
  have f: "tree_ok s1 r" "foot (mem s1) r = foot (mem s) r" "\<And>vb. pte_of (mem s1) r vb = pte_of (mem s) r vb"
    "leaf_ptr (mem s1) r a = leaf_ptr (mem s) r a"
    using tf p(3) by blast+
  have "leaf_ptr (mem s) r a \<noteq> 0" using leaf_ptr_0_pte [OF tree_okD(1) [OF ok(2)], of a] v by auto
  then have lp: "leaf_ptr (mem s1) r a \<noteq> 0" using f(4) by simp
  define s2 where "s2 = s1\<lparr>mem := store64 (mem s1) (leaf_ptr (mem s) r a) 0\<rparr>"
  note sl = set_leaf [OF s1(2) f(1) lp, of 0, unfolded f(4), folded s2_def]
  have t: "touches (insert p (foot (mem s) r)) s s2"
  proof (rule touches_trans [OF ok(1) touches_mono [OF s1(3)] extendsD(3) [OF sl(1)]])
    show "q \<in> insert p (foot (mem s) r) \<or> free_pg s q" if "q \<in> foot (mem s1) r" for q using that f(2) by simp
  qed simp
  have b: "mem s2 b = mem s b" if "1 < rc s p" "align_down 12 b \<notin> foot (mem s) r" for b
  proof -
    have "mem s2 b = mem s1 b"
    proof -
      obtain q where q: "pt_at (mem s1) r a 2 = Some q" "leaf_ptr (mem s) r a = entry q 0 a"
        using lp f(4) by (metis leaf_ptr_Some)
      have al: "page_aligned q" "q \<in> foot (mem s) r"
        using wf_treeD(1) [OF tree_okD(1) [OF f(1)] q(1)] pt_at_foot [OF q(1)] f(2) by simp_all
      have "\<not> in_range b (entry q 0 a) 8"
        using al that(2) by (auto simp: in_range_word entry_slot slot_entry_facts dest!: align_down_12_3)
      then show ?thesis by (simp add: s2_def q(2) store64_def le_put_def)
    qed
    then show ?thesis using s1(5) that(1) by simp
  qed
  show ?thesis
    using that [OF s1(1) s2_def extendsD(1,2) [OF sl(1)] _ t _ _ b] sl(2,4,5) f(2,3) s1(4) by simp
qed

lemma dropped_Nil: "dropped F [] s s' \<longleftrightarrow> (\<forall>q. managed s q \<longrightarrow> rc s' q = rc s q) \<and>
   (\<forall>a. managed s (align_down 12 a) \<longrightarrow> align_down 12 a \<notin> F \<longrightarrow> 0 < rc s' (align_down 12 a) \<longrightarrow> mem s' a = mem s a)"
  by (simp add: dropped_def)

lemma set_leaf_dropped:
  assumes "kmem_ok s" "tree_ok s r" "leaf_ptr (mem s) r va \<noteq> 0"
  shows "dropped (foot (mem s) r) [] s (s\<lparr>mem := store64 (mem s) (leaf_ptr (mem s) r va) v\<rparr>)"
  using extendsD(3) [OF set_leaf(1) [OF assms, of v]] unfolding touches_def dropped_Nil by (auto simp: free_pg_def)

lemma uvmunmap_loop_spec:
  assumes "kmem_ok s" "tree_ok s r" "page_aligned a" "unat a + n * 4096 \<le> 2 ^ 38"
    "lim = a + of_nat n * PGSIZE"
    "\<And>vb. in_range (vpage vb) a (n * 4096) \<Longrightarrow> bit (pte_of (mem s) r vb) 0 \<Longrightarrow> PTE_FLAGS (pte_of (mem s) r vb) \<noteq> PTE_V"
    "ps = (if do_free then unmap_list (pte_of (mem s) r) a n else [])" "droppable s (foot (mem s) r) ps"
  shows "\<exists>s'. uvmunmap_loop n r a lim do_free s = Inr s' \<and> kmem_ok s' \<and> tree_ok s' r \<and>
     foot (mem s') r = foot (mem s) r \<and> touches (set ps \<union> foot (mem s) r) s s' \<and>
     pte_of (mem s') r = unmapped a n (pte_of (mem s) r) \<and> dropped (foot (mem s) r) ps s s'"
  using assms
proof (induction n arbitrary: a s ps)
  case 0
  then show ?case by (simp add: dropped_Nil)
next
  case (Suc n)
  note st = page_range_step [OF Suc.prems(3,4)]
  let ?f = "pte_of (mem s) r" and ?F = "foot (mem s) r"
  let ?xs = "if do_free \<and> bit (?f a) 0 then [PTE2PA (?f a)] else []"
  let ?ys = "if do_free then unmap_list ?f (a + PGSIZE) n else []"
  have ps: "ps = ?xs @ ?ys" using Suc.prems(7) by simp
  have lt: "a < lim"
    unfolding Suc.prems(5) using Suc.prems(4) unat_word_ariths(1) [of a "of_nat (Suc n) * PGSIZE"]
    by (simp add: word_less_nat_alt PGSIZE_def unat_word_ariths unat_of_nat_u64)
  have vp: "vpage a = a" using st(3) Suc.prems(3) by simp
  have rng: "in_range (vpage vb) a (Suc n * 4096) \<longleftrightarrow> vpage vb = a \<or> in_range (vpage vb) (a + PGSIZE) (n * 4096)" for vb
    by (rule in_range_pages_Suc [OF Suc.prems(3) vpage_aligned st(4)])
  text \<open>One step, then the rest of the range.\<close>
  have rest: ?case
    if s1: "kmem_ok s1" "tree_ok s1 r" "foot (mem s1) r = ?F" "touches (set ?xs \<union> ?F) s s1"
      "\<And>vb. pte_of (mem s1) r vb = (if vpage vb = a then 0 else ?f vb)" "dropped ?F ?xs s s1"
    and u: "uvmunmap_loop (Suc n) r a lim do_free s = uvmunmap_loop n r (a + PGSIZE) lim do_free s1" for s1
  proof -
    have ys: "?ys = (if do_free then unmap_list (pte_of (mem s1) r) (a + PGSIZE) n else [])"
    proof -
      have "unmap_list ?f (a + PGSIZE) n = unmap_list (pte_of (mem s1) r) (a + PGSIZE) n"
      proof (rule unmap_list_cong [OF st(1,2)])
        fix x assume "page_aligned x" "x < MAXVA" "in_range x (a + PGSIZE) (n * 4096)"
        moreover from this have "x \<noteq> a" using not_in_range_next [OF Suc.prems(3) st(4)] by auto
        ultimately show "?f x = pte_of (mem s1) r x" by (simp add: s1(5))
      qed
      then show ?thesis by simp
    qed
    have "\<exists>s'. uvmunmap_loop n r (a + PGSIZE) lim do_free s1 = Inr s' \<and> kmem_ok s' \<and> tree_ok s' r \<and>
       foot (mem s') r = foot (mem s1) r \<and> touches (set ?ys \<union> foot (mem s1) r) s1 s' \<and>
       pte_of (mem s') r = unmapped (a + PGSIZE) n (pte_of (mem s1) r) \<and> dropped (foot (mem s1) r) ?ys s1 s'"
    proof (rule Suc.IH [OF s1(1,2) st(1,2) _ _ ys])
      show "lim = a + PGSIZE + of_nat n * PGSIZE" using Suc.prems(5) by (simp add: algebra_simps)
      show "PTE_FLAGS (pte_of (mem s1) r vb) \<noteq> PTE_V"
        if "in_range (vpage vb) (a + PGSIZE) (n * 4096)" "bit (pte_of (mem s1) r vb) 0" for vb
        using that Suc.prems(6) rng by (auto simp: s1(5) split: if_splits)
      show "droppable s1 (foot (mem s1) r) ?ys"
        using droppable_step [OF _ s1(6) touchesD(1) [OF s1(4)]] Suc.prems(8) ps s1(3) by simp
    qed
    then obtain s' where s': "uvmunmap_loop n r (a + PGSIZE) lim do_free s1 = Inr s'" "kmem_ok s'" "tree_ok s' r"
      "foot (mem s') r = ?F" "touches (set ?ys \<union> ?F) s1 s'"
      "pte_of (mem s') r = unmapped (a + PGSIZE) n (pte_of (mem s1) r)" "dropped ?F ?ys s1 s'"
      using s1(3) by auto
    have "touches (set ps \<union> ?F) s s'"
      using touches_trans [OF Suc.prems(1) touches_mono [OF s1(4)] s'(5), of "set ps \<union> ?F"] ps by auto
    moreover have "pte_of (mem s') r = unmapped a (Suc n) ?f"
    proof -
      have "pte_of (mem s1) r = (\<lambda>vb. if vpage vb = a then 0 else ?f vb)" using s1(5) by (simp add: fun_eq_iff)
      then show ?thesis by (intro ext) (simp only: s'(6) unmapped_Suc [OF Suc.prems(3) st(4), of ?f])
    qed
    moreover have "dropped ?F ps s s'"
      unfolding ps by (rule dropped_trans [OF s1(6) s'(7) touchesD(1) [OF s1(4)]])
    ultimately show ?thesis using u s'(1-4) by auto
  qed
  have w: "walk r a False s = Inr (leaf_ptr (mem s) r a, s)" using st(3) by (simp add: walk_ro not_le)
  consider (none) "leaf_ptr (mem s) r a = 0" | (inv) "leaf_ptr (mem s) r a \<noteq> 0" "\<not> bit (?f a) 0"
    | (keep) "leaf_ptr (mem s) r a \<noteq> 0" "bit (?f a) 0" "\<not> do_free"
    | (free) "leaf_ptr (mem s) r a \<noteq> 0" "bit (?f a) 0" "do_free" by blast
  then show ?case
  proof cases
    case none
    then have z: "?f a = 0" by (rule leaf_ptr_0_pte [OF tree_okD(1) [OF Suc.prems(2)]])
    have "?f vb = (if vpage vb = a then 0 else ?f vb)" for vb
      using z vp pte_of_vpage [of vb a "mem s" r] by auto
    then show ?thesis using none z lt w Suc.prems(1,2) by (intro rest [of s]) (auto simp: dropped_Nil)
  next
    case inv
    note sl = set_leaf [OF Suc.prems(1,2) inv(1), of 0] set_leaf_dropped [OF Suc.prems(1,2) inv(1), of 0]
    show ?thesis
      using inv lt w extendsD(1-3) [OF sl(1)] sl(2,4,6) vp leaf_ptr_load [OF inv(1)]
      by (intro rest [of "s\<lparr>mem := store64 (mem s) (leaf_ptr (mem s) r a) 0\<rparr>"]) simp_all
  next
    case keep
    note sl = set_leaf [OF Suc.prems(1,2) keep(1), of 0] set_leaf_dropped [OF Suc.prems(1,2) keep(1), of 0]
    have "PTE_FLAGS (?f a) \<noteq> PTE_V" using Suc.prems(6) [of a] keep(2) vp rng [of a] by simp
    then show ?thesis
      using keep lt w extendsD(1-3) [OF sl(1)] sl(2,4,6) vp leaf_ptr_load [OF keep(1)]
      by (intro rest [of "s\<lparr>mem := store64 (mem s) (leaf_ptr (mem s) r a) 0\<rparr>"]) simp_all
  next
    case free
    have "PTE_FLAGS (?f a) \<noteq> PTE_V" using Suc.prems(6) [of a] free(2) vp rng [of a] by simp
    have d: "managed s (PTE2PA (?f a))" "PTE2PA (?f a) \<notin> ?F" "0 < rc s (PTE2PA (?f a))"
      using Suc.prems(8) free ps by (auto simp: droppable_def)
    obtain s1 s2 where s2: "kfree (PTE2PA (?f a)) s = Inr s1" "s2 = s1\<lparr>mem := store64 (mem s1) (leaf_ptr (mem s) r a) 0\<rparr>"
      "kmem_ok s2" "tree_ok s2 r" "foot (mem s2) r = ?F" "touches (insert (PTE2PA (?f a)) ?F) s s2"
      "\<And>vb. pte_of (mem s2) r vb = (if vpage vb = vpage a then 0 else ?f vb)"
      "\<And>q. managed s q \<Longrightarrow> rc s2 q = (if q = PTE2PA (?f a) then rc s (PTE2PA (?f a)) - 1 else rc s q)"
      "\<And>b. 1 < rc s (PTE2PA (?f a)) \<Longrightarrow> align_down 12 b \<notin> ?F \<Longrightarrow> mem s2 b = mem s b"
      using unmap_step [OF Suc.prems(1,2) free(2) refl d] by metis
    have "dropped ?F [PTE2PA (?f a)] s s2"
      unfolding dropped_def
    proof (intro conjI allI impI)
      fix b assume b: "managed s (align_down 12 b)" "align_down 12 b \<notin> ?F" "0 < rc s2 (align_down 12 b)"
      show "mem s2 b = mem s b"
        using b s2(8) [OF b(1)] s2(9) [of b] touchesD(3) [OF s2(6), of b]
        by (cases "align_down 12 b = PTE2PA (?f a)") (auto simp: free_pg_def)
    qed (simp add: s2(8))
    then show ?thesis
      using free lt w s2(1-7) vp leaf_ptr_load [OF free(1)] \<open>PTE_FLAGS (?f a) \<noteq> PTE_V\<close>
      by (intro rest [of s2]) simp_all
  qed
qed

end
