(* ===== verification/Uspace.thy ===== *)
theory Uspace
  imports Uvm
begin

unbundle bit_operations_syntax

text \<open>
  All user address spaces together. The invariant \<open>vm_inv s R ext\<close> of the page tables
  with roots \<open>R\<close> says that the trees are well formed and share no table page, that the
  reference count of every page is the number of its mappings plus the references the
  kernel holds elsewhere, and that a page mapped more than once is not writable. The
  operations of \<^verbatim>\<open>vm.c\<close> keep it.
\<close>

section \<open>Mappings and references\<close>

text \<open>The user pages of the address spaces \<open>R\<close> that map the physical page \<open>p\<close>. The
  trampoline and the trapframe, the two topmost pages, are not counted: they are mapped
  without a reference.\<close>

definition maps :: "memory \<Rightarrow> u64 set \<Rightarrow> u64 \<Rightarrow> (u64 \<times> u64) set" where
  "maps m R p = {(r, v). r \<in> R \<and> vpage v = v \<and> v < TRAPFRAME \<and>
     bit (pte_of m r v) 0 \<and> PTE2PA (pte_of m r v) = p}"

definition tables :: "memory \<Rightarrow> u64 set \<Rightarrow> u64 set" where
  "tables m R = (\<Union>r \<in> R. foot m r)"

text \<open>Every page the kernel maps is readable.\<close>

definition leaf_ok :: "u64 \<Rightarrow> bool" where
  "leaf_ok pte \<longleftrightarrow> (bit pte 0 \<longrightarrow> bit pte 1)"

definition trees_ok :: "'z kst_scheme \<Rightarrow> u64 set \<Rightarrow> bool" where
  "trees_ok s R \<longleftrightarrow> (\<forall>r \<in> R. tree_ok s r) \<and>
     (\<forall>r \<in> R. \<forall>r' \<in> R. r \<noteq> r' \<longrightarrow> foot (mem s) r \<inter> foot (mem s) r' = {})"

definition leaves_ok :: "memory \<Rightarrow> u64 set \<Rightarrow> bool" where
  "leaves_ok m R \<longleftrightarrow> (\<forall>r \<in> R. \<forall>v. leaf_ok (pte_of m r v) \<and> (MAXVA \<le> vpage v \<longrightarrow> \<not> bit (pte_of m r v) 0))"

text \<open>Reference counts: the mappings, the table itself, and \<open>ext\<close> for the references the
  kernel holds elsewhere (trapframes, stacks, pipes, a page between \<open>kalloc\<close> and \<open>mappages\<close>).\<close>

definition counts_ok :: "'z kst_scheme \<Rightarrow> u64 set \<Rightarrow> (u64 \<Rightarrow> int) \<Rightarrow> bool" where
  "counts_ok s R ext \<longleftrightarrow>
     (\<forall>p. maps (mem s) R p \<noteq> {} \<longrightarrow> managed s p) \<and>
     (\<forall>p. managed s p \<longrightarrow>
        rc s p = ext p + int (card (maps (mem s) R p)) + (if p \<in> tables (mem s) R then 1 else 0))"

text \<open>Isolation: a page mapped twice, in one address space or in two, is not writable.\<close>

definition isolated :: "memory \<Rightarrow> u64 set \<Rightarrow> bool" where
  "isolated m R \<longleftrightarrow>
     (\<forall>p r v r' v'. (r, v) \<in> maps m R p \<longrightarrow> (r', v') \<in> maps m R p \<longrightarrow> (r, v) \<noteq> (r', v') \<longrightarrow>
        \<not> bit (pte_of m r v) 2)"

definition vm_inv :: "'z kst_scheme \<Rightarrow> u64 set \<Rightarrow> (u64 \<Rightarrow> int) \<Rightarrow> bool" where
  "vm_inv s R ext \<longleftrightarrow> kmem_ok s \<and> trees_ok s R \<and> leaves_ok (mem s) R \<and> counts_ok s R ext \<and> isolated (mem s) R"

lemma vm_invD:
  assumes "vm_inv s R ext"
  shows "kmem_ok s" "trees_ok s R" "leaves_ok (mem s) R" "counts_ok s R ext" "isolated (mem s) R"
    "r \<in> R \<Longrightarrow> tree_ok s r"
    "managed s p \<Longrightarrow> rc s p = ext p + int (card (maps (mem s) R p)) + (if p \<in> tables (mem s) R then 1 else 0)"
    "maps (mem s) R p \<noteq> {} \<Longrightarrow> managed s p" "p \<in> tables (mem s) R \<Longrightarrow> managed s p \<and> rc s p = 1"
    "r \<in> R \<Longrightarrow> r' \<in> R \<Longrightarrow> r \<noteq> r' \<Longrightarrow> foot (mem s) r \<inter> foot (mem s) r' = {}"
  using assms by (auto simp: vm_inv_def trees_ok_def counts_ok_def tables_def dest: tree_okD(2,3))

lemma maps_finite [simp]: "finite (maps m R p)"
  by simp

lemma maps_cong:
  assumes "\<And>r v. r \<in> R \<Longrightarrow> pte_of m' r v = pte_of m r v"
  shows "maps m' R p = maps m R p" "leaves_ok m' R = leaves_ok m R" "isolated m' R = isolated m R"
proof -
  show m: "maps m' R p = maps m R p" for p using assms by (auto simp: maps_def)
  show "leaves_ok m' R = leaves_ok m R" by (simp add: leaves_ok_def assms)
  have "(r, v) \<in> maps m R p \<Longrightarrow> r \<in> R" for r v p by (simp add: maps_def)
  then show "isolated m' R = isolated m R" unfolding isolated_def m using assms by metis
qed

text \<open>The invariant depends on the trees, the counts and the allocator only.\<close>

lemma vm_inv_cong:
  assumes "vm_inv s R ext" "kmem_ok s'" "mem_step s s'" "trees_ok s' R"
    "\<And>r v. r \<in> R \<Longrightarrow> pte_of (mem s') r v = pte_of (mem s) r v"
    "\<And>p. managed s p \<Longrightarrow> rc s' p - ext' p - (if p \<in> tables (mem s') R then 1 else 0) =
        rc s p - ext p - (if p \<in> tables (mem s) R then 1 else 0)"
  shows "vm_inv s' R ext'"
proof -
  have c: "maps (mem s') R p = maps (mem s) R p" "leaves_ok (mem s') R = leaves_ok (mem s) R"
    "isolated (mem s') R = isolated (mem s) R" for p
    using maps_cong [of R "mem s'" "mem s"] assms(5) by blast+
  note m = managed_mem_step [OF assms(3)]
  have "counts_ok s' R ext'"
    unfolding counts_ok_def c(1) m using vm_invD(7,8) [OF assms(1)] assms(6) by (auto simp: algebra_simps)
  then show ?thesis unfolding vm_inv_def c(2,3) using assms(2,4) vm_invD(3,5) [OF assms(1)] by simp
qed

text \<open>A change outside the trees.\<close>

lemma vm_frame:
  assumes i: "vm_inv s R ext" and k: "kmem_ok s'" and t: "touches X s s'" and d: "tables (mem s) R \<inter> X = {}"
    and r: "\<And>p. managed s p \<Longrightarrow> rc s' p = rc s p + \<delta> p" "\<And>p. p \<in> tables (mem s) R \<Longrightarrow> \<delta> p = 0"
  shows "vm_inv s' R (\<lambda>p. ext p + \<delta> p)"
    "\<And>r v. r \<in> R \<Longrightarrow> pte_of (mem s') r v = pte_of (mem s) r v" "tables (mem s') R = tables (mem s) R"
    "\<And>r v. r \<in> R \<Longrightarrow> leaf_ptr (mem s') r v = leaf_ptr (mem s) r v"
    "\<And>r. r \<in> R \<Longrightarrow> foot (mem s') r = foot (mem s) r"
proof -
  have tf: "tree_ok s' q" "foot (mem s') q = foot (mem s) q" "pte_of (mem s') q v = pte_of (mem s) q v"
    "leaf_ptr (mem s') q v = leaf_ptr (mem s) q v"
    if q: "q \<in> R" for q v
  proof -
    have sub: "foot (mem s) q \<subseteq> tables (mem s) R" using q by (auto simp: tables_def)
    have "rc s' p = rc s p" if "p \<in> foot (mem s) q" for p
      using that r(1) [of p] r(2) [of p] vm_invD(9) [OF i, where p = p] sub by auto
    note f = tree_frame [OF vm_invD(6) [OF i q] t _ this]
    show "tree_ok s' q" "foot (mem s') q = foot (mem s) q" "pte_of (mem s') q v = pte_of (mem s) q v"
      "leaf_ptr (mem s') q v = leaf_ptr (mem s) q v"
      using f d sub by blast+
  qed
  show tb: "tables (mem s') R = tables (mem s) R" by (simp add: tables_def tf(2))
  show "\<And>r v. r \<in> R \<Longrightarrow> pte_of (mem s') r v = pte_of (mem s) r v"
    "\<And>r v. r \<in> R \<Longrightarrow> leaf_ptr (mem s') r v = leaf_ptr (mem s) r v"
    "\<And>r. r \<in> R \<Longrightarrow> foot (mem s') r = foot (mem s) r" using tf by simp_all
  have "trees_ok s' R" using vm_invD(2) [OF i] tf(1,2) by (simp add: trees_ok_def)
  then show "vm_inv s' R (\<lambda>p. ext p + \<delta> p)"
    using vm_inv_cong [OF i k touchesD(1) [OF t], where ext' = "\<lambda>p. ext p + \<delta> p"] tf(3) r(1) tb by simp
qed

text \<open>A tree that gains table pages and keeps its map.\<close>

lemma vm_grow:
  assumes i: "vm_inv s R ext" and r: "r \<in> R" and e: "extends r s s'"
    and f: "\<And>v. pte_of (mem s') r v = pte_of (mem s) r v"
  shows "vm_inv s' R ext" "\<And>r v. r \<in> R \<Longrightarrow> pte_of (mem s') r v = pte_of (mem s) r v"
    "tables (mem s) R \<subseteq> tables (mem s') R"
    "\<And>q. q \<in> tables (mem s') R \<Longrightarrow> q \<notin> tables (mem s) R \<Longrightarrow> free_pg s q"
    "\<And>q. managed s q \<Longrightarrow> 0 < rc s q \<Longrightarrow> rc s' q = rc s q"
proof -
  note d = extendsD [OF e] and k = vm_invD(1) [OF i]
  have o: "tree_ok s' q" "foot (mem s') q = foot (mem s) q" "pte_of (mem s') q v = pte_of (mem s) q v"
    "foot (mem s') r \<inter> foot (mem s') q = {}" if "q \<in> R" "q \<noteq> r" for q v
    using extends_other [OF k e vm_invD(6) [OF i r] vm_invD(6) [OF i that(1)]] vm_invD(10) [OF i r that(1)] that(2)
    by blast+
  have tr: "trees_ok s' R"
    unfolding trees_ok_def using d(2) o r vm_invD(10) [OF i] by (metis Int_commute)
  show p: "\<And>r v. r \<in> R \<Longrightarrow> pte_of (mem s') r v = pte_of (mem s) r v" using f o(3) by metis
  show sub: "tables (mem s) R \<subseteq> tables (mem s') R"
    using d(4) o(2) r unfolding tables_def by (metis (no_types, lifting) UN_mono subset_refl)
  have new: "q \<in> foot (mem s') r" "q \<notin> foot (mem s) r" if "q \<in> tables (mem s') R" "q \<notin> tables (mem s) R" for q
    using that o(2) r unfolding tables_def by blast+
  show fr: "free_pg s q" if "q \<in> tables (mem s') R" "q \<notin> tables (mem s) R" for q
    using new [OF that] d(5) [of q] tree_okD(2) [OF d(2), of q] d(8) [of q] by (simp add: free_pg_def)
  have old: "q \<notin> tables (mem s) R \<Longrightarrow> q \<notin> foot (mem s) r" for q using r by (auto simp: tables_def)
  have nt: "q \<notin> tables (mem s') R \<Longrightarrow> q \<notin> foot (mem s') r" for q using r by (auto simp: tables_def)
  have keep: "q \<in> tables (mem s) R \<Longrightarrow> q \<notin> foot (mem s') r \<or> q \<in> foot (mem s) r" for q
    using d(5) [of q] vm_invD(9) [OF i, of q] by force
  show "rc s' q = rc s q" if "managed s q" "0 < rc s q" for q
    using that d(5,6) [of q] by fastforce
  have "rc s' p - ext p - (if p \<in> tables (mem s') R then 1 else 0) =
        rc s p - ext p - (if p \<in> tables (mem s) R then 1 else 0)" if m: "managed s p" for p
  proof (cases "p \<in> tables (mem s) R")
    case True
    then show ?thesis using d(6) [OF m] keep sub by auto
  next
    case False
    show ?thesis
    proof (cases "p \<in> tables (mem s') R")
      case True
      then show ?thesis
        using False new [OF True False] fr [OF True False] tree_okD(3) [OF d(2), of p] by (simp add: free_pg_def)
    next
      case F: False
      then show ?thesis using False nt [OF F] d(6) [OF m] by simp
    qed
  qed
  then show "vm_inv s' R ext" using vm_inv_cong [OF i d(1) d(7) tr p, where ext' = ext] by blast
qed

section \<open>Writing one entry\<close>

lemma extends_roots:
  assumes i: "vm_inv s R ext" and r: "r \<in> R" and e: "extends r s s'" and q: "q \<in> R" "q \<noteq> r"
  shows "tree_ok s' q" "foot (mem s') q = foot (mem s) q" "pte_of (mem s') q v = pte_of (mem s) q v"
    "leaf_ptr (mem s') q v = leaf_ptr (mem s) q v" "foot (mem s') r \<inter> foot (mem s') q = {}"
  using extends_other [OF vm_invD(1) [OF i] e vm_invD(6) [OF i r] vm_invD(6) [OF i q(1)]] vm_invD(10) [OF i r q(1)] q(2)
  by blast+

lemma card_swap:
  assumes "finite A" "B = A - {x} \<union> (if c then {x} else {})"
  shows "int (card B) = int (card A) - (if x \<in> A then 1 else 0) + (if c then 1 else 0)"
proof -
  have "int (card (A - {x})) = int (card A) - (if x \<in> A then 1 else 0)"
    using assms(1) card_Suc_Diff1 [of A x] by (cases "x \<in> A") auto
  moreover have "int (card B) = int (card (A - {x})) + (if c then 1 else 0)"
    unfolding assms(2) using assms(1) by (cases c) (simp_all add: Un_insert_right del: insert_Diff_single)
  ultimately show ?thesis by simp
qed

text \<open>References that appear and vanish when the entry of page \<open>a\<close> changes to \<open>v\<close>.\<close>

definition ref_of :: "u64 \<Rightarrow> u64 \<Rightarrow> u64 \<Rightarrow> int" where
  "ref_of a v q = (if a < TRAPFRAME \<and> bit v 0 \<and> PTE2PA v = q then 1 else 0)"

lemma vm_set:
  fixes v :: u64
  assumes i: "vm_inv s R ext" and r: "r \<in> R" and a: "page_aligned a" "a < MAXVA"
    and lp: "leaf_ptr (mem s) r a \<noteq> 0" and lf: "leaf_ok v"
    and own: "bit v 0 \<Longrightarrow> a < TRAPFRAME \<Longrightarrow> managed s (PTE2PA v)"
    and iso: "\<And>r' v'. bit v 0 \<Longrightarrow> a < TRAPFRAME \<Longrightarrow> (r', v') \<in> maps (mem s) R (PTE2PA v) \<Longrightarrow> (r', v') \<noteq> (r, a) \<Longrightarrow>
       \<not> bit v 2 \<and> \<not> bit (pte_of (mem s) r' v') 2"
  defines "s' \<equiv> s\<lparr>mem := store64 (mem s) (leaf_ptr (mem s) r a) v\<rparr>"
  shows "vm_inv s' R (\<lambda>q. ext q + ref_of a (pte_of (mem s) r a) q - ref_of a v q)"
    "\<And>r' vb. r' \<in> R \<Longrightarrow> pte_of (mem s') r' vb = (if r' = r \<and> vpage vb = a then v else pte_of (mem s) r' vb)"
    "tables (mem s') R = tables (mem s) R" "\<And>q. rc s' q = rc s q" "touches (foot (mem s) r) s s'"
    "\<And>r' vb. r' \<in> R \<Longrightarrow> leaf_ptr (mem s') r' vb = leaf_ptr (mem s) r' vb"
proof -
  note ok = vm_invD(1) [OF i] vm_invD(6) [OF i r]
  note sl = set_leaf [OF ok lp, of v, folded s'_def]
  note o = extends_roots [OF i r sl(1)]
  have vp: "vpage a = a" using a by simp
  show p: "pte_of (mem s') r' vb = (if r' = r \<and> vpage vb = a then v else pte_of (mem s) r' vb)" if "r' \<in> R" for r' vb
    using that o(3) sl(4) vp by (cases "r' = r") auto
  have ft: "foot (mem s') r' = foot (mem s) r'" if "r' \<in> R" for r' using that o(2) sl(2) by (cases "r' = r") auto
  show tb: "tables (mem s') R = tables (mem s) R" by (simp add: tables_def ft)
  show "\<And>q. rc s' q = rc s q" by (rule sl(5))
  show t: "touches (foot (mem s) r) s s'" by (rule extendsD(3) [OF sl(1)])
  show "leaf_ptr (mem s') r' vb = leaf_ptr (mem s) r' vb" if "r' \<in> R" for r' vb
    using that o(4) sl(3) by (cases "r' = r") auto
  have tr: "trees_ok s' R"
    using vm_invD(2) [OF i] o(1) extendsD(2) [OF sl(1)] ft unfolding trees_ok_def by metis
  have mp: "maps (mem s') R q = maps (mem s) R q - {(r, a)} \<union>
      (if a < TRAPFRAME \<and> bit v 0 \<and> PTE2PA v = q then {(r, a)} else {})" for q
    using r vp by (auto simp: maps_def p split: if_splits)
  have ra: "(r, a) \<in> maps (mem s) R q \<longleftrightarrow> a < TRAPFRAME \<and> bit (pte_of (mem s) r a) 0 \<and> PTE2PA (pte_of (mem s) r a) = q" for q
    using r vp by (simp add: maps_def)
  have mg: "managed s' q = managed s q" for q by (simp add: s'_def)
  have "counts_ok s' R (\<lambda>q. ext q + ref_of a (pte_of (mem s) r a) q - ref_of a v q)"
    unfolding counts_ok_def mg tb sl(5)
  proof (intro conjI allI impI)
    fix q assume "maps (mem s') R q \<noteq> {}"
    then show "managed s q" using vm_invD(8) [OF i, of q] own unfolding mp by (auto split: if_splits)
  next
    fix q assume m: "managed s q"
    show "rc s q = ext q + ref_of a (pte_of (mem s) r a) q - ref_of a v q + int (card (maps (mem s') R q)) +
        (if q \<in> tables (mem s) R then 1 else 0)"
      using vm_invD(7) [OF i m] card_swap [OF maps_finite mp, of q] by (simp add: ra ref_of_def)
  qed
  moreover have "leaves_ok (mem s') R"
    using vm_invD(3) [OF i] lf a(2) unfolding leaves_ok_def by (auto simp: p)
  moreover have "isolated (mem s') R"
    unfolding isolated_def
  proof (intro allI impI notI)
    fix q r1 v1 r2 v2
    assume m1: "(r1, v1) \<in> maps (mem s') R q" and m2: "(r2, v2) \<in> maps (mem s') R q" and ne: "(r1, v1) \<noteq> (r2, v2)"
      and w: "bit (pte_of (mem s') r1 v1) 2"
    have pv: "(x, y) \<in> maps (mem s') R q \<Longrightarrow> (x, y) \<noteq> (r, a) \<Longrightarrow>
       pte_of (mem s') x y = pte_of (mem s) x y \<and> (x, y) \<in> maps (mem s) R q" for x y
      unfolding mp by (auto simp: maps_def p split: if_splits)
    have new: "(r, a) \<in> maps (mem s') R q \<Longrightarrow> a < TRAPFRAME \<and> bit v 0 \<and> PTE2PA v = q \<and> pte_of (mem s') r a = v"
      using r vp unfolding mp by (auto simp: p split: if_splits)
    consider "(r1, v1) = (r, a)" | "(r2, v2) = (r, a)" | "(r1, v1) \<noteq> (r, a)" "(r2, v2) \<noteq> (r, a)" by blast
    then show False
    proof cases
      case 1
      then show False using new m1 pv [OF m2] iso [of r2 v2] ne w by auto
    next
      case 2
      then show False using new m2 pv [OF m1] iso [of r1 v1] ne w by auto
    next
      case 3
      then show False using pv m1 m2 ne w vm_invD(5) [OF i] unfolding isolated_def by metis
    qed
  qed
  ultimately show "vm_inv s' R (\<lambda>q. ext q + ref_of a (pte_of (mem s) r a) q - ref_of a v q)"
    using extendsD(1) [OF sl(1)] tr by (simp add: vm_inv_def)
qed

lemma ref_of_0 [simp]: "ref_of a 0 q = 0"
  by (simp add: ref_of_def)

text \<open>\<open>mappages\<close> of one page that was not mapped.\<close>

lemma vm_mappages:
  assumes i: "vm_inv s R ext" and r: "r \<in> R" and a: "page_aligned a" "a < MAXVA" "\<not> bit (pte_of (mem s) r a) 0"
    and pa: "page_aligned pa" "flags_ok perm" "leaf_ok (perm OR PTE_V)"
    and own: "a < TRAPFRAME \<Longrightarrow> managed s pa \<and> 0 < rc s pa"
    and iso: "\<And>r' v'. a < TRAPFRAME \<Longrightarrow> (r', v') \<in> maps (mem s) R pa \<Longrightarrow>
       \<not> bit perm 2 \<and> \<not> bit (pte_of (mem s) r' v') 2"
  obtains (mapped) s' where "mappages r a PGSIZE pa perm s = Inr (0, s')"
      "vm_inv s' R (\<lambda>q. ext q - (if a < TRAPFRAME \<and> q = pa then 1 else 0))" "touches (foot (mem s) r) s s'"
      "\<And>r' vb. r' \<in> R \<Longrightarrow> pte_of (mem s') r' vb =
         (if r' = r \<and> vpage vb = a then PA2PTE pa OR perm OR PTE_V else pte_of (mem s) r' vb)"
      "\<And>q. managed s q \<Longrightarrow> 0 < rc s q \<Longrightarrow> rc s' q = rc s q"
  | (nomem) s' where "mappages r a PGSIZE pa perm s = Inr (-1, s')"
      "vm_inv s' R ext" "touches (foot (mem s) r) s s'"
      "\<And>r' vb. r' \<in> R \<Longrightarrow> pte_of (mem s') r' vb = pte_of (mem s) r' vb"
      "\<And>q. managed s q \<Longrightarrow> 0 < rc s q \<Longrightarrow> rc s' q = rc s q"
proof -
  note ok = vm_invD(1) [OF i] vm_invD(6) [OF i r]
  obtain pte s1 where w: "walk r a True s = Inr (pte, s1)" "extends r s s1"
    "\<And>vb. pte_of (mem s1) r vb = pte_of (mem s) r vb" "pte = 0 \<or> pte = leaf_ptr (mem s1) r a"
    using walk_alloc [OF ok a(2)] by metis
  note g = vm_grow [OF i r w(2,3)]
  have mp: "mappages r a PGSIZE pa perm s = mappages_loop (Suc 0) r a a pa perm s"
    using a(1) by (simp add: mappages_def page_aligned_def) (simp add: PGSIZE_def)
  show ?thesis
  proof (cases "pte = 0")
    case True
    then have "mappages r a PGSIZE pa perm s = Inr (-1, s1)" using w(1) mp by simp
    then show ?thesis by (rule nomem [OF _ g(1) extendsD(3) [OF w(2)] g(2) g(5)])
  next
    case False
    with w(4) have pt: "pte = leaf_ptr (mem s1) r a" "leaf_ptr (mem s1) r a \<noteq> 0" by auto
    let ?v = "PA2PTE pa OR perm OR PTE_V"
    have fl: "flags_ok (perm OR PTE_V)" using pa(2) by simp
    have va: "PTE2PA ?v = pa" using PTE2PA_PA2PTE [OF pa(1) fl] by (simp add: or.assoc)
    have b: "bit ?v i = bit (perm OR PTE_V) i" if "i < 10" for i
      using bit_PA2PTE_low [OF that, of pa "perm OR PTE_V"] by (simp add: or.assoc)
    have m1: "maps (mem s1) R q = maps (mem s) R q" for q using maps_cong(1) [of R "mem s1" "mem s"] g(2) by blast
    have lf: "leaf_ok ?v" using pa(3) by (simp add: leaf_ok_def b)
    define s2 where "s2 = s1\<lparr>mem := store64 (mem s1) pte ?v\<rparr>"
    have b2: "bit ?v 2 = bit perm 2" using b [of 2] by (simp add: bit_simps)
    note vs = vm_set [OF g(1) r a(1,2) pt(2) lf, unfolded va m1 pt(1) [symmetric], folded s2_def]
    have own1: "managed s1 pa" if "a < TRAPFRAME" using own [OF that] extendsD(8) [OF w(2)] by simp
    have iso1: "\<not> bit ?v 2 \<and> \<not> bit (pte_of (mem s1) r' v') 2" if "a < TRAPFRAME" "(r', v') \<in> maps (mem s) R pa" for r' v'
      using iso [OF that] g(2) [of r' v'] that(2) by (auto simp: b2 maps_def)
    have l: "\<not> bit (load64 (mem s1) pte) 0" using leaf_ptr_load [OF pt(2)] w(3) a(3) by (simp add: pt(1))
    have res: "mappages r a PGSIZE pa perm s = Inr (0, s2)"
      using w(1) mp False l by (simp add: Let_def s2_def)
    have rf: "ref_of a (pte_of (mem s1) r a) q = 0" "ref_of a ?v q = (if a < TRAPFRAME \<and> q = pa then 1 else 0)" for q
      using a(3) w(3) b [of 0] by (auto simp: ref_of_def va bit_simps)
    have inv: "vm_inv s2 R (\<lambda>q. ext q - (if a < TRAPFRAME \<and> q = pa then 1 else 0))"
      using vs(1) own1 iso1 by (simp add: rf)
    have pp: "pte_of (mem s2) r' vb = (if r' = r \<and> vpage vb = a then ?v else pte_of (mem s) r' vb)" if "r' \<in> R" for r' vb
      using vs(2) [of r' vb] own1 iso1 that g(2) by simp
    have rr: "rc s2 q = rc s1 q" for q by (simp add: s2_def)
    have new: "q \<in> foot (mem s) r \<or> free_pg s q" if "q \<in> foot (mem s1) r" for q
      using that extendsD(5) [OF w(2), of q] tree_okD(2) [OF extendsD(2) [OF w(2)], of q] extendsD(8) [OF w(2), of q]
      by (auto simp: free_pg_def)
    have "touches (foot (mem s1) r) s1 s2" using vs(5) own1 iso1 by simp
    then have tt: "touches (foot (mem s) r) s s2"
      by (rule touches_trans [OF ok(1) extendsD(3) [OF w(2)]]) (rule new)
    show ?thesis by (rule mapped [OF res inv tt pp]) (use g(5) rr in auto)
  qed
qed

section \<open>Consequences of the counts\<close>

lemma vm_mapped:
  assumes i: "vm_inv s R ext" and n: "0 \<le> ext p" and m: "maps (mem s) R p \<noteq> {}"
  shows "managed s p" "0 < rc s p" "p \<notin> tables (mem s) R" "page_aligned p"
proof -
  show mg: "managed s p" by (rule vm_invD(8) [OF i m])
  have c: "0 < card (maps (mem s) R p)" using m maps_finite by (simp add: card_gt_0_iff)
  show nt: "p \<notin> tables (mem s) R"
    using vm_invD(7) [OF i mg] vm_invD(9) [OF i, of p] c n by auto
  show "0 < rc s p" using vm_invD(7) [OF i mg] c n nt by simp
  show "page_aligned p" by (rule managedD(1) [OF mg])
qed

lemma vm_free:
  assumes "vm_inv s R ext" "0 \<le> ext p" "free_pg s p"
  shows "maps (mem s) R p = {}" "p \<notin> tables (mem s) R" "ext p = 0"
proof -
  have m: "managed s p" "rc s p = 0" using assms(3) by (simp_all add: free_pg_def)
  show "maps (mem s) R p = {}" using vm_mapped(2) [OF assms(1,2)] m by force
  show "p \<notin> tables (mem s) R" using vm_invD(9) [OF assms(1), of p] m by auto
  then show "ext p = 0" using vm_invD(7) [OF assms(1) m(1)] m(2) assms(2) by simp
qed

text \<open>A fresh page with any contents: the other pages are as before.\<close>

lemma kalloc_fresh:
  assumes "kmem_ok s" "kalloc s = Inr (pg, s1)" "pg \<noteq> 0" "\<forall>b. align_down 12 b \<noteq> pg \<longrightarrow> m b = mem s b"
  shows "kmem_ok (s1\<lparr>mem := m\<rparr>)" "touches {} s (s1\<lparr>mem := m\<rparr>)"
    "\<And>q. managed s q \<Longrightarrow> rc (s1\<lparr>mem := m\<rparr>) q = rc s q + (if q = pg then 1 else 0)" "free_pg s pg"
    "page_aligned pg" "\<And>b. mem s1 b = (if align_down 12 b = pg then 5 else mem s b)" "mem_step s s1"
proof -
  note z = kalloc_zeroedD [OF assms(1-3)]
  show f: "free_pg s pg" "page_aligned pg" by (rule z(1,2))+
  show r: "rc (s1\<lparr>mem := m\<rparr>) q = rc s q + (if q = pg then 1 else 0)" if "managed s q" for q
    using z(6) [OF that, of m] z(1) by (simp add: free_pg_def)
  show ms: "mem_step s s1" using z(7) [of "mem s1"] by simp
  let ?z = "s1\<lparr>mem := fill (mem s) pg 0 4096\<rparr>"
  have "m b = mem ?z b" if "free_pg ?z (align_down 12 b)" for b
  proof -
    have "align_down 12 b \<noteq> pg" using that z(6) [of pg "mem ?z"] f(1) by (auto simp: free_pg_def)
    then show ?thesis using assms(4) f(2) by (simp add: fill_other)
  qed
  then have "kmem_ok (?z\<lparr>mem := m\<rparr>)" by (rule kmem_ok_mem [OF z(3)])
  then show "kmem_ok (s1\<lparr>mem := m\<rparr>)" by simp
  have nn: "managed s q \<Longrightarrow> 0 < rc s q \<Longrightarrow> 0 < rc s1 q" for q using r [of q] by auto
  have b: "m b = mem s b" if "\<not> free_pg s (align_down 12 b)" for b using that f(1) assms(4) by metis
  show "touches {} s (s1\<lparr>mem := m\<rparr>)" unfolding touches_def using z(7) nn b by simp
  show "mem s1 b = (if align_down 12 b = pg then 5 else mem s b)" for b
    using f(2) by (simp add: z(8) fill_same fill_other)
qed

lemma vm_inv_ext_cong: "vm_inv s R e \<Longrightarrow> (\<And>q. e q = e' q) \<Longrightarrow> vm_inv s R e'"
  by (metis ext)

lemma vm_kalloc:
  assumes "vm_inv s R ext" "0 \<le> ext pg" "kalloc s = Inr (pg, s1)" "pg \<noteq> 0" "\<forall>b. align_down 12 b \<noteq> pg \<longrightarrow> m b = mem s b"
  shows "vm_inv (s1\<lparr>mem := m\<rparr>) R (\<lambda>q. ext q + (if q = pg then 1 else 0))"
    "\<And>r v. r \<in> R \<Longrightarrow> pte_of m r v = pte_of (mem s) r v" "tables m R = tables (mem s) R"
    "\<And>r v. r \<in> R \<Longrightarrow> leaf_ptr m r v = leaf_ptr (mem s) r v" "\<And>r. r \<in> R \<Longrightarrow> foot m r = foot (mem s) r"
proof -
  note k = kalloc_fresh [OF vm_invD(1) [OF assms(1)] assms(3-5)]
  have "pg \<notin> tables (mem s) R" by (rule vm_free(2) [OF assms(1,2) k(4)])
  note f = vm_frame [OF assms(1) k(1,2), where \<delta> = "\<lambda>q. if q = pg then 1 else 0"]
  show "vm_inv (s1\<lparr>mem := m\<rparr>) R (\<lambda>q. ext q + (if q = pg then 1 else 0))"
    "\<And>r v. r \<in> R \<Longrightarrow> pte_of m r v = pte_of (mem s) r v" "tables m R = tables (mem s) R"
    "\<And>r v. r \<in> R \<Longrightarrow> leaf_ptr m r v = leaf_ptr (mem s) r v" "\<And>r. r \<in> R \<Longrightarrow> foot m r = foot (mem s) r"
    using f k(3) \<open>pg \<notin> tables (mem s) R\<close> by force+
qed

lemma vm_kfree:
  assumes "vm_inv s R ext" "managed s p" "0 < rc s p" "p \<notin> tables (mem s) R"
  obtains s' where "kfree p s = Inr s'" "vm_inv s' R (\<lambda>q. ext q - (if q = p then 1 else 0))" "touches {p} s s'"
    "\<And>r v. r \<in> R \<Longrightarrow> pte_of (mem s') r v = pte_of (mem s) r v"
    "\<And>q. managed s q \<Longrightarrow> rc s' q = rc s q - (if q = p then 1 else 0)" "\<And>b. 1 < rc s p \<Longrightarrow> mem s' b = mem s b"
    "tables (mem s') R = tables (mem s) R"
proof -
  obtain s' where k: "kfree p s = Inr s'" "kmem_ok s'" "touches {p} s s'"
    "\<And>q. managed s q \<Longrightarrow> rc s' q = (if q = p then rc s p - 1 else rc s q)" "\<And>a. 1 < rc s p \<Longrightarrow> mem s' a = mem s a"
    using kfree_touches [OF vm_invD(1) [OF assms(1)] assms(2,3)] by metis
  have r: "rc s' q = rc s q + (if q = p then -1 else 0)" if "managed s q" for q using k(4) [OF that] by simp
  have d: "tables (mem s) R \<inter> {p} = {}" and z: "q \<in> tables (mem s) R \<Longrightarrow> (if q = p then -1 else 0 :: int) = 0" for q
    using assms(4) by auto
  note f = vm_frame [OF assms(1) k(2,3) d r z]
  have "vm_inv s' R (\<lambda>q. ext q - (if q = p then 1 else 0))"
    by (rule vm_inv_ext_cong [OF f(1)]) (simp_all split: if_split)
  then show ?thesis using that [OF k(1) _ k(3) f(2) _ k(5) f(3)] r by auto
qed

section \<open>cow_handler\<close>

lemma managed_small: "managed s p \<Longrightarrow> unat p + 4096 < 2 ^ 64"
  by (drule managedD(3)) (simp add: word_less_nat_alt PHYSTOP_def KERNBASE_def)

lemma memmove_page:
  assumes "page_aligned p" "page_aligned q" "managed s q"
  shows "memmove m p q 4096 a = (if align_down 12 a = p then m (q + (a - p)) else m a)"
  using memmove_copy [of q 4096 m p] managed_small [OF assms(3)] in_range_page [OF assms(1), of a]
  by (simp add: copy_def)

lemma TRAPFRAME_MAXVA: "TRAPFRAME < MAXVA"
  by (simp add: TRAPFRAME_def TRAMPOLINE_def MAXVA_def PGSIZE_def)

definition cow_flags :: "u64 \<Rightarrow> u64" where
  "cow_flags pte = (PTE_FLAGS pte OR PTE_W) AND NOT PTE_COW"

lemma cow_flags_ok [simp]: "flags_ok (cow_flags e)"
  by (simp add: cow_flags_def)

lemma bit_cow_flags: "bit (cow_flags e) i \<longleftrightarrow> i < 10 \<and> i \<noteq> 8 \<and> (bit e i \<or> i = 2)"
  by (auto simp: cow_flags_def bit_simps bit_PTE_FLAGS)

lemma vm_cow:
  assumes i: "vm_inv s R ext" and n: "\<And>q. 0 \<le> ext q" and r: "r \<in> R"
    and a: "a = align_down 12 va" "a < TRAPFRAME" and p: "pa = PTE2PA (pte_of (mem s) r a)"
    and v: "bit (pte_of (mem s) r a) 0" "bit (pte_of (mem s) r a) 8"
  obtains (nomem) "cow_handler r va s = Inr (-1, s)"
  | (copied) pg s' where "cow_handler r va s = Inr (0, s')" "vm_inv s' R ext" "free_pg s pg"
      "\<And>r' vb. r' \<in> R \<Longrightarrow> pte_of (mem s') r' vb =
         (if r' = r \<and> vpage vb = a then PA2PTE pg OR cow_flags (pte_of (mem s) r a) else pte_of (mem s) r' vb)"
      "\<And>b. align_down 12 b = pg \<Longrightarrow> mem s' b = mem s (pa + (b - pg))"
      "touches (insert pa (foot (mem s) r)) s s'"
      "\<And>b. 1 < rc s pa \<Longrightarrow> align_down 12 b = pa \<Longrightarrow> mem s' b = mem s b"
      "\<And>q. managed s q \<Longrightarrow> rc s' q = rc s q + (if q = pg then 1 else 0) - (if q = pa then 1 else 0)"
proof -
  have al: "page_aligned a" "a < MAXVA" using a order_less_trans [OF _ TRAPFRAME_MAXVA] by auto
  have pg: "PGROUNDDOWN va = a" by (simp add: PGROUNDDOWN_align_down a(1))
  let ?e = "pte_of (mem s) r a"
  have mp: "(r, a) \<in> maps (mem s) R pa" using r al a(2) v(1) p by (simp add: maps_def)
  then have mp': "maps (mem s) R pa \<noteq> {}" by auto
  note pm = vm_mapped [OF i n mp']
  have lp: "leaf_ptr (mem s) r a \<noteq> 0" using leaf_ptr_0_pte [OF tree_okD(1) [OF vm_invD(6) [OF i r]], of a] v(1) by auto
  note ld = leaf_ptr_load [OF lp]
  obtain pg0 s1 where k: "kalloc s = Inr (pg0, s1)"
    using kmem.alloc_law [OF vm_invD(1) [OF i]] by blast
  show ?thesis
  proof (cases "pg0 = 0")
    case True
    then have "s1 = s" using kmem.alloc_law [OF vm_invD(1) [OF i]] k kmem.nil_no_page [OF vm_invD(1) [OF i]] by auto
    then have "cow_handler r va s = Inr (-1, s)"
      using k True lp v al(2) by (simp add: cow_handler_def pg Let_def walk_ro ld not_le)
    then show ?thesis by (rule nomem)
  next
    case False
    let ?m = "memmove (mem s1) pg0 pa 4096"
    note kf = kalloc_fresh [OF vm_invD(1) [OF i] k False]
    have "\<forall>b. align_down 12 b \<noteq> pg0 \<longrightarrow> mem s b = mem s b" by simp
    note kf0 = kf [OF this]
    have f: "free_pg s pg0" "page_aligned pg0" and s1: "\<And>b. mem s1 b = (if align_down 12 b = pg0 then 5 else mem s b)"
      using kf0(4-6) by blast+
    have ne: "pg0 \<noteq> pa" using f(1) pm(2) by (auto simp: free_pg_def)
    have off: "align_down 12 (pa + (b - pg0)) = pa" if "align_down 12 b = pg0" for b
      using that in_range_page [OF f(2), of b] align_down_add_offset [of 12 pa "b - pg0"] pm(4)
      by (simp add: in_range_def page_aligned_iff)
    have m: "?m b = (if align_down 12 b = pg0 then mem s (pa + (b - pg0)) else mem s b)" for b
      using memmove_page [OF f(2) pm(4,1), of "mem s1" b] s1 off [of b] ne by auto
    have mo: "\<forall>b. align_down 12 b \<noteq> pg0 \<longrightarrow> ?m b = mem s b" by (simp add: m)
    define s2 where "s2 = s1\<lparr>mem := ?m\<rparr>"
    note vk = vm_kalloc [OF i n k False mo, folded s2_def]
    note kf' = kf [OF mo, folded s2_def]
    have ms2: "mem s2 = ?m" by (simp add: s2_def)
    let ?v = "PA2PTE pg0 OR cow_flags ?e"
    have va: "PTE2PA ?v = pg0" by (rule PTE2PA_PA2PTE [OF f(2)]) simp
    have vb: "bit ?v 0" "bit ?v 2" using v(1) by (simp_all add: bit_PA2PTE_low bit_cow_flags)
    have e2: "pte_of (mem s2) r' vb = pte_of (mem s) r' vb" if "r' \<in> R" for r' vb using vk(2) [OF that] by (simp add: ms2)
    have l2: "leaf_ptr (mem s2) r a = leaf_ptr (mem s) r a" using vk(4) [OF r] by (simp add: ms2)
    have m2: "maps (mem s2) R q = maps (mem s) R q" for q using maps_cong(1) [of R "mem s2" "mem s"] e2 by blast
    have none: "maps (mem s2) R pg0 = {}" using vm_free(1) [OF i n f(1)] m2 by simp
    have mg2: "managed s2 q = managed s q" for q using managed_mem_step [OF touchesD(1) [OF kf'(2)]] by simp
    define s3 where "s3 = s2\<lparr>mem := store64 (mem s2) (leaf_ptr (mem s2) r a) ?v\<rparr>"
    have "bit ?e 1" using vm_invD(3) [OF i] r v(1) by (auto simp: leaves_ok_def leaf_ok_def)
    then have lf: "leaf_ok ?v" by (simp add: leaf_ok_def bit_PA2PTE_low bit_cow_flags)
    have own: "managed s2 (PTE2PA ?v)" using f(1) by (simp add: va mg2 free_pg_def)
    note vs = vm_set [OF vk(1) r al lp [folded l2] lf own, folded s3_def, unfolded va none]
    have inv3: "vm_inv s3 R (\<lambda>q. ext q + (if q = pa then 1 else 0))"
    proof (rule vm_inv_ext_cong [OF vs(1)])
      show "ext q + (if q = pg0 then 1 else 0) + ref_of a (pte_of (mem s2) r a) q - ref_of a ?v q =
          ext q + (if q = pa then 1 else 0)" for q
        using e2 [OF r, of a] v(1) vb(1) a(2) p by (auto simp: ref_of_def va)
    qed simp
    have p3: "pte_of (mem s3) r' vb = (if r' = r \<and> vpage vb = a then ?v else pte_of (mem s) r' vb)" if "r' \<in> R" for r' vb
      using vs(2) [of r' vb] e2 [OF that] that by simp
    have t3: "tables (mem s3) R = tables (mem s) R" using vs(3) vk(3) by (simp add: ms2)
    have rc3: "rc s3 q = rc s q + (if q = pg0 then 1 else 0)" if "managed s q" for q
      using vs(4) kf'(3) [OF that] by simp
    have mg3: "managed s3 q = managed s q" for q using mg2 by (simp add: s3_def)
    have foot2: "foot (mem s2) r = foot (mem s) r" using vk(5) [OF r] by (simp add: ms2)
    have to3: "touches (foot (mem s) r) s s3"
      using touches_trans [OF vm_invD(1) [OF i] touches_mono [OF kf'(2) empty_subsetI] vs(5)] foot2 by auto
    have pre: "managed s3 pa" "0 < rc s3 pa" "pa \<notin> tables (mem s3) R"
      using pm(1-3) mg3 rc3 [OF pm(1)] ne t3 by simp_all
    obtain s4 where k4: "kfree pa s3 = Inr s4" "vm_inv s4 R (\<lambda>q. ext q + (if q = pa then 1 else 0) - (if q = pa then 1 else 0))"
      "touches {pa} s3 s4" "\<And>r v. r \<in> R \<Longrightarrow> pte_of (mem s4) r v = pte_of (mem s3) r v"
      "\<And>q. managed s3 q \<Longrightarrow> rc s4 q = rc s3 q - (if q = pa then 1 else 0)" "\<And>b. 1 < rc s3 pa \<Longrightarrow> mem s4 b = mem s3 b"
      "tables (mem s4) R = tables (mem s3) R"
      by (rule vm_kfree [OF inv3 pre]) (rule that)
    have inv4: "vm_inv s4 R ext" by (rule vm_inv_ext_cong [OF k4(2)]) simp
    have res: "cow_handler r va s = Inr (0, s4)"
    proof -
      have "PTE_FLAGS (load64 ?m (leaf_ptr (mem s) r a)) = PTE_FLAGS ?e"
        using leaf_ptr_load [of "mem s2" r a] lp l2 e2 [OF r, of a] by (simp add: ms2)
      moreover have "s3 = s1\<lparr>mem := store64 ?m (leaf_ptr (mem s) r a) (PA2PTE pg0 OR ((PTE_FLAGS ?e OR PTE_W) AND NOT PTE_COW))\<rparr>"
        unfolding s3_def ms2 l2 [unfolded ms2] by (simp add: s2_def cow_flags_def)
      ultimately show ?thesis
        using k False lp v al(2) k4(1) by (simp add: cow_handler_def pg Let_def walk_ro ld not_le p [symmetric])
    qed
    have nf: "align_down 12 b \<noteq> pg0 \<or> align_down 12 b \<notin> foot (mem s) r" for b
      using vm_free(2) [OF i n f(1)] r by (auto simp: tables_def)
    have c3: "mem s3 b = mem s2 b" if "align_down 12 b \<notin> foot (mem s) r" "\<not> free_pg s2 (align_down 12 b)" for b
      using touchesD(3) [OF vs(5), of b] that foot2 by simp
    have live2: "\<not> free_pg s2 pg0" using kf'(3) [of pg0] f(1) by (auto simp: free_pg_def)
    have content: "mem s4 b = mem s (pa + (b - pg0))" if b: "align_down 12 b = pg0" for b
    proof -
      have "mem s4 b = mem s3 b"
        using touchesD(3) [OF k4(3), of b] b ne rc3 [of pg0] f(1) by (auto simp: free_pg_def)
      also have "\<dots> = mem s2 b" using c3 [of b] nf [of b] b live2 by auto
      finally show ?thesis using m [of b] b by (simp add: ms2)
    qed
    have to4: "touches (insert pa (foot (mem s) r)) s s4"
      using touches_trans [OF vm_invD(1) [OF i] touches_mono [OF to3] k4(3), of "insert pa (foot (mem s) r)"] by auto
    have keep: "mem s4 b = mem s b" if "1 < rc s pa" "align_down 12 b = pa" for b
    proof -
      have "mem s4 b = mem s3 b" using k4(6) that(1) rc3 [OF pm(1)] ne by simp
      also have "\<dots> = mem s b"
        using touchesD(3) [OF to3, of b] that(2) pm r by (auto simp: free_pg_def tables_def)
      finally show ?thesis .
    qed
    show ?thesis
      by (rule copied [OF res inv4 f(1) _ content to4 keep])
         (use p3 k4(4) k4(5) rc3 mg3 in auto)
  qed
qed

section \<open>uvmunmap\<close>

definition range_maps :: "(u64 \<Rightarrow> u64) \<Rightarrow> u64 \<Rightarrow> nat \<Rightarrow> u64 \<Rightarrow> u64 set" where
  "range_maps f a n p = {v. vpage v = v \<and> in_range v a (n * 4096) \<and> bit (f v) 0 \<and> PTE2PA (f v) = p}"

lemma count_unmap:
  assumes "page_aligned a" "unat a + n * 4096 \<le> 2 ^ 38"
  shows "count_list (unmap_list f a n) p = card (range_maps f a n p)"
  using assms
proof (induction n arbitrary: a)
  case 0
  then show ?case by (simp add: range_maps_def)
next
  case (Suc n)
  note st = page_range_step [OF Suc.prems]
  have eq: "range_maps f a (Suc n) p =
     (if bit (f a) 0 \<and> PTE2PA (f a) = p then {a} else {}) \<union> range_maps f (a + PGSIZE) n p"
  proof (rule set_eqI)
    fix v
    show "v \<in> range_maps f a (Suc n) p \<longleftrightarrow>
       v \<in> (if bit (f a) 0 \<and> PTE2PA (f a) = p then {a} else {}) \<union> range_maps f (a + PGSIZE) n p"
    proof (cases "page_aligned v")
      case True
      then have e: "in_range v a (Suc n * 4096) \<longleftrightarrow> v = a \<or> in_range v (a + PGSIZE) (n * 4096)"
        by (rule in_range_pages_Suc [OF Suc.prems(1) _ st(4)])
      show ?thesis unfolding range_maps_def mem_Collect_eq e
        using vpage_page [OF st(3) Suc.prems(1)] by auto
    next
      case False
      then have "vpage v \<noteq> v" using vpage_aligned [of v] by metis
      moreover have "v \<noteq> a" using False Suc.prems(1) by auto
      ultimately show ?thesis by (simp add: range_maps_def)
    qed
  qed
  moreover have "a \<notin> range_maps f (a + PGSIZE) n p"
    using not_in_range_next [OF Suc.prems(1) st(4)] by (simp add: range_maps_def)
  ultimately show ?case using Suc.IH [OF st(1,2)] by simp
qed

lemma unmap_list_set:
  assumes "page_aligned a" "unat a + n * 4096 \<le> 2 ^ 38"
  shows "p \<in> set (unmap_list f a n) \<longleftrightarrow> range_maps f a n p \<noteq> {}"
  using count_unmap [OF assms, of f p] count_list_0_iff [of "unmap_list f a n" p]
  by (simp add: card_eq_0_iff)

lemma in_range_below:
  assumes "in_range v a k" "unat a + k \<le> unat b" "page_aligned v"
  shows "v < b"
proof -
  have "unat (v - a) < k" using assms(1) by (simp add: in_range_def)
  moreover have "unat v \<le> unat a + unat (v - a)"
    using unat_plus_if_size [of a "v - a"] by (simp add: word_size split: if_splits)
  ultimately show ?thesis using assms(2) by (simp add: word_less_nat_alt)
qed

lemma leaf_ok_flags: "leaf_ok e \<Longrightarrow> bit e 0 \<Longrightarrow> PTE_FLAGS e \<noteq> PTE_V"
  using bit_PTE_FLAGS [of e 1] by (auto simp: leaf_ok_def)

lemma vm_uvmunmap_loop:
  assumes i: "vm_inv s R ext" and n: "\<And>q. 0 \<le> ext q" and r: "r \<in> R"
    and a: "page_aligned a" "unat a + k * 4096 \<le> unat TRAPFRAME"
  obtains s' where "uvmunmap_loop k r a (a + of_nat k * PGSIZE) True s = Inr s'" "vm_inv s' R ext"
    "\<And>r' vb. r' \<in> R \<Longrightarrow> pte_of (mem s') r' vb =
        (if r' = r \<and> in_range (vpage vb) a (k * 4096) then 0 else pte_of (mem s) r' vb)"
    "touches (foot (mem s) r \<union> {p. range_maps (pte_of (mem s) r) a k p \<noteq> {}}) s s'"
    "\<And>q. managed s q \<Longrightarrow> rc s' q = rc s q - int (card (range_maps (pte_of (mem s) r) a k q))"
    "\<And>b. managed s (align_down 12 b) \<Longrightarrow> align_down 12 b \<notin> foot (mem s) r \<Longrightarrow> 0 < rc s' (align_down 12 b) \<Longrightarrow>
        mem s' b = mem s b"
    "tables (mem s') R = tables (mem s) R"
proof -
  let ?f = "pte_of (mem s) r" and ?F = "foot (mem s) r"
  note ok = vm_invD(1) [OF i] vm_invD(6) [OF i r]
  have a38: "unat a + k * 4096 \<le> 2 ^ 38" using a(2) TRAPFRAME_MAXVA by (simp add: word_less_nat_alt MAXVA_eq)
  let ?ps = "unmap_list ?f a k"
  have sub: "Pair r ` range_maps ?f a k p \<subseteq> maps (mem s) R p" for p
    using r in_range_below [OF _ a(2)] vpage_aligned by (auto simp: range_maps_def maps_def) (metis vpage_aligned)
  have cnt: "int (count_list ?ps p) \<le> int (card (maps (mem s) R p))" for p
    using card_mono [OF maps_finite sub [of p]] by (simp add: count_unmap [OF a(1) a38] card_image inj_on_def)
  have mem_ps: "maps (mem s) R p \<noteq> {}" if "p \<in> set ?ps" for p
    using that sub [of p] by (auto simp: unmap_list_set [OF a(1) a38])
  have dr: "droppable s ?F ?ps"
    unfolding droppable_def
  proof
    fix p assume p: "p \<in> set ?ps"
    note vm = vm_mapped [OF i n mem_ps [OF p]]
    have "int (count_list ?ps p) \<le> rc s p" using vm_invD(7) [OF i vm(1)] cnt [of p] n [of p] by simp
    then show "managed s p \<and> p \<notin> ?F \<and> int (count_list ?ps p) \<le> rc s p" using vm r by (auto simp: tables_def)
  qed
  have lf: "PTE_FLAGS (?f vb) \<noteq> PTE_V" if "bit (?f vb) 0" for vb
    using that vm_invD(3) [OF i] r leaf_ok_flags by (auto simp: leaves_ok_def)
  obtain s' where s': "uvmunmap_loop k r a (a + of_nat k * PGSIZE) True s = Inr s'" "kmem_ok s'" "tree_ok s' r"
    "foot (mem s') r = ?F" "touches (set ?ps \<union> ?F) s s'" "pte_of (mem s') r = unmapped a k ?f" "dropped ?F ?ps s s'"
    using uvmunmap_loop_spec [OF ok a(1) a38 refl lf, of ?ps True] dr by auto
  have rc': "rc s' q = rc s q - int (card (range_maps ?f a k q))" if "managed s q" for q
    using that s'(7) count_unmap [OF a(1) a38, of ?f q] by (simp add: dropped_def)
  have psn: "set ?ps \<inter> tables (mem s) R = {}" using vm_mapped(3) [OF i n mem_ps] by blast
  have o: "tree_ok s' q" "foot (mem s') q = foot (mem s) q" "pte_of (mem s') q v = pte_of (mem s) q v"
    if q: "q \<in> R" "q \<noteq> r" for q v
  proof -
    have d: "foot (mem s) q \<inter> (set ?ps \<union> ?F) = {}"
      using psn vm_invD(10) [OF i q(1) r q(2)] q(1) by (auto simp: tables_def)
    have "rc s' p = rc s p" if p: "p \<in> foot (mem s) q" for p
      using rc' [OF tree_okD(2) [OF vm_invD(6) [OF i q(1)] p]] d p unmap_list_set [OF a(1) a38, of p ?f] by auto
    then show "tree_ok s' q" "foot (mem s') q = foot (mem s) q" "pte_of (mem s') q v = pte_of (mem s) q v"
      using tree_frame [OF vm_invD(6) [OF i q(1)] s'(5) d] by blast+
  qed
  have p: "pte_of (mem s') r' vb = (if r' = r \<and> in_range (vpage vb) a (k * 4096) then 0 else pte_of (mem s) r' vb)"
    if "r' \<in> R" for r' vb using that o(3) s'(6) by (cases "r' = r") (auto simp: unmapped_def)
  have ft: "foot (mem s') q = foot (mem s) q" if "q \<in> R" for q using that o(2) s'(4) by (cases "q = r") auto
  have tb: "tables (mem s') R = tables (mem s) R" by (simp add: tables_def ft)
  have tr: "trees_ok s' R" using vm_invD(2) [OF i] o(1) s'(3) ft unfolding trees_ok_def by metis
  have mp: "maps (mem s') R q = maps (mem s) R q - Pair r ` range_maps ?f a k q" for q
    by (auto simp: maps_def p range_maps_def split: if_splits)
  have "counts_ok s' R ext"
    unfolding counts_ok_def managed_mem_step [OF touchesD(1) [OF s'(5)]] tb
  proof (intro conjI allI impI)
    fix q assume "maps (mem s') R q \<noteq> {}"
    then show "managed s q" using vm_invD(8) [OF i, of q] unfolding mp by auto
  next
    fix q assume m: "managed s q"
    have "int (card (maps (mem s') R q)) = int (card (maps (mem s) R q)) - int (card (range_maps ?f a k q))"
      unfolding mp using sub [of q] card_mono [OF maps_finite sub [of q]]
      by (simp add: card_Diff_subset card_image inj_on_def of_nat_diff)
    then show "rc s' q = ext q + int (card (maps (mem s') R q)) + (if q \<in> tables (mem s) R then 1 else 0)"
      using vm_invD(7) [OF i m] rc' [OF m] by simp
  qed
  moreover have "leaves_ok (mem s') R" using vm_invD(3) [OF i] unfolding leaves_ok_def by (auto simp: p leaf_ok_def)
  moreover have "isolated (mem s') R"
    using vm_invD(5) [OF i] unfolding isolated_def mp by (auto simp: p maps_def)
  ultimately have inv: "vm_inv s' R ext" using s'(2) tr by (simp add: vm_inv_def)
  have "set ?ps \<union> ?F = ?F \<union> {p. range_maps ?f a k p \<noteq> {}}" using unmap_list_set [OF a(1) a38, of _ ?f] by auto
  then have "touches (?F \<union> {p. range_maps ?f a k p \<noteq> {}}) s s'" using s'(5) by simp
  moreover have "mem s' b = mem s b" if "managed s (align_down 12 b)" "align_down 12 b \<notin> ?F" "0 < rc s' (align_down 12 b)" for b
    using s'(7) that by (simp add: dropped_def)
  ultimately show ?thesis using that [OF s'(1) inv p _ rc' _ tb] by blast
qed

section \<open>uvmcopy\<close>

definition cowed :: "u64 \<Rightarrow> u64" where
  "cowed e = (if bit e 2 \<or> bit e 8 then (e AND NOT PTE_W) OR PTE_COW else e)"

definition child_pte :: "u64 \<Rightarrow> u64" where
  "child_pte e = PA2PTE (PTE2PA e) OR PTE_FLAGS (cowed e) OR PTE_V"

lemma bit_cowed: "bit (cowed e) k \<longleftrightarrow> k \<noteq> 2 \<and> bit e k \<or> k = 8 \<and> bit e 2"
  by (auto simp: cowed_def bit_simps dest: bit_imp_le_length)

lemma cowed_props [simp]:
  "PTE2PA (cowed e) = PTE2PA e" "bit (cowed e) 0 = bit e 0" "\<not> bit (cowed e) 2" "leaf_ok (cowed e) = leaf_ok e"
  by (auto simp: bit_cowed leaf_ok_def intro: PTE2PA_cong)

lemma child_props:
  "PTE2PA (child_pte e) = PTE2PA e" "bit (child_pte e) 0" "\<not> bit (child_pte e) 2"
  "i < 10 \<Longrightarrow> i \<noteq> 0 \<Longrightarrow> bit (child_pte e) i = bit (cowed e) i"
proof -
  have eq: "child_pte e = PA2PTE (PTE2PA e) OR (PTE_FLAGS (cowed e) OR PTE_V)" by (simp add: child_pte_def or.assoc)
  show "PTE2PA (child_pte e) = PTE2PA e" unfolding eq by (rule PTE2PA_PA2PTE) simp_all
  show "bit (child_pte e) 0" "\<not> bit (child_pte e) 2" unfolding eq
    by (simp_all add: bit_PA2PTE bit_simps bit_PTE_FLAGS)
  show "bit (child_pte e) i = bit (cowed e) i" if "i < 10" "i \<noteq> 0"
    unfolding eq using that by (simp add: bit_PA2PTE bit_simps bit_PTE_FLAGS)
qed

lemma vm_kref_incr:
  assumes "vm_inv s R ext" "managed s p" "0 < rc s p" "p \<notin> tables (mem s) R"
  shows "\<exists>s'. kref_incr p s = Inr s' \<and> vm_inv s' R (\<lambda>q. ext q + (if q = p then 1 else 0)) \<and> mem s' = mem s \<and>
    mem_step s s' \<and> (\<forall>q. managed s q \<longrightarrow> rc s' q = rc s q + (if q = p then 1 else 0))"
proof -
  note k = vm_invD(1) [OF assms(1)]
  obtain s' where s': "kref_incr p s = Inr s'" "kmem_inv s'" "s' = s\<lparr>kref := (kref s)(p div PGSIZE := rc s p + 1)\<rparr>"
    using kref_incr_inv [OF _ _ assms(2,3)] k by (auto simp: kmem_ok_def)
  have ms: "mem_step s s'" "mem s' = mem s"
    by (auto simp: s'(3) intro: mem_stepI [where m = "mem s" and f = "freelist s"])
  have ok: "kmem_ok s'" using s'(2) k mem_step_sel(1) [OF ms(1)] by (simp add: kmem_ok_def kmem_unlocked_def)
  have r: "rc s' q = rc s q + (if q = p then 1 else 0)" if "managed s q" for q
    using that assms(2) by (auto simp: s'(3) rc_def managed_def page_index_inj)
  have "touches {} s s'" unfolding touches_def using ms r by auto
  then have "vm_inv s' R (\<lambda>q. ext q + (if q = p then 1 else 0))"
    by (rule vm_frame(1) [OF assms(1) ok]) (use r assms(4) in auto)
  then show ?thesis using s'(1) ms r by blast
qed

text \<open>User data is untouched: the bytes of every mapped page stay.\<close>

definition same_data :: "u64 set \<Rightarrow> 'z kst_scheme \<Rightarrow> 'z kst_scheme \<Rightarrow> bool" where
  "same_data R s s' \<longleftrightarrow> mem_step s s' \<and>
     (\<forall>b. maps (mem s) R (align_down 12 b) \<noteq> {} \<longrightarrow> mem s' b = mem s b)"

lemma same_data_touches:
  assumes "vm_inv s R ext" "\<And>q. 0 \<le> ext q" "touches X s s'" "X \<subseteq> tables (mem s) R"
  shows "same_data R s s'"
proof -
  have "mem s' b = mem s b" if "maps (mem s) R (align_down 12 b) \<noteq> {}" for b
    using vm_mapped [OF assms(1,2) that] touchesD(3) [OF assms(3), of b] assms(4) by (auto simp: free_pg_def)
  then show ?thesis using touchesD(1) [OF assms(3)] by (simp add: same_data_def)
qed

lemma same_data_trans:
  "same_data R s s1 \<Longrightarrow> same_data R s1 s2 \<Longrightarrow> (\<And>p. maps (mem s) R p \<noteq> {} \<Longrightarrow> maps (mem s1) R p \<noteq> {}) \<Longrightarrow> same_data R s s2"
  unfolding same_data_def using mem_step_trans by (metis (no_types, lifting))

lemma same_data_refl [simp]: "same_data R s s"
  by (simp add: same_data_def)

text \<open>One page of \<open>uvmcopy\<close>: the parent entry becomes copy-on-write, the child maps the page.\<close>

definition share_entry :: "u64 \<Rightarrow> 'z kst_scheme \<Rightarrow> 'z kst_scheme" where
  "share_entry pte s =
     (if PTE_is (load64 (mem s) pte) PTE_W \<or> PTE_is (load64 (mem s) pte) PTE_COW
      then
        let s = s\<lparr>mem := store64 (mem s) pte (load64 (mem s) pte AND NOT PTE_W)\<rparr>
        in s\<lparr>mem := store64 (mem s) pte (load64 (mem s) pte OR PTE_COW)\<rparr>
      else s)"

lemma store64_twice: "store64 (store64 m p v) p w = store64 m p w"
  by (auto simp: store64_def le_put_def)

lemma store64_load: "align_down 3 p = p \<Longrightarrow> store64 m p (load64 m p) = m"
proof
  fix a assume al: "align_down 3 p = p"
  show "store64 m p (load64 m p) a = m a"
  proof (cases "in_range a p 8")
    case True
    have u: "unat (a - p) < 8" using True by (simp add: in_range_def)
    have "ucast (drop_bit (8 * unat (a - p)) (load64 m p)) = m a"
    proof (rule bit_word_eqI)
      fix j assume j: "j < LENGTH(8)"
      let ?k = "8 * unat (a - p) + j"
      have d: "?k div 8 = unat (a - p)" "?k mod 8 = j" using j by simp_all
      have "p + of_nat (unat (a - p)) = a" by simp
      then show "bit (ucast (drop_bit (8 * unat (a - p)) (load64 m p)) :: u8) j = bit (m a) j"
        using j u d by (auto simp: bit_simps load64_def bit_le_get ac_simps)
    qed
    then show ?thesis using True by (simp add: store64_def le_put_def)
  qed (simp add: store64_def le_put_def)
qed

lemma share_entry_eq:
  assumes "align_down 3 pte = pte"
  shows "share_entry pte s = s\<lparr>mem := store64 (mem s) pte (cowed (load64 (mem s) pte))\<rparr>"
  using store64_load [OF assms, of "mem s"]
  by (simp add: share_entry_def cowed_def Let_def store64_twice)

lemma leaf_ptr_align:
  assumes "wf_tree m r" "leaf_ptr m r a \<noteq> 0"
  shows "align_down 3 (leaf_ptr m r a) = leaf_ptr m r a"
proof -
  obtain q where q: "pt_at m r a 2 = Some q" "leaf_ptr m r a = entry q 0 a" using assms(2) by (rule leaf_ptr_Some)
  then show ?thesis using wf_treeD(1) [OF assms(1) q(1)] by (simp add: entry_slot slot_entry_facts)
qed

lemma vm_share_page:
  assumes i: "vm_inv s R ext" and n: "\<And>q. 0 \<le> ext q" and on: "old \<in> R" "new \<in> R" "old \<noteq> new"
    and a: "page_aligned a" "a < TRAPFRAME" and e: "e = pte_of (mem s) old a" "bit e 0"
    and ne: "\<not> bit (pte_of (mem s) new a) 0" and pa: "pa = PTE2PA e"
    and s1: "pte = leaf_ptr (mem s) old a" "s1 = share_entry pte s"
  obtains (shared) s2 s3 where "mappages new a PGSIZE pa (PTE_FLAGS (load64 (mem s1) pte)) s1 = Inr (0, s2)"
      "kref_incr pa s2 = Inr s3" "vm_inv s3 R ext" "same_data R s s3"
      "\<And>r vb. r \<in> R \<Longrightarrow> pte_of (mem s3) r vb = (if r = old \<and> vpage vb = a then cowed e
         else if r = new \<and> vpage vb = a then child_pte e else pte_of (mem s) r vb)"
  | (nomem) s2 where "mappages new a PGSIZE pa (PTE_FLAGS (load64 (mem s1) pte)) s1 = Inr (-1, s2)"
      "vm_inv s2 R ext" "same_data R s s2"
      "\<And>r vb. r \<in> R \<Longrightarrow> pte_of (mem s2) r vb = (if r = old \<and> vpage vb = a then cowed e else pte_of (mem s) r vb)"
proof -
  have al: "a < MAXVA" using a(2) TRAPFRAME_MAXVA by (rule order_less_trans)
  note ok = vm_invD(6) [OF i on(1)]
  have lp: "leaf_ptr (mem s) old a \<noteq> 0" using leaf_ptr_0_pte [OF tree_okD(1) [OF ok], of a] e by auto
  have mp: "(old, a) \<in> maps (mem s) R pa" using on(1) al a e pa by (simp add: maps_def)
  then have ne': "maps (mem s) R pa \<noteq> {}" by auto
  note pm = vm_mapped [OF i n ne']
  have ld: "load64 (mem s) pte = e" using leaf_ptr_load [OF lp] e(1) s1(1) by simp
  have s1e: "s1 = s\<lparr>mem := store64 (mem s) (leaf_ptr (mem s) old a) (cowed e)\<rparr>"
    using share_entry_eq [OF leaf_ptr_align [OF tree_okD(1) [OF ok] lp], of s] s1 ld by simp
  have le: "leaf_ok e" using vm_invD(3) [OF i] on(1) e(1) by (auto simp: leaves_ok_def)
  have nw: "\<not> bit (pte_of (mem s) r' v') 2" if "(r', v') \<in> maps (mem s) R pa" "(r', v') \<noteq> (old, a)" for r' v'
    using vm_invD(5) [OF i] that mp unfolding isolated_def by blast
  have vs: "vm_inv s1 R (\<lambda>q. ext q + ref_of a (pte_of (mem s) old a) q - ref_of a (cowed e) q)"
    "\<And>r' vb. r' \<in> R \<Longrightarrow> pte_of (mem s1) r' vb = (if r' = old \<and> vpage vb = a then cowed e else pte_of (mem s) r' vb)"
    "tables (mem s1) R = tables (mem s) R" "\<And>q. rc s1 q = rc s q" "touches (foot (mem s) old) s s1"
    unfolding s1e
    by (rule vm_set [OF i on(1) a(1) al lp]; use le pm(1) nw pa in auto)+
  have i1: "vm_inv s1 R ext" by (rule vm_inv_ext_cong [OF vs(1)]) (simp add: ref_of_def e(1))
  have d1: "same_data R s s1" by (rule same_data_touches [OF i n vs(5)]) (use on in \<open>auto simp: tables_def\<close>)
  have vp: "vpage a = a" using a(1) al by simp
  have m1: "maps (mem s1) R q = maps (mem s) R q" for q
    using vp by (auto simp: maps_def vs(2) e(1) split: if_splits)
  have ld1: "load64 (mem s1) pte = cowed e" by (simp add: s1e s1(1))
  have mg1: "managed s1 q = managed s q" for q by (simp add: s1e)
  have ne1: "\<not> bit (pte_of (mem s1) new a) 0" using ne vs(2) [OF on(2)] on(3) by simp
  have lf: "leaf_ok (PTE_FLAGS (cowed e) OR PTE_V)"
    using le e(2) bit_cowed [of e 1] by (simp add: leaf_ok_def bit_simps bit_PTE_FLAGS)
  have own: "managed s1 pa \<and> 0 < rc s1 pa" using pm mg1 vs(4) by simp
  have iso: "\<not> bit (PTE_FLAGS (cowed e)) 2 \<and> \<not> bit (pte_of (mem s1) r' v') 2" if "(r', v') \<in> maps (mem s1) R pa" for r' v'
    using that nw [of r' v'] vs(2) [of r' v'] vp by (auto simp: m1 bit_PTE_FLAGS maps_def)
  have fx: "PTE_FLAGS (load64 (mem s1) pte) = PTE_FLAGS (cowed e)" by (simp add: ld1)
  have sd: "same_data R s s2" if "touches (foot (mem s1) new) s1 s2" for s2
    by (rule same_data_trans [OF d1 same_data_touches [OF i1 n that]]) (use on m1 in \<open>auto simp: tables_def\<close>)
  have pap: "page_aligned pa" by (simp add: pa)
  show ?thesis
  proof (rule vm_mappages [OF i1 on(2) a(1) al ne1 pap _ lf own iso])
    show "flags_ok (PTE_FLAGS (cowed e))" by simp
  next
    fix s2
    assume s2: "mappages new a PGSIZE pa (PTE_FLAGS (cowed e)) s1 = Inr (-1, s2)" "vm_inv s2 R ext"
      "touches (foot (mem s1) new) s1 s2" "\<And>r' vb. r' \<in> R \<Longrightarrow> pte_of (mem s2) r' vb = pte_of (mem s1) r' vb"
    show thesis by (rule nomem [OF _ s2(2) sd [OF s2(3)]]) (use s2(1,4) vs(2) fx in auto)
  next
    fix s2
    assume s2: "mappages new a PGSIZE pa (PTE_FLAGS (cowed e)) s1 = Inr (0, s2)"
      "vm_inv s2 R (\<lambda>q. ext q - (if a < TRAPFRAME \<and> q = pa then 1 else 0))" "touches (foot (mem s1) new) s1 s2"
      "\<And>r' vb. r' \<in> R \<Longrightarrow> pte_of (mem s2) r' vb =
         (if r' = new \<and> vpage vb = a then PA2PTE pa OR PTE_FLAGS (cowed e) OR PTE_V else pte_of (mem s1) r' vb)"
      "\<And>q. managed s1 q \<Longrightarrow> 0 < rc s1 q \<Longrightarrow> rc s2 q = rc s1 q"
    have pt: "pte_of (mem s2) r vb = (if r = old \<and> vpage vb = a then cowed e
         else if r = new \<and> vpage vb = a then child_pte e else pte_of (mem s) r vb)" if "r \<in> R" for r vb
      using s2(4) [OF that, of vb] vs(2) [OF that, of vb] on(3) pa by (auto simp: child_pte_def)
    have mg2: "managed s2 q = managed s q" for q using managed_mem_step [OF touchesD(1) [OF s2(3)]] mg1 by simp
    have rc2: "rc s2 pa = rc s pa" using s2(5) own vs(4) by simp
    have nt: "pa \<notin> tables (mem s2) R"
    proof
      assume t: "pa \<in> tables (mem s2) R"
      have "(old, a) \<in> maps (mem s2) R pa" "(new, a) \<in> maps (mem s2) R pa"
        using on al a(1) a(2) vp pa e child_props(1,2) by (simp_all add: maps_def pt)
      then have "2 \<le> card (maps (mem s2) R pa)"
        using card_mono [OF maps_finite, of "{(old, a), (new, a)}" "mem s2" R pa] on(3) by simp
      then show False using vm_invD(7) [OF s2(2), of pa] vm_invD(9) [OF s2(2) t] t n [of pa] by (auto split: if_splits)
    qed
    obtain s3 where s3: "kref_incr pa s2 = Inr s3"
      "vm_inv s3 R (\<lambda>q. ext q - (if a < TRAPFRAME \<and> q = pa then 1 else 0) + (if q = pa then 1 else 0))"
      "mem s3 = mem s2" "mem_step s2 s3"
      using vm_kref_incr [OF s2(2) _ _ nt] mg2 rc2 pm by auto
    have i3: "vm_inv s3 R ext" by (rule vm_inv_ext_cong [OF s3(2)]) (use a(2) in simp)
    have d3: "same_data R s s3" using sd [OF s2(3)] s3(3,4) mem_step_trans unfolding same_data_def by metis
    show thesis by (rule shared [OF _ s3(1) i3 d3]) (use s2(1) fx pt s3(3) in auto)
  qed
qed

text \<open>The pages of a range of bytes that starts at a page.\<close>

definition below :: "u64 \<Rightarrow> u64 \<Rightarrow> u64 \<Rightarrow> bool" where
  "below i lim vb \<longleftrightarrow> i \<le> vpage vb \<and> vpage vb < lim"

lemma TRAPFRAME_unat: "unat TRAPFRAME = 2 ^ 38 - 8192"
  by (simp add: TRAPFRAME_def TRAMPOLINE_def MAXVA_def PGSIZE_def)

lemma next_user_page:
  assumes "page_aligned i" "i < TRAPFRAME"
  shows "page_aligned (i + PGSIZE)" "unat (i + PGSIZE) = unat i + 4096"
    "page_aligned v \<Longrightarrow> i \<le> v \<longleftrightarrow> v = i \<or> i + PGSIZE \<le> v"
proof -
  show u: "unat (i + PGSIZE) = unat i + 4096"
    using assms(2) by (simp add: unat_word_ariths PGSIZE_def word_less_nat_alt TRAPFRAME_unat)
  show "page_aligned (i + PGSIZE)" using assms(1) by (simp add: page_aligned_unat u)
  show "i \<le> v \<longleftrightarrow> v = i \<or> i + PGSIZE \<le> v" if v: "page_aligned v"
  proof -
    have "unat v < unat i + 4096 \<longleftrightarrow> unat v \<le> unat i"
      by (rule less_add_dvd) (use assms(1) v in \<open>simp_all add: page_aligned_unat mod_eq_0_iff_dvd\<close>)
    then show ?thesis unfolding word_le_nat_alt u by (metis le_less not_le order_refl word_unat_eq_iff add_leD1)
  qed
qed

lemma below_step:
  assumes "page_aligned i" "i < TRAPFRAME" "i < lim"
  shows "below i lim vb \<longleftrightarrow> vpage vb = i \<or> below (i + PGSIZE) lim vb"
  using next_user_page(3) [OF assms(1,2) vpage_aligned, of vb] assms(3) by (auto simp: below_def)

text \<open>The page tables after the pages of \<open>[i, lim)\<close> were shared.\<close>

definition forked :: "u64 \<Rightarrow> u64 \<Rightarrow> u64 \<Rightarrow> u64 \<Rightarrow> (u64 \<Rightarrow> u64 \<Rightarrow> u64) \<Rightarrow> u64 \<Rightarrow> u64 \<Rightarrow> u64" where
  "forked old new i lim f r vb =
     (if below i lim vb \<and> bit (f old vb) 0
      then if r = old then cowed (f old vb) else if r = new then child_pte (f old vb) else f r vb
      else f r vb)"

lemma maps_mono_cow:
  assumes "\<And>r vb. r \<in> R \<Longrightarrow> bit (pte_of m r vb) 0 \<Longrightarrow>
     bit (pte_of m' r vb) 0 \<and> PTE2PA (pte_of m' r vb) = PTE2PA (pte_of m r vb)"
  shows "maps m R p \<noteq> {} \<Longrightarrow> maps m' R p \<noteq> {}"
  using assms unfolding maps_def by blast

lemma maps_mono_set: "maps m R' p \<noteq> {} \<Longrightarrow> R' \<subseteq> R \<Longrightarrow> maps m R p \<noteq> {}"
  unfolding maps_def by blast

lemma same_data_mono: "same_data R s s' \<Longrightarrow> R' \<subseteq> R \<Longrightarrow> same_data R' s s'"
  unfolding same_data_def using maps_mono_set by blast

lemma uvmcopy_loop_Suc:
  "uvmcopy_loop (Suc n) old new i lim s =
     (if i < lim
      then andthen (walk old i False s) (\<lambda>(pte, s).
        if pte = 0 then uvmcopy_loop n old new (i + PGSIZE) lim s
        else if \<not> PTE_is (load64 (mem s) pte) PTE_V then uvmcopy_loop n old new (i + PGSIZE) lim s
        else
          andthen (mappages new i PGSIZE (PTE2PA (load64 (mem s) pte))
             (PTE_FLAGS (load64 (mem (share_entry pte s)) pte)) (share_entry pte s)) (\<lambda>(r, s').
             if r \<noteq> 0
             then andthen (uvmunmap new 0 (i div PGSIZE) True s') (\<lambda>s. Inr (-1, s))
             else andthen (kref_incr (PTE2PA (load64 (mem s) pte)) s')
                    (\<lambda>s. uvmcopy_loop n old new (i + PGSIZE) lim s)))
      else Inr (0, s))"
  unfolding uvmcopy_loop.simps share_entry_def Let_def by simp

lemma div_PGSIZE_mult: "page_aligned i \<Longrightarrow> i div PGSIZE * PGSIZE = i"
  by (simp add: page_aligned_def) (metis add.right_neutral div_mult_mod_eq)

lemma unat_div_PGSIZE: "unat (i div PGSIZE) = unat i div 4096"
  by (simp add: PGSIZE_def unat_div_distrib)

text \<open>\<open>uvmunmap\<close> of a range that starts at a page.\<close>

lemma vm_uvmunmap:
  assumes i: "vm_inv s R ext" and n: "\<And>q. 0 \<le> ext q" and r: "r \<in> R"
    and a: "page_aligned a" "unat a + unat k * 4096 \<le> unat TRAPFRAME"
  obtains s' where "uvmunmap r a k True s = Inr s'" "vm_inv s' R ext"
    "\<And>r' vb. r' \<in> R \<Longrightarrow> pte_of (mem s') r' vb =
        (if r' = r \<and> in_range (vpage vb) a (unat k * 4096) then 0 else pte_of (mem s) r' vb)"
    "touches (foot (mem s) r \<union> {p. range_maps (pte_of (mem s) r) a (unat k) p \<noteq> {}}) s s'"
    "\<And>q. managed s q \<Longrightarrow> rc s' q = rc s q - int (card (range_maps (pte_of (mem s) r) a (unat k) q))"
    "\<And>b. managed s (align_down 12 b) \<Longrightarrow> align_down 12 b \<notin> foot (mem s) r \<Longrightarrow> 0 < rc s' (align_down 12 b) \<Longrightarrow>
        mem s' b = mem s b"
    "tables (mem s') R = tables (mem s) R"
proof -
  have eq: "uvmunmap r a k True s = uvmunmap_loop (unat k) r a (a + of_nat (unat k) * PGSIZE) True s"
    using a(1) by (simp add: uvmunmap_def page_aligned_def)
  show ?thesis
    by (rule vm_uvmunmap_loop [OF i n r a], rule that) (simp only: eq, assumption, blast+)
qed

lemma vm_uvmcopy_loop:
  assumes "vm_inv s R ext" "\<And>q. 0 \<le> ext q" "old \<in> R" "new \<in> R" "old \<noteq> new"
    "page_aligned i" "unat i \<le> unat TRAPFRAME" "lim \<le> TRAPFRAME" "unat lim \<le> unat i + n * 4096"
    "\<And>vb. below i lim vb \<Longrightarrow> \<not> bit (pte_of (mem s) new vb) 0"
  shows "\<exists>ret s'. uvmcopy_loop n old new i lim s = Inr (ret, s') \<and> vm_inv s' R ext \<and> same_data (R - {new}) s s' \<and>
     (ret = 0 \<and> (\<forall>r \<in> R. \<forall>vb. pte_of (mem s') r vb = forked old new i lim (pte_of (mem s)) r vb) \<or>
      ret = -1 \<and> (\<forall>vb. vpage vb < lim \<longrightarrow> \<not> bit (pte_of (mem s') new vb) 0) \<and>
        (\<forall>vb. pte_of (mem s') old vb \<in> {pte_of (mem s) old vb, cowed (pte_of (mem s) old vb)}) \<and>
        (\<forall>r \<in> R. r \<noteq> old \<longrightarrow> r \<noteq> new \<longrightarrow> (\<forall>vb. pte_of (mem s') r vb = pte_of (mem s) r vb)))"
  using assms
proof (induction n arbitrary: i s)
  case 0
  then have "\<not> i < lim" by (simp add: word_less_nat_alt)
  then have "\<not> below i lim vb" for vb by (auto simp: below_def)
  then show ?case using 0 \<open>\<not> i < lim\<close> by (simp add: forked_def)
next
  case (Suc n)
  note inv = Suc.prems(1) and nn = Suc.prems(2)
  let ?f = "pte_of (mem s)"
  show ?case
  proof (cases "i < lim")
    case False
    then have "\<not> below i lim vb" for vb by (auto simp: below_def)
    then show ?thesis using False inv by (simp add: forked_def)
  next
    case lt: True
    have tf: "i < TRAPFRAME" using lt Suc.prems(8) by (rule order_less_le_trans)
    have al: "i < MAXVA" using tf TRAPFRAME_MAXVA by (rule order_less_trans)
    have vp: "vpage i = i" using al Suc.prems(6) by simp
    note nx = next_user_page [OF Suc.prems(6) tf]
    note bs = below_step [OF Suc.prems(6) tf lt]
    have bnd: "unat (i + PGSIZE) \<le> unat TRAPFRAME" "unat lim \<le> unat (i + PGSIZE) + n * 4096"
    proof -
      have "4096 dvd unat TRAPFRAME" by (simp add: TRAPFRAME_unat)
      moreover have "4096 dvd unat i" using Suc.prems(6) by (simp add: page_aligned_unat mod_eq_0_iff_dvd)
      ultimately show "unat (i + PGSIZE) \<le> unat TRAPFRAME"
        using less_add_dvd [of 4096 "unat TRAPFRAME" "unat i"] tf by (simp add: nx(2) word_less_nat_alt)
      show "unat lim \<le> unat (i + PGSIZE) + n * 4096" using Suc.prems(9) by (simp add: nx(2))
    qed
    have nb: "\<not> below (i + PGSIZE) lim vb" if "vpage vb = i" for vb
      using that nx(2) by (auto simp: below_def word_le_nat_alt)
    text \<open>The rest of the loop after a step to \<open>s1\<close>.\<close>
    have rest: ?thesis
      if st: "vm_inv s1 R ext" "same_data (R - {new}) s s1" "uvmcopy_loop (Suc n) old new i lim s = uvmcopy_loop n old new (i + PGSIZE) lim s1"
        "\<And>r vb. r \<in> R \<Longrightarrow> pte_of (mem s1) r vb =
          (if vpage vb = i \<and> bit (?f old vb) 0
           then if r = old then cowed (?f old vb) else if r = new then child_pte (?f old vb) else ?f r vb else ?f r vb)" for s1
    proof -
      have un: "\<not> bit (pte_of (mem s1) new vb) 0" if "below (i + PGSIZE) lim vb" for vb
        using that nb [of vb] Suc.prems(10) [of vb] bs [of vb] st(4) [OF Suc.prems(4), of vb] by auto
      obtain ret s' where s': "uvmcopy_loop n old new (i + PGSIZE) lim s1 = Inr (ret, s')" "vm_inv s' R ext" "same_data (R - {new}) s1 s'"
        "ret = 0 \<and> (\<forall>r \<in> R. \<forall>vb. pte_of (mem s') r vb = forked old new (i + PGSIZE) lim (pte_of (mem s1)) r vb) \<or>
         ret = -1 \<and> (\<forall>vb. vpage vb < lim \<longrightarrow> \<not> bit (pte_of (mem s') new vb) 0) \<and>
          (\<forall>vb. pte_of (mem s') old vb \<in> {pte_of (mem s1) old vb, cowed (pte_of (mem s1) old vb)}) \<and>
          (\<forall>r \<in> R. r \<noteq> old \<longrightarrow> r \<noteq> new \<longrightarrow> (\<forall>vb. pte_of (mem s') r vb = pte_of (mem s1) r vb))"
        using Suc.IH [OF st(1) nn Suc.prems(3-5) nx(1) bnd(1) Suc.prems(8) bnd(2) un] by blast
      have mono: "maps (mem s1) (R - {new}) p \<noteq> {}" if "maps (mem s) (R - {new}) p \<noteq> {}" for p
      proof (rule maps_mono_cow [OF _ that])
        fix r vb assume "r \<in> R - {new}" "bit (?f r vb) 0"
        then have r: "r \<in> R" "r \<noteq> new" "bit (?f r vb) 0" by auto
        then show "bit (pte_of (mem s1) r vb) 0 \<and> PTE2PA (pte_of (mem s1) r vb) = PTE2PA (?f r vb)"
          using r st(4) [OF r(1), of vb] by auto
      qed
      have sd: "same_data (R - {new}) s s'" by (rule same_data_trans [OF st(2) s'(3) mono])
      have ok: "forked old new (i + PGSIZE) lim (pte_of (mem s1)) r vb = forked old new i lim ?f r vb" if "r \<in> R" for r vb
        using that st(4) [OF that, of vb] st(4) [OF Suc.prems(3), of vb] bs [of vb] nb [of vb] Suc.prems(5)
        by (auto simp: forked_def)
      have cc: "cowed (cowed e) = cowed e" for e
        by (rule bit_word_eqI) (auto simp: bit_cowed)
      have old: "{pte_of (mem s1) old vb, cowed (pte_of (mem s1) old vb)} \<subseteq> {?f old vb, cowed (?f old vb)}" for vb
        using st(4) [OF Suc.prems(3), of vb] by (auto simp: cc)
      have oth: "pte_of (mem s1) r vb = ?f r vb" if "r \<in> R" "r \<noteq> old" "r \<noteq> new" for r vb
        using st(4) [OF that(1), of vb] that by simp
      have res: "uvmcopy_loop (Suc n) old new i lim s = Inr (ret, s')" using st(3) s'(1) by (simp only:)
      have o2: "pte_of (mem s') old vb \<in> {?f old vb, cowed (?f old vb)}"
        if "\<forall>vb. pte_of (mem s') old vb \<in> {pte_of (mem s1) old vb, cowed (pte_of (mem s1) old vb)}" for vb
        using that old [of vb] by blast
      from s'(4) show ?thesis
        using s'(2) sd ok o2 oth by (intro exI [of _ ret] exI [of _ s'] conjI res) (simp_all, blast+)
    qed
    have w: "walk old i False s = Inr (leaf_ptr (mem s) old i, s)" using al by (simp add: walk_ro not_le)
    show ?thesis
    proof (cases "leaf_ptr (mem s) old i = 0 \<or> \<not> bit (?f old i) 0")
      case True
      have inv0: "\<not> bit (?f old i) 0"
        using True leaf_ptr_0_pte [OF tree_okD(1) [OF vm_invD(6) [OF inv Suc.prems(3)]], of i] by auto
      then have "\<not> bit (?f old vb) 0" if "vpage vb = i" for vb using that vp pte_of_vpage [of vb i "mem s" old] by auto
      moreover have "uvmcopy_loop (Suc n) old new i lim s = uvmcopy_loop n old new (i + PGSIZE) lim s"
        using True lt w leaf_ptr_load [of "mem s" old i] inv0 unfolding uvmcopy_loop_Suc by (cases "leaf_ptr (mem s) old i = 0") auto
      ultimately show ?thesis using inv by (intro rest [of s]) auto
    next
      case False
      then have lp: "leaf_ptr (mem s) old i \<noteq> 0" and v: "bit (?f old i) 0" by auto
      have bi: "below i lim i" using lt by (simp add: below_def vp)
      have same: "?f r vb = ?f r i" if "vpage vb = i" for r vb using that vp by (intro pte_of_vpage) simp
      note ld = leaf_ptr_load [OF lp]
      let ?pte = "leaf_ptr (mem s) old i" and ?pa = "PTE2PA (?f old i)"
      have ne: "\<not> bit (?f new i) 0" by (rule Suc.prems(10) [OF bi])
      show ?thesis
      proof (rule vm_share_page [OF inv nn Suc.prems(3-6) tf refl v ne refl refl refl])
        fix s2 s3
        assume s3: "mappages new i PGSIZE ?pa (PTE_FLAGS (load64 (mem (share_entry ?pte s)) ?pte)) (share_entry ?pte s) = Inr (0, s2)"
          "kref_incr ?pa s2 = Inr s3" "vm_inv s3 R ext" "same_data R s s3"
          "\<And>r vb. r \<in> R \<Longrightarrow> pte_of (mem s3) r vb = (if r = old \<and> vpage vb = i then cowed (?f old i)
             else if r = new \<and> vpage vb = i then child_pte (?f old i) else ?f r vb)"
        have "uvmcopy_loop (Suc n) old new i lim s = uvmcopy_loop n old new (i + PGSIZE) lim s3"
          using lt w lp v ld s3(1,2) unfolding uvmcopy_loop_Suc by simp
        then show ?thesis
          using s3(3) same_data_mono [OF s3(4)] s3(5) same v Suc.prems(5) by (intro rest [of s3]) (auto simp: same)
      next
        fix s2
        assume s2: "mappages new i PGSIZE ?pa (PTE_FLAGS (load64 (mem (share_entry ?pte s)) ?pte)) (share_entry ?pte s) = Inr (-1, s2)"
          "vm_inv s2 R ext" "same_data R s s2"
          "\<And>r vb. r \<in> R \<Longrightarrow> pte_of (mem s2) r vb = (if r = old \<and> vpage vb = i then cowed (?f old i) else ?f r vb)"
        have k: "unat (0 :: u64) + unat (i div PGSIZE) * 4096 \<le> unat TRAPFRAME"
          using tf by (simp add: unat_div_PGSIZE word_less_nat_alt)
        have pz: "page_aligned 0" by (simp add: page_aligned_def)
        obtain s3 where s3: "uvmunmap new 0 (i div PGSIZE) True s2 = Inr s3" "vm_inv s3 R ext"
          "\<And>r' vb. r' \<in> R \<Longrightarrow> pte_of (mem s3) r' vb =
             (if r' = new \<and> in_range (vpage vb) 0 (unat (i div PGSIZE) * 4096) then 0 else pte_of (mem s2) r' vb)"
          "touches (foot (mem s2) new \<union> {p. range_maps (pte_of (mem s2) new) 0 (unat (i div PGSIZE)) p \<noteq> {}}) s2 s3"
          "\<And>q. managed s2 q \<Longrightarrow> rc s3 q = rc s2 q - int (card (range_maps (pte_of (mem s2) new) 0 (unat (i div PGSIZE)) q))"
          "\<And>b. managed s2 (align_down 12 b) \<Longrightarrow> align_down 12 b \<notin> foot (mem s2) new \<Longrightarrow> 0 < rc s3 (align_down 12 b) \<Longrightarrow> mem s3 b = mem s2 b"
          "tables (mem s3) R = tables (mem s2) R"
          by (rule vm_uvmunmap [OF s2(2) nn Suc.prems(4) pz k]) (rule that)
        have u: "unat (i div PGSIZE) * 4096 = unat i"
          using Suc.prems(6) by (simp add: unat_div_PGSIZE page_aligned_unat mod_eq_0_iff_dvd)
        have res: "uvmcopy_loop (Suc n) old new i lim s = Inr (-1, s3)"
          using lt w lp v ld s2(1) s3(1) unfolding uvmcopy_loop_Suc by simp
        have gone: "\<not> bit (pte_of (mem s3) new vb) 0" if "vpage vb < lim" for vb
        proof (cases "vpage vb < i")
          case True
          then show ?thesis using s3(3) [OF Suc.prems(4), of vb] by (simp add: in_range_def u word_less_nat_alt)
        next
          case False
          then have "below i lim vb" using that by (simp add: below_def)
          then show ?thesis
            using Suc.prems(10) [of vb] s3(3) [OF Suc.prems(4), of vb] s2(4) [OF Suc.prems(4), of vb] Suc.prems(5) by auto
        qed
        have "mem s3 b = mem s2 b" if b: "maps (mem s2) (R - {new}) (align_down 12 b) \<noteq> {}" for b
        proof -
          have "maps (mem s3) (R - {new}) (align_down 12 b) \<noteq> {}" by (rule maps_mono_cow [OF _ b]) (simp add: s3(3))
          then have m3: "maps (mem s3) R (align_down 12 b) \<noteq> {}" by (rule maps_mono_set) auto
          note vm = vm_mapped [OF s3(2) nn m3]
          have "align_down 12 b \<notin> foot (mem s2) new" using vm(3) s3(7) Suc.prems(4) by (auto simp: tables_def)
          then show ?thesis
            using s3(6) [of b] vm(1,2) managed_mem_step [OF touchesD(1) [OF s3(4)]] by simp
        qed
        then have "same_data (R - {new}) s2 s3" using touchesD(1) [OF s3(4)] by (simp add: same_data_def)
        moreover have "maps (mem s2) (R - {new}) p \<noteq> {}" if "maps (mem s) (R - {new}) p \<noteq> {}" for p
          by (rule maps_mono_cow [OF _ that]) (use v same in \<open>auto simp: s2(4)\<close>)
        ultimately have "same_data (R - {new}) s s3"
          using same_data_trans [OF same_data_mono [OF s2(3)], of "R - {new}" s3] by auto
        then show ?thesis
          using res s3(2) gone s3(3) s2(4) Suc.prems(3,5) same
          by (intro exI [of _ "-1"] exI [of _ s3]) auto
      qed
    qed
  qed
qed

section \<open>A new address space\<close>

lemma zero_tree:
  assumes "page_aligned p" "\<And>b. align_down 12 b = p \<Longrightarrow> m b = 0"
  shows "pt_at m p va (Suc d) = None" "pte_of m p va = 0" "foot m p = {p}" "p \<noteq> 0 \<Longrightarrow> wf_tree m p"
proof -
  have "load64 m (entry p k va) = 0" for k va
    using assms(1) by (intro load64_zero) (auto simp: entry_slot slot_entry_facts dest!: align_down_12_3 intro!: assms(2))
  then have n: "pt_at m p va (Suc d) = None" for va d
    by (induction d) (auto simp: PTE_is_def Let_def)
  then show "pt_at m p va (Suc d) = None" .
  have iff: "pt_at m p va d = Some q \<longleftrightarrow> d = 0 \<and> q = p" for va d q using n by (cases d) auto
  show "pte_of m p va = 0" using n [of va 1] by (simp add: pte_of_def numeral_2_eq_2)
  show "foot m p = {p}" by (auto simp: foot_def iff)
  show "wf_tree m p" if "p \<noteq> 0" using that assms(1) by (auto simp: wf_tree_def iff same_path_def)
qed

lemma vm_uvmcreate:
  assumes i: "vm_inv s R ext" and n: "\<And>q. 0 \<le> ext q"
  obtains (none) "uvmcreate s = Inr (0, s)"
  | (some) pg s' where "uvmcreate s = Inr (pg, s')" "pg \<noteq> 0" "pg \<notin> R" "vm_inv s' (insert pg R) ext"
      "\<And>vb. pte_of (mem s') pg vb = 0" "\<And>r vb. r \<in> R \<Longrightarrow> pte_of (mem s') r vb = pte_of (mem s) r vb"
      "same_data R s s'"
proof -
  note k = vm_invD(1) [OF i]
  obtain pg s1 where ka: "kalloc s = Inr (pg, s1)" using kmem.alloc_law [OF k] by blast
  show ?thesis
  proof (cases "pg = 0")
    case True
    then have "s1 = s" using kmem.alloc_law [OF k] ka kmem.nil_no_page [OF k] by auto
    then show ?thesis using none ka True by (simp add: uvmcreate_def)
  next
    case False
    let ?m = "fill (mem s) pg 0 4096"
    have al: "page_aligned pg" and ms: "memset (mem s1) pg 0 4096 = ?m" using kalloc_zeroedD [OF k ka False] by blast+
    have mo: "\<forall>b. align_down 12 b \<noteq> pg \<longrightarrow> ?m b = mem s b" using al by (simp add: fill_other)
    define s' where "s' = s1\<lparr>mem := ?m\<rparr>"
    note f = kalloc_fresh [OF k ka False mo, folded s'_def]
    note v = vm_kalloc [OF i n ka False mo, folded s'_def]
    have m': "mem s' = ?m" by (simp add: s'_def)
    have res: "uvmcreate s = Inr (pg, s')" using ka False ms by (simp add: uvmcreate_def s'_def)
    note fr = vm_free [OF i n f(4)]
    have nr: "pg \<notin> R" using fr(2) by (auto simp: tables_def)
    have z: "\<And>b. align_down 12 b = pg \<Longrightarrow> mem s' b = 0" using al by (simp add: m' fill_same)
    note zt = zero_tree [OF al z]
    have tb: "tables (mem s') R = tables (mem s) R" "pg \<notin> tables (mem s') R" using v(3) fr(2) by (simp_all add: m')
    have tb': "tables (mem s') (insert pg R) = insert pg (tables (mem s') R)" using zt(3) by (simp add: tables_def)
    have mp: "maps (mem s') (insert pg R) q = maps (mem s') R q" for q using zt(2) nr by (auto simp: maps_def)
    have mgd: "managed s' pg" "rc s' pg = 1"
      using f(3,4) managed_mem_step [OF touchesD(1) [OF f(2)]] by (auto simp: free_pg_def)
    have tk: "tree_ok s' pg" using zt(3,4) False mgd by (simp add: tree_ok_def)
    have dj: "foot (mem s') pg \<inter> foot (mem s') q = {}" "foot (mem s') q \<inter> foot (mem s') pg = {}" if "q \<in> R" for q
      using tb(2) zt(3) that by (auto simp: tables_def)
    have tr: "trees_ok s' (insert pg R)"
      using vm_invD(2) [OF v(1)] tk dj by (simp add: trees_ok_def)
    have lv: "leaves_ok (mem s') (insert pg R)"
      using vm_invD(3) [OF v(1)] zt(2) by (simp add: leaves_ok_def leaf_ok_def)
    have iso: "isolated (mem s') (insert pg R)"
      using vm_invD(5) [OF v(1)] unfolding isolated_def mp .
    have "counts_ok s' (insert pg R) ext"
      unfolding counts_ok_def mp tb'
      using vm_invD(7,8) [OF v(1)] tb(2) by auto
    then have inv: "vm_inv s' (insert pg R) ext" using vm_invD(1) [OF v(1)] tr lv iso by (simp add: vm_inv_def)
    have sd: "same_data R s s'" by (rule same_data_touches [OF i n f(2)]) simp
    show ?thesis by (rule some [OF res False nr inv zt(2) _ sd]) (use v(2) m' in auto)
  qed
qed

section \<open>A fresh zero page\<close>

lemma vm_map_fresh:
  assumes i: "vm_inv s R ext" and n: "\<And>q. 0 \<le> ext q" and r: "r \<in> R"
    and a: "page_aligned a" "a < TRAPFRAME" "\<not> bit (pte_of (mem s) r a) 0"
    and p: "flags_ok perm" "bit perm 1"
  obtains (none) "kalloc s = Inr (0, s)"
  | (mapped) pg s1 s' where "kalloc s = Inr (pg, s1)" "pg \<noteq> 0" "free_pg s pg"
      "mappages r a PGSIZE pg perm (s1\<lparr>mem := memset (mem s1) pg 0 4096\<rparr>) = Inr (0, s')"
      "vm_inv s' R ext" "same_data R s s'"
      "\<And>r' vb. r' \<in> R \<Longrightarrow> pte_of (mem s') r' vb =
         (if r' = r \<and> vpage vb = a then PA2PTE pg OR perm OR PTE_V else pte_of (mem s) r' vb)"
      "\<And>b. align_down 12 b = pg \<Longrightarrow> mem s' b = 0"
  | (nomem) pg s1 s2 s' where "kalloc s = Inr (pg, s1)" "pg \<noteq> 0"
      "mappages r a PGSIZE pg perm (s1\<lparr>mem := memset (mem s1) pg 0 4096\<rparr>) = Inr (-1, s2)"
      "kfree pg s2 = Inr s'" "vm_inv s' R ext" "same_data R s s'"
      "\<And>r' vb. r' \<in> R \<Longrightarrow> pte_of (mem s') r' vb = pte_of (mem s) r' vb"
proof -
  note k = vm_invD(1) [OF i]
  obtain pg s1 where ka: "kalloc s = Inr (pg, s1)" using kmem.alloc_law [OF k] by blast
  show ?thesis
  proof (cases "pg = 0")
    case True
    then have "s1 = s" using kmem.alloc_law [OF k] ka kmem.nil_no_page [OF k] by auto
    then show ?thesis using none ka True by simp
  next
    case False
    let ?m = "fill (mem s) pg 0 4096"
    have al: "page_aligned pg" and ms: "memset (mem s1) pg 0 4096 = ?m" using kalloc_zeroedD [OF k ka False] by blast+
    have mo: "\<forall>b. align_down 12 b \<noteq> pg \<longrightarrow> ?m b = mem s b" using al by (simp add: fill_other)
    define s' where "s' = s1\<lparr>mem := ?m\<rparr>"
    note f = kalloc_fresh [OF k ka False mo, folded s'_def]
    note v = vm_kalloc [OF i n ka False mo, folded s'_def]
    have m': "mem s' = ?m" by (simp add: s'_def)
    have s'e: "s1\<lparr>mem := memset (mem s1) pg 0 4096\<rparr> = s'" by (simp add: s'_def ms)
    note fr = vm_free [OF i n f(4)]
    have pt: "pte_of (mem s') r' vb = pte_of (mem s) r' vb" if "r' \<in> R" for r' vb using v(2) [OF that] by (simp add: m')
    have mp: "maps (mem s') R q = maps (mem s) R q" for q using maps_cong(1) [of R "mem s'" "mem s"] pt by blast
    have mg: "managed s' q = managed s q" for q by (rule managed_mem_step [OF touchesD(1) [OF f(2)]])
    have mgd: "managed s' pg" "rc s' pg = 1" using f(3,4) mg by (auto simp: free_pg_def)
    have sd: "same_data R s s'" by (rule same_data_touches [OF i n f(2)]) simp
    have am: "a < MAXVA" using a(2) TRAPFRAME_MAXVA by (rule order_less_trans)
    have un: "\<not> bit (pte_of (mem s') r a) 0" using a(3) pt [OF r] by simp
    have lf: "leaf_ok (perm OR PTE_V)" using p(2) by (simp add: leaf_ok_def bit_simps)
    have nn: "0 \<le> ext q + (if q = pg then 1 else 0)" for q using n [of q] by simp
    have sd2: "same_data R s s2" if "touches (foot (mem s') r) s' s2" for s2
      by (rule same_data_trans [OF sd same_data_touches [OF v(1) nn that]]) (use r mp in \<open>auto simp: tables_def\<close>)
    show ?thesis
    proof (rule vm_mappages [OF v(1) r a(1) am un al p(1) lf])
      show "managed s' pg \<and> 0 < rc s' pg" using mgd by simp
      show "\<not> bit perm 2 \<and> \<not> bit (pte_of (mem s') r' v') 2" if "(r', v') \<in> maps (mem s') R pg" for r' v'
        using that fr(1) by (simp add: mp)
    next
      fix s2
      assume s2: "mappages r a PGSIZE pg perm s' = Inr (0, s2)"
        "vm_inv s2 R (\<lambda>q. ext q + (if q = pg then 1 else 0) - (if a < TRAPFRAME \<and> q = pg then 1 else 0))"
        "touches (foot (mem s') r) s' s2"
        "\<And>r' vb. r' \<in> R \<Longrightarrow> pte_of (mem s2) r' vb =
           (if r' = r \<and> vpage vb = a then PA2PTE pg OR perm OR PTE_V else pte_of (mem s') r' vb)"
      have inv: "vm_inv s2 R ext" by (rule vm_inv_ext_cong [OF s2(2)]) (use a(2) in simp)
      have "pg \<notin> foot (mem s') r" using fr(2) v(5) [OF r] r by (auto simp: tables_def m')
      then have "mem s2 b = 0" if "align_down 12 b = pg" for b
        using touchesD(3) [OF s2(3), of b] that al mgd by (simp add: free_pg_def m' fill_same)
      then show thesis
        by (intro mapped [OF ka False f(4) _ inv sd2 [OF s2(3)]]) (use s2(1,4) s'e pt in auto)
    next
      fix s2
      assume s2: "mappages r a PGSIZE pg perm s' = Inr (-1, s2)"
        "vm_inv s2 R (\<lambda>q. ext q + (if q = pg then 1 else 0))" "touches (foot (mem s') r) s' s2"
        "\<And>r' vb. r' \<in> R \<Longrightarrow> pte_of (mem s2) r' vb = pte_of (mem s') r' vb"
        "\<And>q. managed s' q \<Longrightarrow> 0 < rc s' q \<Longrightarrow> rc s2 q = rc s' q"
      have mp2: "maps (mem s2) R q = maps (mem s) R q" for q by (rule maps_cong(1)) (simp add: s2(4) pt)
      have h: "managed s2 pg" "0 < rc s2 pg"
        using mgd s2(5) managed_mem_step [OF touchesD(1) [OF s2(3)]] by auto
      have nt: "pg \<notin> tables (mem s2) R"
        using vm_invD(7) [OF s2(2) h(1)] s2(5) [of pg] mgd fr(1,3) by (auto simp: mp2)
      obtain s3 where s3: "kfree pg s2 = Inr s3"
        "vm_inv s3 R (\<lambda>q. ext q + (if q = pg then 1 else 0) - (if q = pg then 1 else 0))" "touches {pg} s2 s3"
        "\<And>r v. r \<in> R \<Longrightarrow> pte_of (mem s3) r v = pte_of (mem s2) r v"
        "\<And>q. managed s2 q \<Longrightarrow> rc s3 q = rc s2 q - (if q = pg then 1 else 0)" "\<And>b. 1 < rc s2 pg \<Longrightarrow> mem s3 b = mem s2 b"
        "tables (mem s3) R = tables (mem s2) R"
        by (rule vm_kfree [OF s2(2) h nt]) (rule that)
      have inv: "vm_inv s3 R ext" by (rule vm_inv_ext_cong [OF s3(2)]) simp
      have "mem s3 b = mem s2 b" if "maps (mem s2) R (align_down 12 b) \<noteq> {}" for b
        using that fr(1) touchesD(3) [OF s3(3), of b] vm_mapped(2) [OF s2(2) nn that] by (auto simp: mp2 free_pg_def)
      then have "same_data R s2 s3" using touchesD(1) [OF s3(3)] by (simp add: same_data_def)
      then have d: "same_data R s s3" by (rule same_data_trans [OF sd2 [OF s2(3)]]) (simp add: mp2)
      show thesis by (rule nomem [OF ka False _ s3(1) inv d]) (use s2(1,4) s'e s3(4) pt in auto)
    qed
  qed
qed

end
