(* ===== verification/Ucopy.thy ===== *)
theory Ucopy
  imports Uspace
begin

unbundle bit_operations_syntax

text \<open>
  The memory a user process sees, and what \<open>copyin\<close>, \<open>copyout\<close>, \<open>copyinstr\<close> and
  \<open>vmfault\<close> do to it: the bytes of the range move, no other byte of any address space
  changes.
\<close>

section \<open>User memory\<close>

text \<open>\<open>uaddr m r va\<close>: the physical address of a mapped user address; \<open>ubyte\<close>: its byte.\<close>

definition uaddr :: "memory \<Rightarrow> u64 \<Rightarrow> u64 \<Rightarrow> u64" where
  "uaddr m r va = PTE2PA (pte_of m r va) + (va - align_down 12 va)"

definition ubyte :: "memory \<Rightarrow> u64 \<Rightarrow> u64 \<Rightarrow> u8" where
  "ubyte m r va = m (uaddr m r va)"

definition uvalid :: "memory \<Rightarrow> u64 \<Rightarrow> u64 \<Rightarrow> bool" where
  "uvalid m r va \<longleftrightarrow> va < TRAPFRAME \<and> bit (pte_of m r va) 0"

definition uperm :: "memory \<Rightarrow> u64 \<Rightarrow> u64 \<Rightarrow> nat \<Rightarrow> bool" where
  "uperm m r va k \<longleftrightarrow> uvalid m r va \<and> bit (pte_of m r va) 4 \<and> bit (pte_of m r va) k"

lemma page_offset: "unat (va - align_down 12 va) < 4096" "align_down 12 va + (va - align_down 12 va) = va"
proof -
  have "va - align_down 12 va = take_bit 12 va"
    using align_down_plus_take_bit [of 12 va] by (metis add_diff_cancel_left')
  then show "unat (va - align_down 12 va) < 4096" using unat_take_bit_less [of 12 va] by simp
qed simp

lemma align_down_page_add: "page_aligned p \<Longrightarrow> unat d < 4096 \<Longrightarrow> align_down 12 (p + d) = p"
  using align_down_add_offset [of 12 p d] by (simp add: page_aligned_iff)

lemma uaddr_page: "align_down 12 (uaddr m r va) = PTE2PA (pte_of m r va)"
  unfolding uaddr_def using page_offset(1) by (intro align_down_page_add) simp_all

lemma uvalid_maps:
  assumes "r \<in> R" "uvalid m r va"
  shows "(r, align_down 12 va) \<in> maps m R (PTE2PA (pte_of m r va))" "pte_of m r (align_down 12 va) = pte_of m r va"
    "va < MAXVA"
proof -
  have lt: "va < MAXVA" using assms(2) TRAPFRAME_MAXVA by (auto simp: uvalid_def)
  then show "va < MAXVA" .
  have vp: "vpage va = align_down 12 va" by (rule vpage_low [OF lt])
  show e: "pte_of m r (align_down 12 va) = pte_of m r va" using vp pte_of_vpage_self [of m r va] by simp
  have "align_down 12 va < TRAPFRAME" using assms(2) align_down_le [of 12 va]
    by (auto simp: uvalid_def word_less_nat_alt)
  moreover have "vpage (align_down 12 va) = align_down 12 va" using vp by simp
  ultimately show "(r, align_down 12 va) \<in> maps m R (PTE2PA (pte_of m r va))"
    using assms e by (simp add: maps_def uvalid_def)
qed

text \<open>Two user addresses that share a byte of memory are the same page offset of pages
  mapped to one frame; if one of them is writable they are the same address.\<close>

lemma uaddr_inj:
  assumes "isolated m R" "r \<in> R" "r' \<in> R" "uvalid m r va" "uvalid m r' va'" "bit (pte_of m r va) 2"
    "uaddr m r va = uaddr m r' va'"
  shows "r' = r \<and> va' = va"
proof -
  have p: "PTE2PA (pte_of m r va) = PTE2PA (pte_of m r' va')" using uaddr_page [of m r va] uaddr_page [of m r' va'] assms(7) by simp
  note m = uvalid_maps [OF assms(2,4)] uvalid_maps [OF assms(3,5)]
  have "(r, align_down 12 va) = (r', align_down 12 va')"
    using assms(1,6) m p unfolding isolated_def by metis
  moreover have "va - align_down 12 va = va' - align_down 12 va'" using assms(7) p by (simp add: uaddr_def)
  ultimately show ?thesis using page_offset(2) [of va] page_offset(2) [of va'] by (metis Pair_inject)
qed

text \<open>Writing bytes into one writable page.\<close>

lemma vm_write_page:
  assumes i: "vm_inv s R ext" and n: "\<And>q. 0 \<le> ext q" and r: "r \<in> R"
    and v: "uvalid (mem s) r va" "bit (pte_of (mem s) r va) 2"
    and len: "unat (va - align_down 12 va) + length bs \<le> 4096"
  defines "s' \<equiv> s\<lparr>mem := put_bytes (mem s) (uaddr (mem s) r va) bs\<rparr>"
  shows "vm_inv s' R ext" "\<And>r' vb. r' \<in> R \<Longrightarrow> pte_of (mem s') r' vb = pte_of (mem s) r' vb"
    "\<And>r' vb. r' \<in> R \<Longrightarrow> uvalid (mem s) r' vb \<Longrightarrow>
      ubyte (mem s') r' vb = (if r' = r \<and> in_range vb va (length bs) then bs ! unat (vb - va) else ubyte (mem s) r' vb)"
proof -
  let ?a = "uaddr (mem s) r va" and ?p = "PTE2PA (pte_of (mem s) r va)"
  note um = uvalid_maps [OF r v(1)]
  have ne: "maps (mem s) R ?p \<noteq> {}" using um(1) by auto
  note pm = vm_mapped [OF i n ne]
  have in_page: "align_down 12 b = ?p" if "in_range b ?a (length bs)" for b
  proof -
    have d: "unat (b - ?a) < length bs" using that by (simp add: in_range_def)
    have "b = ?p + ((va - align_down 12 va) + (b - ?a))" by (simp add: uaddr_def algebra_simps)
    moreover have "unat ((va - align_down 12 va) + (b - ?a)) < 4096"
      using d len unat_plus_if_size [of "va - align_down 12 va" "b - ?a"] by (simp add: word_size split: if_splits)
    ultimately show ?thesis using align_down_page_add [OF pm(4)] by metis
  qed
  have out: "mem s' b = mem s b" if "align_down 12 b \<noteq> ?p" for b
    using that in_page [of b] by (auto simp: s'_def put_bytes_def)
  have k: "kmem_ok s'"
    unfolding s'_def by (rule kmem_ok_mem [OF vm_invD(1) [OF i]])
      (use out pm(2) in \<open>force simp: s'_def free_pg_def\<close>)
  have t: "touches {?p} s s'" unfolding touches_def using out by (simp add: s'_def)
  have d: "tables (mem s) R \<inter> {?p} = {}" using pm(3) by simp
  note f = vm_frame [OF i k t d, where \<delta> = "\<lambda>_. 0"]
  show "vm_inv s' R ext" using f(1) by (simp add: s'_def)
  show p: "pte_of (mem s') r' vb = pte_of (mem s) r' vb" if "r' \<in> R" for r' vb using f(2) that by (simp add: s'_def)
  fix r' vb assume r': "r' \<in> R" and vb: "uvalid (mem s) r' vb"
  have ua: "uaddr (mem s') r' vb = uaddr (mem s) r' vb" by (simp add: uaddr_def p [OF r'])
  have ub: "ubyte (mem s') r' vb = put_bytes (mem s) ?a bs (uaddr (mem s) r' vb)"
    unfolding ubyte_def ua by (simp add: s'_def)
  show "ubyte (mem s') r' vb = (if r' = r \<and> in_range vb va (length bs) then bs ! unat (vb - va) else ubyte (mem s) r' vb)"
  proof (cases "r' = r \<and> in_range vb va (length bs)")
    case True
    then have d: "unat (vb - va) < length bs" by (simp add: in_range_def)
    have "vb = align_down 12 va + ((va - align_down 12 va) + (vb - va))" by simp
    moreover have "unat ((va - align_down 12 va) + (vb - va)) < 4096"
      using d len unat_plus_if_size [of "va - align_down 12 va" "vb - va"] by (simp add: word_size split: if_splits)
    ultimately have av: "align_down 12 vb = align_down 12 va"
      using align_down_page_add [OF align_down_align_down_page, of _ va] by metis
    have "pte_of (mem s) r vb = pte_of (mem s) r va"
      using av um(2) uvalid_maps(2) [OF r, of "mem s" vb] vb True by simp
    then have "uaddr (mem s) r' vb - ?a = vb - va" using True av by (simp add: uaddr_def)
    then show ?thesis using True d unfolding ub by (simp add: put_bytes_def in_range_def)
  next
    case False
    have "\<not> in_range (uaddr (mem s) r' vb) ?a (length bs)"
    proof
      assume a: "in_range (uaddr (mem s) r' vb) ?a (length bs)"
      have pp: "PTE2PA (pte_of (mem s) r' vb) = ?p" using in_page [OF a] uaddr_page [of "mem s" r' vb] by simp
      have "(r', align_down 12 vb) = (r, align_down 12 va)"
        using vm_invD(5) [OF i] um uvalid_maps [OF r' vb] pp v(2) unfolding isolated_def by metis
      then have e: "r' = r" "align_down 12 vb = align_down 12 va" by auto
      have "uaddr (mem s) r' vb - ?a = vb - va" using pp e by (simp add: uaddr_def)
      then show False using a e False by (simp add: in_range_def)
    qed
    then show ?thesis using False unfolding ub by (auto simp: put_bytes_def ubyte_def)
  qed
qed

section \<open>copyout\<close>

text \<open>The part of a range that lies in the first page.\<close>

definition chunk :: "u64 \<Rightarrow> u64 \<Rightarrow> u64" where
  "chunk va len = (let n = PGSIZE - (va - align_down 12 va) in if n > len then len else n)"

lemma unat_chunk: "unat (chunk va len) = min (4096 - unat (va - align_down 12 va)) (unat len)"
proof -
  have "unat (PGSIZE - (va - align_down 12 va)) = 4096 - unat (va - align_down 12 va)"
    using page_offset(1) [of va] by (simp add: PGSIZE_def unat_sub word_le_nat_alt)
  then show ?thesis by (auto simp: chunk_def Let_def word_less_nat_alt min_def)
qed

lemma range_split:
  assumes "0 < len"
  shows "0 < unat (chunk va len)" "chunk va len \<le> len" "unat (len - chunk va len) = unat len - unat (chunk va len)"
    "chunk va len = len \<or> va + chunk va len = align_down 12 va + PGSIZE"
    "unat (va - align_down 12 va) + unat (chunk va len) \<le> 4096"
proof -
  note u = unat_chunk [of va len] and p = page_offset(1) [of va]
  have l: "0 < unat len" using assms by (simp add: word_less_nat_alt)
  show "0 < unat (chunk va len)" using u p l by simp
  show le: "chunk va len \<le> len" using u by (simp add: word_le_nat_alt)
  show "unat (len - chunk va len) = unat len - unat (chunk va len)" using le by (rule unat_sub)
  show "chunk va len = len \<or> va + chunk va len = align_down 12 va + PGSIZE"
    by (auto simp: chunk_def Let_def algebra_simps)
  show "unat (va - align_down 12 va) + unat (chunk va len) \<le> 4096" using u p by simp
qed

lemma next_offset: "align_down 12 (align_down 12 va + PGSIZE) = align_down 12 va + PGSIZE" if "va < MAXVA"
proof -
  have "unat (align_down 12 va) + 4096 < 2 ^ 64"
    using that align_down_le [of 12 va] by (simp add: word_less_nat_alt MAXVA_eq)
  then have u: "unat (align_down 12 va + PGSIZE) = unat (align_down 12 va) + 4096"
    by (simp add: unat_word_ariths PGSIZE_def)
  have "unat (align_down 12 va) mod 4096 = 0" using align_down_align_down_page [of va] page_aligned_unat by blast
  then have "page_aligned (align_down 12 va + PGSIZE)" by (simp add: page_aligned_unat u)
  then show ?thesis by (simp add: page_aligned_iff)
qed

definition in_user :: "memory \<Rightarrow> u64 \<Rightarrow> u64 \<Rightarrow> u64 \<Rightarrow> nat \<Rightarrow> bool" where
  "in_user m r va len k \<longleftrightarrow> (\<forall>j < unat len. uperm m r (va + of_nat j) k)"

lemma uperm_walkaddr:
  assumes i: "vm_inv s R ext" and r: "r \<in> R" and u: "uperm (mem s) r va k"
  shows "walkaddr r (align_down 12 va) s = Inr (PTE2PA (pte_of (mem s) r va), s)" "PTE2PA (pte_of (mem s) r va) \<noteq> 0"
    "align_down 12 va < MAXVA"
proof -
  have v: "uvalid (mem s) r va" using u by (simp add: uperm_def)
  note m = uvalid_maps [OF r v]
  have "managed s (PTE2PA (pte_of (mem s) r va))" by (rule vm_invD(8) [OF i]) (use m in auto)
  then show "PTE2PA (pte_of (mem s) r va) \<noteq> 0" using kmem.nil_no_page [OF vm_invD(1) [OF i]] by metis
  show lt: "align_down 12 va < MAXVA" using m(3) align_down_le [of 12 va] by (simp add: word_less_nat_alt)
  show "walkaddr r (align_down 12 va) s = Inr (PTE2PA (pte_of (mem s) r va), s)"
    using walkaddr_eq [OF tree_okD(1) [OF vm_invD(6) [OF i r]], of "align_down 12 va"] lt u m(2)
    by (simp add: uperm_def uvalid_def)
qed

lemma copyout_loop_Suc:
  "copyout_loop (Suc k) pt dstva src len s =
     (if len > 0
      then
        if align_down 12 dstva \<ge> MAXVA then Inr (-1, s)
        else andthen (walkaddr pt (align_down 12 dstva) s) (\<lambda>(pa0, s).
             andthen (if pa0 = 0 then vmfault pt (align_down 12 dstva) s else Inr (pa0, s)) (\<lambda>(pa0, s).
             if pa0 = 0 then Inr (-1, s)
             else andthen (walk pt (align_down 12 dstva) False s) (\<lambda>(pte, s).
               if pte = 0 then Inl (Block ''null pte'')
               else if \<not> PTE_is (load64 (mem s) pte) PTE_W then Inr (-1, s)
               else copyout_loop k pt (align_down 12 dstva + PGSIZE) (drop (unat (chunk dstva len)) src) (len - chunk dstva len)
                  (s\<lparr>mem := put_bytes (mem s) (pa0 + (dstva - align_down 12 dstva)) (take (unat (chunk dstva len)) src)\<rparr>))))
      else Inr (0, s))"
  unfolding copyout_loop.simps PGROUNDDOWN_align_down chunk_def Let_def by (rule refl)

lemma copyout_loop_0: "copyout_loop k pt dstva src 0 s = Inr (0, s)"
  by (cases k) simp_all

lemma in_range_rest:
  fixes n len vb d :: u64
  assumes "unat n < unat len"
  shows "in_range vb (d + n) (unat (len - n)) \<longleftrightarrow> in_range vb d (unat len) \<and> \<not> in_range vb d (unat n)"
proof -
  define x where "x = vb - d"
  have b: "vb - (d + n) = x - n" by (simp add: x_def algebra_simps)
  have l: "unat (len - n) = unat len - unat n" using assms by (simp add: unat_sub word_le_nat_alt)
  show ?thesis
  proof (cases "n \<le> x")
    case True
    then show ?thesis using unat_sub [OF True] l assms by (auto simp: in_range_def b x_def [symmetric] word_le_nat_alt)
  next
    case False
    then have "unat (x - n) = 2 ^ 64 + unat x - unat n"
      using unat_sub_if_size [of x n] by (simp add: word_size word_le_nat_alt)
    moreover have "unat len < 2 ^ 64" using unsigned_less [of len] by simp
    ultimately show ?thesis using False l assms by (auto simp: in_range_def b x_def [symmetric] word_le_nat_alt)
  qed
qed

lemma in_range_rest_index:
  fixes n vb d :: u64
  assumes "\<not> in_range vb d (unat n)"
  shows "unat (vb - (d + n)) = unat (vb - d) - unat n"
proof -
  have "vb - (d + n) = (vb - d) - n" by (simp add: algebra_simps)
  moreover have "unat ((vb - d) - n) = unat (vb - d) - unat n"
    using assms unat_sub [of n "vb - d"] by (simp add: in_range_def word_le_nat_alt)
  ultimately show ?thesis by (rule ssubst)
qed

lemma vm_copyout_loop:
  assumes "vm_inv s R ext" "\<And>q. 0 \<le> ext q" "r \<in> R" "length src = unat len" "unat dstva + unat len \<le> 2 ^ 38"
    "in_user (mem s) r dstva len 2" "unat len + unat (dstva - align_down 12 dstva) \<le> k * 4096"
  shows "\<exists>s'. copyout_loop k r dstva src len s = Inr (0, s') \<and> vm_inv s' R ext \<and>
    (\<forall>r' \<in> R. \<forall>vb. pte_of (mem s') r' vb = pte_of (mem s) r' vb) \<and>
    (\<forall>r' \<in> R. \<forall>vb. uvalid (mem s) r' vb \<longrightarrow> ubyte (mem s') r' vb =
       (if r' = r \<and> in_range vb dstva (unat len) then src ! unat (vb - dstva) else ubyte (mem s) r' vb))"
  using assms
proof (induction k arbitrary: dstva src len s)
  case 0
  then have "len = 0" by (simp add: unat_eq_0)
  then show ?case using 0 by simp
next
  case (Suc k)
  show ?case
  proof (cases "len = 0")
    case True
    then show ?thesis using Suc.prems(1) by (simp add: copyout_loop_0)
  next
    case False
    then have pos: "0 < len" by (simp add: word_neq_0_conv)
    note rs = range_split [OF pos, of dstva]
    let ?n = "chunk dstva len" and ?a = "align_down 12 dstva"
    have up: "uperm (mem s) r dstva 2" using Suc.prems(6) pos by (auto simp: in_user_def word_less_nat_alt dest: spec [of _ 0])
    then have uv: "uvalid (mem s) r dstva" "bit (pte_of (mem s) r dstva) 2" by (simp_all add: uperm_def)
    note wa = uperm_walkaddr [OF Suc.prems(1,3) up]
    note um = uvalid_maps [OF Suc.prems(3) uv(1)]
    have lp0: "leaf_ptr (mem s) r ?a \<noteq> 0"
      using leaf_ptr_0_pte [OF tree_okD(1) [OF vm_invD(6) [OF Suc.prems(1,3)]], of ?a] uv um(2) by auto
    have lp: "leaf_ptr (mem s) r ?a \<noteq> 0" "load64 (mem s) (leaf_ptr (mem s) r ?a) = pte_of (mem s) r dstva"
      using lp0 leaf_ptr_load [OF lp0] um(2) by simp_all
    let ?bs = "take (unat ?n) src"
    have lb: "length ?bs = unat ?n" using Suc.prems(4) rs(2) by (simp add: word_le_nat_alt)
    define s1 where "s1 = s\<lparr>mem := put_bytes (mem s) (uaddr (mem s) r dstva) ?bs\<rparr>"
    have "unat (dstva - ?a) + length ?bs \<le> 4096" using rs(5) lb by simp
    note w = vm_write_page [OF Suc.prems(1,2,3) uv this, folded s1_def, unfolded lb]
    have step: "copyout_loop (Suc k) r dstva src len s =
       copyout_loop k r (?a + PGSIZE) (drop (unat ?n) src) (len - ?n) s1"
    proof -
      have "\<not> MAXVA \<le> ?a" using wa(3) by (simp add: not_le)
      then show ?thesis
        using pos wa(1,2) lp uv(2) by (subst copyout_loop_Suc) (simp add: walk_ro s1_def uaddr_def del: copyout_loop.simps)
    qed
    have val: "uvalid (mem s1) r' vb = uvalid (mem s) r' vb" if "r' \<in> R" for r' vb using w(2) [OF that] by (simp add: uvalid_def)
    show ?thesis
    proof (cases "?n = len")
      case True
      then show ?thesis using step w lb Suc.prems(4) by (auto simp: copyout_loop_0)
    next
      case False
      then have nx: "dstva + ?n = ?a + PGSIZE" using rs(4) by simp
      have un: "unat (?a + PGSIZE) = unat dstva + unat ?n"
        unfolding nx [symmetric] using Suc.prems(5) rs(2) by (simp add: unat_word_ariths word_le_nat_alt)
      have al: "align_down 12 (?a + PGSIZE) = ?a + PGSIZE" by (rule next_offset [OF um(3)])
      have off: "unat ?n = 4096 - unat (dstva - ?a)" using unat_chunk [of dstva len] False by (auto simp: min_def word_unat_eq_iff split: if_splits)
      have iu: "in_user (mem s1) r (?a + PGSIZE) (len - ?n) 2"
        unfolding in_user_def
      proof (intro allI impI)
        fix j assume j: "j < unat (len - ?n)"
        have "unat ?n + j < unat len" using j rs(3) by simp
        then have u: "uperm (mem s) r (dstva + of_nat (unat ?n + j)) 2"
          using Suc.prems(6) unfolding in_user_def by blast
        have e: "dstva + of_nat (unat ?n + j) = ?a + PGSIZE + of_nat j"
          unfolding nx [symmetric] by simp
        show "uperm (mem s1) r (?a + PGSIZE + of_nat j) 2"
          using u [unfolded e] w(2) [OF Suc.prems(3)] val [OF Suc.prems(3)] by (simp add: uperm_def)
      qed
      have nle: "unat ?n < unat len" using rs(2) False by (simp add: word_le_nat_alt word_unat_eq_iff order_less_le)
      have hb: "unat (?a + PGSIZE) + unat (len - ?n) \<le> 2 ^ 38" using un rs(3) nle Suc.prems(5) by linarith
      have ih: "\<exists>s'. copyout_loop k r (?a + PGSIZE) (drop (unat ?n) src) (len - ?n) s1 = Inr (0, s') \<and> vm_inv s' R ext \<and>
        (\<forall>r' \<in> R. \<forall>vb. pte_of (mem s') r' vb = pte_of (mem s1) r' vb) \<and>
        (\<forall>r' \<in> R. \<forall>vb. uvalid (mem s1) r' vb \<longrightarrow> ubyte (mem s') r' vb =
          (if r' = r \<and> in_range vb (?a + PGSIZE) (unat (len - ?n)) then drop (unat ?n) src ! unat (vb - (?a + PGSIZE)) else ubyte (mem s1) r' vb))"
        using Suc.prems(2,3,4,7) rs(3) hb al off iu w(1) page_offset(1) [of dstva]
        by (intro Suc.IH) auto
      then obtain s' where s': "copyout_loop k r (?a + PGSIZE) (drop (unat ?n) src) (len - ?n) s1 = Inr (0, s')" "vm_inv s' R ext"
        "\<forall>r' \<in> R. \<forall>vb. pte_of (mem s') r' vb = pte_of (mem s1) r' vb"
        "\<forall>r' \<in> R. \<forall>vb. uvalid (mem s1) r' vb \<longrightarrow> ubyte (mem s') r' vb =
          (if r' = r \<and> in_range vb (?a + PGSIZE) (unat (len - ?n)) then drop (unat ?n) src ! unat (vb - (?a + PGSIZE)) else ubyte (mem s1) r' vb)"
        by blast
      have "ubyte (mem s') r' vb = (if r' = r \<and> in_range vb dstva (unat len) then src ! unat (vb - dstva) else ubyte (mem s) r' vb)"
        if r': "r' \<in> R" and vb: "uvalid (mem s) r' vb" for r' vb
      proof -
        note sp = in_range_rest [OF nle, of vb dstva, unfolded nx]
        have dr: "drop (unat ?n) src ! unat (vb - (?a + PGSIZE)) = src ! unat (vb - dstva)"
          if "\<not> in_range vb dstva (unat ?n)"
          using that Suc.prems(4) nle in_range_rest_index [of vb dstva ?n] unfolding nx [symmetric]
          by (simp add: in_range_def)
        have tk: "?bs ! unat (vb - dstva) = src ! unat (vb - dstva)" if "in_range vb dstva (unat ?n)"
          using that by (simp add: in_range_def)
        have imp: "in_range vb dstva (unat ?n) \<Longrightarrow> in_range vb dstva (unat len)" using nle by (auto simp: in_range_def)
        show ?thesis
          using s'(4) r' vb val [OF r'] w(3) [OF r' vb] sp dr tk imp by auto
      qed
      then show ?thesis using step s'(1,2,3) w(2) by auto
    qed
  qed
qed

lemma unat_div_fuel: "unat len + unat (va - align_down 12 va) \<le> (unat (len div PGSIZE) + 1 + 1) * 4096"
proof -
  have "unat (len div PGSIZE) = unat len div 4096" by (rule unat_div_PGSIZE)
  moreover have "unat len < (unat len div 4096 + 1) * 4096" by (simp add: dividend_less_div_times algebra_simps)
  ultimately show ?thesis using page_offset(1) [of va] by (simp add: algebra_simps)
qed

lemma copyin_loop_Suc:
  "copyin_loop (Suc k) pt dst srcva len s =
     (if len > 0
      then andthen (walkaddr pt (align_down 12 srcva) s) (\<lambda>(pa0, s).
           andthen (if pa0 = 0 then vmfault pt (align_down 12 srcva) s else Inr (pa0, s)) (\<lambda>(pa0, s).
           if pa0 = 0 then Inr (-1, dst, s)
           else copyin_loop k pt (dst @ get_bytes (mem s) (pa0 + (srcva - align_down 12 srcva)) (unat (chunk srcva len)))
                  (align_down 12 srcva + PGSIZE) (len - chunk srcva len) s))
      else Inr (0, dst, s))"
  unfolding copyin_loop.simps PGROUNDDOWN_align_down chunk_def Let_def by (rule refl)

lemma copyin_loop_0: "copyin_loop k pt dst srcva 0 s = Inr (0, dst, s)"
  by (cases k) simp_all

definition ubytes :: "memory \<Rightarrow> u64 \<Rightarrow> u64 \<Rightarrow> nat \<Rightarrow> u8 list" where
  "ubytes m r va n = map (\<lambda>j. ubyte m r (va + of_nat j)) [0..<n]"

lemma length_ubytes [simp]: "length (ubytes m r va n) = n"
  by (simp add: ubytes_def)

lemma ubytes_split: "i \<le> n \<Longrightarrow> ubytes m r va n = ubytes m r va i @ ubytes m r (va + of_nat i) (n - i)"
  unfolding ubytes_def by (rule nth_equalityI) (auto simp: nth_append ac_simps of_nat_diff)

lemma page_bytes:
  assumes "uvalid m r va" "\<And>j. j < n \<Longrightarrow> uvalid m r (va + of_nat j)" "unat (va - align_down 12 va) + n \<le> 4096"
  shows "get_bytes m (uaddr m r va) n = ubytes m r va n"
proof -
  have "ubyte m r (va + of_nat j) = m (uaddr m r va + of_nat j)" if j: "j < n" for j
  proof -
    have u: "unat (of_nat j :: u64) = j" using j assms(3) by (intro unat_of_nat_u64) simp
    have "va + of_nat j = align_down 12 va + ((va - align_down 12 va) + of_nat j)" by simp
    moreover have "unat ((va - align_down 12 va) + of_nat j) < 4096"
      using j assms(3) unat_plus_if_size [of "va - align_down 12 va" "of_nat j"] u by (simp add: word_size del: unat_of_nat split: if_splits)
    ultimately have av: "align_down 12 (va + of_nat j) = align_down 12 va"
      using align_down_page_add [OF align_down_align_down_page, of _ va] by metis
    have "pte_of m r (va + of_nat j) = pte_of m r va"
      using av uvalid_maps(2) [of r "{r}" m va] uvalid_maps(2) [of r "{r}" m "va + of_nat j"] assms(1,2) j by simp
    then show ?thesis using av by (simp add: ubyte_def uaddr_def algebra_simps)
  qed
  then show ?thesis unfolding get_bytes_def ubytes_def by (intro map_cong) simp_all
qed

lemma vm_copyin_loop:
  assumes "vm_inv s R ext" "r \<in> R" "unat srcva + unat len \<le> 2 ^ 38" "in_user (mem s) r srcva len 4"
    "unat len + unat (srcva - align_down 12 srcva) \<le> k * 4096"
  shows "copyin_loop k r dst srcva len s = Inr (0, dst @ ubytes (mem s) r srcva (unat len), s)"
  using assms(3-)
proof (induction k arbitrary: dst srcva len)
  case 0
  then have "len = 0" by (simp add: unat_eq_0)
  then show ?case by (simp add: ubytes_def)
next
  case (Suc k)
  show ?case
  proof (cases "len = 0")
    case True
    then show ?thesis by (simp add: copyin_loop_0 ubytes_def)
  next
    case False
    then have pos: "0 < len" by (simp add: word_neq_0_conv)
    note rs = range_split [OF pos, of srcva]
    let ?n = "chunk srcva len" and ?a = "align_down 12 srcva"
    have each: "uperm (mem s) r (srcva + of_nat j) 4" if "j < unat len" for j
      using Suc.prems(2) that unfolding in_user_def by blast
    have up: "uperm (mem s) r srcva 4" using each [of 0] pos by (simp add: word_less_nat_alt)
    note wa = uperm_walkaddr [OF assms(1,2) up]
    have le: "unat ?n \<le> unat len" using rs(2) by (simp add: word_le_nat_alt)
    have pb: "get_bytes (mem s) (uaddr (mem s) r srcva) (unat ?n) = ubytes (mem s) r srcva (unat ?n)"
      using up each le rs(5) by (intro page_bytes) (auto simp: uperm_def)
    have step: "copyin_loop (Suc k) r dst srcva len s =
      copyin_loop k r (dst @ ubytes (mem s) r srcva (unat ?n)) (?a + PGSIZE) (len - ?n) s"
      using pos wa(1,2) pb by (subst copyin_loop_Suc) (simp add: uaddr_def del: copyin_loop.simps)
    show ?thesis
    proof (cases "?n = len")
      case True
      then show ?thesis using step by (simp add: copyin_loop_0)
    next
      case f: False
      then have nx: "srcva + ?n = ?a + PGSIZE" using rs(4) by simp
      have un: "unat (?a + PGSIZE) = unat srcva + unat ?n"
        unfolding nx [symmetric] using Suc.prems(1) rs(2) by (simp add: unat_word_ariths word_le_nat_alt)
      have um: "srcva < MAXVA" using up uvalid_maps(3) [OF assms(2)] by (auto simp: uperm_def)
      have al: "align_down 12 (?a + PGSIZE) = ?a + PGSIZE" by (rule next_offset [OF um])
      have off: "unat ?n = 4096 - unat (srcva - ?a)" using unat_chunk [of srcva len] f by (auto simp: min_def word_unat_eq_iff split: if_splits)
      have nle: "unat ?n < unat len" using le f by (simp add: word_unat_eq_iff)
      have iu: "in_user (mem s) r (?a + PGSIZE) (len - ?n) 4"
        unfolding in_user_def
      proof (intro allI impI)
        fix j assume j: "j < unat (len - ?n)"
        have "unat ?n + j < unat len" using j rs(3) by simp
        note u = each [OF this]
        have e: "srcva + of_nat (unat ?n + j) = ?a + PGSIZE + of_nat j" unfolding nx [symmetric] by simp
        show "uperm (mem s) r (?a + PGSIZE + of_nat j) 4" using u unfolding e .
      qed
      have hb: "unat (?a + PGSIZE) + unat (len - ?n) \<le> 2 ^ 38" using un rs(3) nle Suc.prems(1) by linarith
      have "copyin_loop k r (dst @ ubytes (mem s) r srcva (unat ?n)) (?a + PGSIZE) (len - ?n) s =
        Inr (0, (dst @ ubytes (mem s) r srcva (unat ?n)) @ ubytes (mem s) r (?a + PGSIZE) (unat (len - ?n)), s)"
        using hb iu al off rs(3) Suc.prems(3) nle page_offset(1) [of srcva] by (intro Suc.IH) auto
      moreover have "ubytes (mem s) r srcva (unat ?n) @ ubytes (mem s) r (?a + PGSIZE) (unat (len - ?n)) = ubytes (mem s) r srcva (unat len)"
        using ubytes_split [OF le, of "mem s" r srcva] rs(3) nx by simp
      ultimately show ?thesis using step by simp
    qed
  qed
qed

lemma vm_copyin:
  assumes "vm_inv s R ext" "r \<in> R" "unat srcva + unat len \<le> 2 ^ 38" "in_user (mem s) r srcva len 4"
  shows "copyin r srcva len s = Inr (0, ubytes (mem s) r srcva (unat len), s)"
proof -
  have "copyin_loop (unat (len div PGSIZE) + 2) r [] srcva len s = Inr (0, [] @ ubytes (mem s) r srcva (unat len), s)"
    by (rule vm_copyin_loop [OF assms]) (use unat_div_fuel [of len srcva] in simp)
  then show ?thesis by (simp add: copyin_def)
qed

lemma vm_copyout:
  assumes "vm_inv s R ext" "\<And>q. 0 \<le> ext q" "r \<in> R" "length src = unat len" "unat dstva + unat len \<le> 2 ^ 38"
    "in_user (mem s) r dstva len 2"
  obtains s' where "copyout r dstva src len s = Inr (0, s')" "vm_inv s' R ext"
    "\<And>r' vb. r' \<in> R \<Longrightarrow> pte_of (mem s') r' vb = pte_of (mem s) r' vb"
    "\<And>r' vb. r' \<in> R \<Longrightarrow> uvalid (mem s) r' vb \<Longrightarrow> ubyte (mem s') r' vb =
       (if r' = r \<and> in_range vb dstva (unat len) then src ! unat (vb - dstva) else ubyte (mem s) r' vb)"
proof -
  have "\<exists>s'. copyout_loop (unat (len div PGSIZE) + 2) r dstva src len s = Inr (0, s') \<and> vm_inv s' R ext \<and>
    (\<forall>r' \<in> R. \<forall>vb. pte_of (mem s') r' vb = pte_of (mem s) r' vb) \<and>
    (\<forall>r' \<in> R. \<forall>vb. uvalid (mem s) r' vb \<longrightarrow> ubyte (mem s') r' vb =
       (if r' = r \<and> in_range vb dstva (unat len) then src ! unat (vb - dstva) else ubyte (mem s) r' vb))"
    by (rule vm_copyout_loop [OF assms]) (use unat_div_fuel [of len dstva] in simp)
  then show ?thesis using that by (auto simp: copyout_def)
qed

lemma copyout_copyin:
  assumes "vm_inv s R ext" "\<And>q. 0 \<le> ext q" "r \<in> R" "length src = unat len" "unat va + unat len \<le> 2 ^ 38"
    "in_user (mem s) r va len 2"
  shows "\<exists>s'. copyout r va src len s = Inr (0, s') \<and> copyin r va len s' = Inr (0, src, s')"
proof (rule vm_copyout [OF assms])
  fix s' assume s': "copyout r va src len s = Inr (0, s')" "vm_inv s' R ext"
    "\<And>r' vb. r' \<in> R \<Longrightarrow> pte_of (mem s') r' vb = pte_of (mem s) r' vb"
    "\<And>r' vb. r' \<in> R \<Longrightarrow> uvalid (mem s) r' vb \<Longrightarrow> ubyte (mem s') r' vb =
       (if r' = r \<and> in_range vb va (unat len) then src ! unat (vb - va) else ubyte (mem s) r' vb)"
  have u: "uperm (mem s) r (va + of_nat j) 2" if "j < unat len" for j using assms(6) that unfolding in_user_def by blast
  have "in_user (mem s') r va len 4"
    unfolding in_user_def using u s'(3) [OF assms(3)] by (auto simp: uperm_def uvalid_def)
  from vm_copyin [OF s'(2) assms(3,5) this]
  have "copyin r va len s' = Inr (0, ubytes (mem s') r va (unat len), s')" .
  moreover have "ubytes (mem s') r va (unat len) = src"
  proof (rule nth_equalityI)
    show "length (ubytes (mem s') r va (unat len)) = length src" using assms(4) by simp
    fix j assume "j < length (ubytes (mem s') r va (unat len))"
    then have j: "j < unat len" by simp
    have n: "unat (of_nat j :: u64) = j" using j assms(5) by (intro unat_of_nat_u64) simp
    then show "ubytes (mem s') r va (unat len) ! j = src ! j"
      using s'(4) [OF assms(3), of "va + of_nat j"] u [OF j] j by (simp add: ubytes_def uperm_def in_range_def del: unat_of_nat)
  qed
  ultimately show ?thesis using s'(1) by auto
qed


text \<open>A user page without write permission makes \<open>copyout\<close> fail, also when it is a
  copy-on-write page that a store by the process itself would make private.\<close>

lemma copyout_unwritable:
  assumes "vm_inv s R ext" "r \<in> R" "uperm (mem s) r dstva 4" "\<not> bit (pte_of (mem s) r dstva) 2" "0 < len"
  shows "copyout r dstva src len s = Inr (-1, s)"
proof -
  have uv: "uvalid (mem s) r dstva" using assms(3) by (simp add: uperm_def)
  note wa = uperm_walkaddr [OF assms(1,2,3)] and um = uvalid_maps [OF assms(2) uv]
  have lp0: "leaf_ptr (mem s) r (align_down 12 dstva) \<noteq> 0"
    using leaf_ptr_0_pte [OF tree_okD(1) [OF vm_invD(6) [OF assms(1,2)]], of "align_down 12 dstva"] uv um(2) by (auto simp: uvalid_def)
  have ld: "load64 (mem s) (leaf_ptr (mem s) r (align_down 12 dstva)) = pte_of (mem s) r dstva"
    using lp0 leaf_ptr_load [OF lp0] um(2) by simp
  have "\<not> MAXVA \<le> align_down 12 dstva" using wa(3) by (simp add: not_le)
  then have "copyout_loop (Suc (unat (len div PGSIZE) + 1)) r dstva src len s = Inr (-1, s)"
    using assms(4,5) wa(1,2) lp0 ld by (subst copyout_loop_Suc) (simp add: walk_ro del: copyout_loop.simps)
  then show ?thesis by (simp add: copyout_def)
qed

section \<open>copyinstr\<close>

lemma copystr_page_spec:
  "copystr_page m p n dst =
     (0 \<in> set (get_bytes m p n), dst @ (let bs = get_bytes m p n in if 0 \<in> set bs then takeWhile (\<lambda>b. b \<noteq> 0) bs @ [0] else bs))"
proof (induction n arbitrary: p dst)
  case 0
  then show ?case by (simp add: get_bytes_def)
next
  case (Suc n)
  have gb: "get_bytes m p (Suc n) = m p # get_bytes m (p + 1) n"
    unfolding get_bytes_def by (rule nth_equalityI) (auto simp: nth_Cons ac_simps simp del: upt_Suc split: nat.splits)
  show ?case using Suc.IH [of "p + 1" "dst @ [m p]"] by (auto simp: gb Let_def)
qed

lemma copyinstr_loop_Suc:
  "copyinstr_loop (Suc k) pt dst srcva mx s =
     (if mx > 0
      then andthen (walkaddr pt (align_down 12 srcva) s) (\<lambda>(pa0, s).
           if pa0 = 0 then Inr (-1, dst, s)
           else case copystr_page (mem s) (pa0 + (srcva - align_down 12 srcva)) (unat (chunk srcva mx)) dst of
             (got_null, dst) \<Rightarrow> if got_null then Inr (0, dst, s)
                else copyinstr_loop k pt dst (align_down 12 srcva + PGSIZE) (mx - chunk srcva mx) s)
      else Inr (-1, dst, s))"
  unfolding copyinstr_loop.simps PGROUNDDOWN_align_down chunk_def Let_def by (rule refl)

text \<open>The pages above the user memory, trapframe and trampoline, are not for the user.\<close>

definition top_private :: "memory \<Rightarrow> u64 \<Rightarrow> bool" where
  "top_private m r \<longleftrightarrow> (\<forall>va. TRAPFRAME \<le> va \<longrightarrow> va < MAXVA \<longrightarrow> \<not> (bit (pte_of m r va) 0 \<and> bit (pte_of m r va) 4))"

text \<open>\<open>ustring m r va mx n ended\<close>: of the bytes from \<open>va\<close> the first \<open>n\<close> can be read and are not nul; then
  comes a nul (\<open>ended\<close>), or the limit \<open>mx\<close>, or an address that cannot be read.\<close>

definition ustring :: "memory \<Rightarrow> u64 \<Rightarrow> u64 \<Rightarrow> nat \<Rightarrow> nat \<Rightarrow> bool \<Rightarrow> bool" where
  "ustring m r va mx n ended \<longleftrightarrow> n \<le> mx \<and>
     (\<forall>j < n. uperm m r (va + of_nat j) 4 \<and> ubyte m r (va + of_nat j) \<noteq> 0) \<and>
     (if ended then n < mx \<and> uperm m r (va + of_nat n) 4 \<and> ubyte m r (va + of_nat n) = 0
      else n = mx \<or> \<not> uperm m r (va + of_nat n) 4)"

lemma uperm_in_page:
  assumes "uperm m r va k" "unat (va - align_down 12 va) + j < 4096"
  shows "uperm m r (va + of_nat j) k"
proof -
  have u: "unat (of_nat j :: u64) = j" using assms(2) by (intro unat_of_nat_u64) simp
  have "va + of_nat j = align_down 12 va + ((va - align_down 12 va) + of_nat j)" by simp
  moreover have "unat ((va - align_down 12 va) + of_nat j) < 4096"
    using assms(2) unat_plus_if_size [of "va - align_down 12 va" "of_nat j"] u by (simp add: word_size del: unat_of_nat split: if_splits)
  ultimately have av: "align_down 12 (va + of_nat j) = align_down 12 va"
    using align_down_page_add [OF align_down_align_down_page, of _ va] by metis
  have lt: "va < TRAPFRAME" using assms(1) by (simp add: uperm_def uvalid_def)
  have lt': "va + of_nat j < TRAPFRAME"
  proof -
    obtain q where q: "unat (align_down 12 va) = 4096 * q"
      using align_down_align_down_page [of va] by (auto simp: page_aligned_unat mod_eq_0_iff_dvd dvd_def)
    have "unat (align_down 12 va) < 2 ^ 38 - 8192" using lt align_down_le [of 12 va] by (simp add: word_less_nat_alt TRAPFRAME_unat)
    then have "unat (align_down 12 va) + 4096 \<le> 2 ^ 38 - 8192" using q by simp
    moreover have "unat (va + of_nat j) < unat (align_down 12 (va + of_nat j)) + 4096"
      using page_offset [of "va + of_nat j"] unat_plus_if_size [of "align_down 12 (va + of_nat j)" "va + of_nat j - align_down 12 (va + of_nat j)"]
      by (simp split: if_splits)
    ultimately show ?thesis by (simp add: av word_less_nat_alt TRAPFRAME_unat)
  qed
  have "vpage (va + of_nat j) = vpage va" using av vpage_align_down by metis
  then have "pte_of m r (va + of_nat j) = pte_of m r va" by (rule pte_of_vpage)
  then show ?thesis using assms(1) lt' by (simp add: uperm_def uvalid_def)
qed

lemma not_uperm_walkaddr:
  assumes i: "vm_inv s R ext" and r: "r \<in> R" and t: "top_private (mem s) r" and u: "\<not> uperm (mem s) r va 4"
  shows "walkaddr r (align_down 12 va) s = Inr (0, s)"
proof -
  let ?e = "pte_of (mem s) r (align_down 12 va)"
  have "\<not> (align_down 12 va < MAXVA \<and> bit ?e 0 \<and> bit ?e 4)"
  proof
    assume a: "align_down 12 va < MAXVA \<and> bit ?e 0 \<and> bit ?e 4"
    then have lt: "align_down 12 va < TRAPFRAME" using t by (auto simp: top_private_def not_le [symmetric])
    have p: "uperm (mem s) r (align_down 12 va) 4" using a lt by (simp add: uperm_def uvalid_def)
    have "uperm (mem s) r (align_down 12 va + of_nat (unat (va - align_down 12 va))) 4"
      using page_offset(1) [of va] by (intro uperm_in_page [OF p]) simp
    then show False using u by simp
  qed
  then show ?thesis using walkaddr_eq [OF tree_okD(1) [OF vm_invD(6) [OF i r]], of "align_down 12 va"] by auto
qed

lemma vm_copyinstr_loop:
  assumes "vm_inv s R ext" "r \<in> R" "top_private (mem s) r" "unat mx + unat (srcva - align_down 12 srcva) \<le> k * 4096"
  shows "\<exists>n ended. ustring (mem s) r srcva (unat mx) n ended \<and>
    copyinstr_loop k r dst srcva mx s =
      Inr (if ended then 0 else -1, dst @ ubytes (mem s) r srcva n @ (if ended then [0] else []), s)"
  using assms(4)
proof (induction k arbitrary: dst srcva mx)
  case 0
  then have "mx = 0" by (simp add: unat_eq_0)
  then show ?case by (intro exI [of _ 0] exI [of _ False]) (simp add: ubytes_def ustring_def)
next
  case (Suc k)
  let ?n = "chunk srcva mx" and ?a = "align_down 12 srcva"
  let ?m = "unat ?n"
  let ?bs = "ubytes (mem s) r srcva ?m"
  show ?case
  proof (cases "mx = 0 \<or> \<not> uperm (mem s) r srcva 4")
    case True
    then have "copyinstr_loop (Suc k) r dst srcva mx s = Inr (-1, dst, s)"
      using not_uperm_walkaddr [OF assms(1-3), of srcva] by (subst copyinstr_loop_Suc) auto
    then show ?thesis using True
      by (intro exI [of _ 0] exI [of _ False]) (auto simp: ubytes_def ustring_def simp del: copyinstr_loop.simps)
  next
    case False
    then have pos: "0 < mx" and up: "uperm (mem s) r srcva 4" by (auto simp: word_neq_0_conv)
    note cs = range_split [OF pos, of srcva]
    have le: "?m \<le> unat mx" using cs(2) by (simp add: word_le_nat_alt)
    have each: "uperm (mem s) r (srcva + of_nat j) 4" if "j < ?m" for j
      using that cs(5) by (intro uperm_in_page [OF up]) simp
    note wa = uperm_walkaddr [OF assms(1,2) up]
    have pb: "get_bytes (mem s) (uaddr (mem s) r srcva) ?m = ?bs"
      using up each cs(5) by (intro page_bytes) (auto simp: uperm_def)
    have cp: "copystr_page (mem s) (uaddr (mem s) r srcva) ?m dst =
        (0 \<in> set ?bs, dst @ (if 0 \<in> set ?bs then takeWhile (\<lambda>b. b \<noteq> 0) ?bs @ [0] else ?bs))"
      using copystr_page_spec [of "mem s" "uaddr (mem s) r srcva" ?m dst] unfolding pb Let_def .
    have step: "copyinstr_loop (Suc k) r dst srcva mx s =
      (if 0 \<in> set ?bs then Inr (0, dst @ takeWhile (\<lambda>b. b \<noteq> 0) ?bs @ [0], s)
       else copyinstr_loop k r (dst @ ?bs) (?a + PGSIZE) (mx - ?n) s)"
      using pos wa(1,2) cp by (subst copyinstr_loop_Suc) (simp add: uaddr_def del: copyinstr_loop.simps)
    have nth: "?bs ! j = ubyte (mem s) r (srcva + of_nat j)" if "j < ?m" for j using that by (simp add: ubytes_def)
    show ?thesis
    proof (cases "0 \<in> set ?bs")
      case True
      obtain ys zs where sp: "?bs = ys @ 0 # zs" "0 \<notin> set ys" using True split_list_first [of 0 ?bs] by auto
      have tl: "length ys < ?m" using arg_cong [OF sp(1), of length] by simp
      have tk: "takeWhile (\<lambda>b. b \<noteq> 0) ?bs = ys" unfolding sp(1) using sp(2) by (subst takeWhile_append2) auto
      have "?bs ! length ys = 0" unfolding sp(1) by simp
      then have z: "ubyte (mem s) r (srcva + of_nat (length ys)) = 0" using nth [OF tl] by simp
      have nz: "ubyte (mem s) r (srcva + of_nat j) \<noteq> 0" if j: "j < length ys" for j
      proof -
        have "?bs ! j = ys ! j" unfolding sp(1) using j by (simp add: nth_append)
        moreover have "ys ! j \<noteq> 0" using sp(2) nth_mem [OF j] by metis
        ultimately show ?thesis using nth [of j] j tl by simp
      qed
      have "ys = take (length ys) ?bs" unfolding sp(1) by simp
      then have tb: "ys = ubytes (mem s) r srcva (length ys)"
        using ubytes_split [of "length ys" ?m "mem s" r srcva] tl by simp
      have "ustring (mem s) r srcva (unat mx) (length ys) True"
        unfolding ustring_def using tl le each z nz by auto
      then show ?thesis using step True tk tb by (intro exI [of _ "length ys"] exI [of _ True]) simp
    next
      case nz: False
      have nzj: "ubyte (mem s) r (srcva + of_nat j) \<noteq> 0" if "j < ?m" for j
        using nz nth [OF that] nth_mem [of j ?bs] that by auto
      show ?thesis
      proof (cases "?n = mx")
        case True
        have "copyinstr_loop k r (dst @ ?bs) (?a + PGSIZE) 0 s = Inr (-1, dst @ ?bs, s)" by (cases k) simp_all
        then show ?thesis using step nz True each nzj
          by (intro exI [of _ ?m] exI [of _ False]) (simp add: ustring_def del: copyinstr_loop.simps)
      next
        case False
        then have nx: "?a + PGSIZE = srcva + ?n" using cs(4) by simp
        have lt: "srcva < MAXVA" using up TRAPFRAME_MAXVA by (auto simp: uperm_def uvalid_def)
        have al: "align_down 12 (?a + PGSIZE) = ?a + PGSIZE" by (rule next_offset [OF lt])
        have ofs: "unat (srcva - ?a) + ?m = 4096"
          using False unat_chunk [of srcva mx] le page_offset(1) [of srcva] by (auto simp: min_def word_unat_eq_iff split: if_splits)
        have "unat (mx - ?n) + unat (srcva + ?n - align_down 12 (srcva + ?n)) \<le> k * 4096"
          using Suc.prems cs(3) ofs al nx by simp
        from Suc.IH [OF this, of "dst @ ?bs"] obtain n ended where ih: "ustring (mem s) r (srcva + ?n) (unat (mx - ?n)) n ended"
          "copyinstr_loop k r (dst @ ?bs) (srcva + ?n) (mx - ?n) s =
            Inr (if ended then 0 else -1, (dst @ ?bs) @ ubytes (mem s) r (srcva + ?n) n @ (if ended then [0] else []), s)"
          by blast
        have ad: "srcva + of_nat (?m + j) = srcva + ?n + of_nat j" for j by simp
        have us: "ustring (mem s) r srcva (unat mx) (?m + n) ended"
        proof -
          have "uperm (mem s) r (srcva + of_nat j) 4 \<and> ubyte (mem s) r (srcva + of_nat j) \<noteq> 0" if "j < ?m + n" for j
          proof (cases "j < ?m")
            case False
            then have j: "j = ?m + (j - ?m)" "j - ?m < n" using that by simp_all
            have "srcva + of_nat j = srcva + ?n + of_nat (j - ?m)" using ad [of "j - ?m"] j(1) by simp
            then show ?thesis using ih(1) j(2) unfolding ustring_def by metis
          next
            case True
            then show ?thesis using each nzj by blast
          qed
          moreover have "?m + n \<le> unat mx" "?m + n < unat mx \<longleftrightarrow> n < unat (mx - ?n)" "?m + n = unat mx \<longleftrightarrow> n = unat (mx - ?n)"
            using ih(1) cs(3) le by (auto simp: ustring_def)
          ultimately show ?thesis using ih(1) unfolding ustring_def ad [of n] by presburger
        qed
        have "ubytes (mem s) r srcva (?m + n) = ?bs @ ubytes (mem s) r (srcva + ?n) n"
          using ubytes_split [of ?m "?m + n" "mem s" r srcva] by simp
        then show ?thesis using step nz nx ih(2) us
          by (intro exI [of _ "?m + n"] exI [of _ ended]) (simp del: copyinstr_loop.simps)
      qed
    qed
  qed
qed

lemma vm_copyinstr:
  assumes "vm_inv s R ext" "r \<in> R" "top_private (mem s) r"
  shows "\<exists>n ended. ustring (mem s) r srcva (unat mx) n ended \<and>
    copyinstr r srcva mx s = Inr (if ended then 0 else -1, ubytes (mem s) r srcva n @ (if ended then [0] else []), s)"
proof -
  have "unat mx + unat (srcva - align_down 12 srcva) \<le> (unat (mx div PGSIZE) + 2) * 4096" using unat_div_fuel [of mx srcva] by simp
  from vm_copyinstr_loop [OF assms this, of "[]"] show ?thesis by (simp add: copyinstr_def)
qed

text \<open>The prefix is unique.\<close>

lemma ustring_unique:
  assumes "ustring m r va mx n e" "ustring m r va mx n' e'"
  shows "n = n' \<and> e = e'"
proof -
  have "\<not> n < n'" if "ustring m r va mx n e" "ustring m r va mx n' e'" for n n' e e'
    using that by (auto simp: ustring_def split: if_splits)
  then have "n = n'" using assms by (metis linorder_neqE_nat)
  then show ?thesis using assms by (auto simp: ustring_def split: if_splits)
qed

end
