(* ===== verification/Uview.thy ===== *)
theory Uview
  imports Ucopy
begin

unbundle bit_operations_syntax

text \<open>
  What a process sees: \<open>uview m r\<close> is the memory of the address space \<open>r\<close> as a partial
  function from user addresses to bytes. The operations of \<^verbatim>\<open>vm.c\<close> refine operations on
  these functions: \<open>cow_handler\<close> changes none, \<open>uvmcopy\<close> copies one, \<open>copyout\<close> updates
  a range of one, \<open>vmfault\<close> adds a page of zeros, \<open>uvmdealloc\<close> cuts one off.
\<close>

section \<open>Views\<close>

definition uview :: "memory \<Rightarrow> u64 \<Rightarrow> u64 \<Rightarrow> u8 option" where
  "uview m r va = (if uvalid m r va then Some (ubyte m r va) else None)"

lemma uview_None: "uview m r va = None \<longleftrightarrow> \<not> uvalid m r va"
  by (simp add: uview_def)

text \<open>The byte of a user address moves with its page; it is enough to compare frames.\<close>

lemma uview_cong:
  assumes "\<And>va. bit (pte_of m' r va) 0 = bit (pte_of m r va) 0"
    and "\<And>va. uvalid m r va \<Longrightarrow> m' (uaddr m' r va) = m (uaddr m r va)"
  shows "uview m' r = uview m r"
  using assms by (auto simp: uview_def uvalid_def ubyte_def)

lemma uview_same_data:
  assumes sd: "same_data R s s'" and r: "r \<in> R"
    and p: "\<And>va. bit (pte_of (mem s') r va) 0 = bit (pte_of (mem s) r va) 0 \<and>
      PTE2PA (pte_of (mem s') r va) = PTE2PA (pte_of (mem s) r va)"
  shows "uview (mem s') r = uview (mem s) r"
proof (rule uview_cong)
  show "bit (pte_of (mem s') r va) 0 = bit (pte_of (mem s) r va) 0" for va using p by blast
  fix va assume v: "uvalid (mem s) r va"
  have e: "uaddr (mem s') r va = uaddr (mem s) r va" using p by (simp add: uaddr_def)
  have "maps (mem s) R (align_down 12 (uaddr (mem s) r va)) \<noteq> {}"
    using uvalid_maps(1) [OF r v] by (auto simp: uaddr_page)
  then show "mem s' (uaddr (mem s') r va) = mem s (uaddr (mem s) r va)"
    unfolding e using sd by (simp add: same_data_def)
qed

section \<open>cow\_handler\<close>

lemma two_maps_rc:
  assumes "vm_inv s R ext" "0 \<le> ext p" "x \<in> maps (mem s) R p" "y \<in> maps (mem s) R p" "x \<noteq> y"
  shows "1 < rc s p"
proof -
  have "card {x, y} \<le> card (maps (mem s) R p)" by (rule card_mono) (use assms in auto)
  moreover have "managed s p" by (rule vm_invD(8) [OF assms(1)]) (use assms in auto)
  ultimately show ?thesis using vm_invD(7) [OF assms(1)] assms(2,5) by fastforce
qed

definition writable :: "memory \<Rightarrow> u64 \<Rightarrow> u64 \<Rightarrow> bool" where
  "writable m r va \<longleftrightarrow> uperm m r va 2 \<and> \<not> bit (pte_of m r va) 8"

lemma cow_view:
  assumes i: "vm_inv s R ext" and n: "\<And>q. 0 \<le> ext q" and r: "r \<in> R"
    and v: "uperm (mem s) r va 8"
  obtains (nomem) "cow_handler r va s = Inr (-1, s)"
  | (copied) s' where "cow_handler r va s = Inr (0, s')" "vm_inv s' R ext"
      "\<And>r'. r' \<in> R \<Longrightarrow> uview (mem s') r' = uview (mem s) r'" "writable (mem s') r va"
      "\<And>r' vb. r' \<in> R \<Longrightarrow> r' \<noteq> r \<or> vpage vb \<noteq> vpage va \<Longrightarrow> pte_of (mem s') r' vb = pte_of (mem s) r' vb"
proof -
  let ?a = "align_down 12 va"
  have uv: "uvalid (mem s) r va" using v by (simp add: uperm_def)
  note um = uvalid_maps [OF r uv]
  have vp: "vpage va = ?a" by (rule vpage_low [OF um(3)])
  let ?e = "pte_of (mem s) r ?a" let ?pa = "PTE2PA ?e"
  have a: "?a < TRAPFRAME" using um(1) by (simp add: maps_def)
  have b: "bit ?e 0" "bit ?e 8" using v um(2) by (simp_all add: uperm_def uvalid_def)
  show ?thesis
  proof (rule vm_cow [OF i n r refl a refl b])
    assume "cow_handler r va s = Inr (-1, s)"
    then show thesis by (rule nomem)
  next
    fix pg s'
    assume s': "cow_handler r va s = Inr (0, s')" "vm_inv s' R ext" "free_pg s pg"
      and pt: "\<And>r' vb. r' \<in> R \<Longrightarrow> pte_of (mem s') r' vb =
         (if r' = r \<and> vpage vb = ?a then PA2PTE pg OR cow_flags ?e else pte_of (mem s) r' vb)"
      and cp: "\<And>b. align_down 12 b = pg \<Longrightarrow> mem s' b = mem s (?pa + (b - pg))"
      and tc: "touches (insert ?pa (foot (mem s) r)) s s'"
      and sh: "\<And>b. 1 < rc s ?pa \<Longrightarrow> align_down 12 b = ?pa \<Longrightarrow> mem s' b = mem s b"
    have al: "page_aligned pg" using s'(3) by (auto simp: free_pg_def managed_def)
    have pg: "PTE2PA (PA2PTE pg OR cow_flags ?e) = pg" by (rule PTE2PA_PA2PTE) (use al in simp_all)
    have fl: "bit (PA2PTE pg OR cow_flags e) i \<longleftrightarrow> bit (cow_flags e) i" if "i < 10" for i e
      using that by (simp add: bit_or_iff bit_PA2PTE)
    have w: "writable (mem s') r va"
      using v um(2) vp by (simp add: writable_def uperm_def uvalid_def pt [OF r] fl bit_cow_flags)
    have view: "uview (mem s') q = uview (mem s) q" if q: "q \<in> R" for q
    proof (rule uview_cong)
      show "bit (pte_of (mem s') q vb) 0 = bit (pte_of (mem s) q vb) 0" for vb
        using b(1) vp pte_of_vpage [of vb va "mem s" r] um(2) by (auto simp: pt [OF q] fl bit_cow_flags)
      fix vb assume vb: "uvalid (mem s) q vb"
      note ub = uvalid_maps [OF q vb]
      show "mem s' (uaddr (mem s') q vb) = mem s (uaddr (mem s) q vb)"
      proof (cases "q = r \<and> vpage vb = ?a")
        case True
        then have "pte_of (mem s) r vb = ?e" using pte_of_vpage_self [of "mem s" r vb] by simp
        moreover have "uaddr (mem s') q vb = pg + (vb - align_down 12 vb)" using True pg by (simp add: uaddr_def pt [OF r])
        moreover have "align_down 12 (pg + (vb - align_down 12 vb)) = pg" by (rule align_down_page_add [OF al page_offset(1)])
        ultimately show ?thesis using True cp by (simp add: uaddr_def)
      next
        case False
        let ?p = "PTE2PA (pte_of (mem s) q vb)"
        have e: "uaddr (mem s') q vb = uaddr (mem s) q vb" using False pt [OF q, of vb] by (auto simp: uaddr_def)
        note vm = vm_mapped [OF i n, of ?p]
        have mp: "maps (mem s) R ?p \<noteq> {}" using ub(1) by auto
        have "mem s' b = mem s b" if "align_down 12 b = ?p" for b
        proof (cases "?p = ?pa")
          case True
          have ne: "(q, align_down 12 vb) \<noteq> (r, ?a)" using False vpage_low [OF ub(3)] by auto
          have "1 < rc s ?pa"
            by (rule two_maps_rc [OF i n _ _ ne]) (use ub(1) um(1,2) True in simp_all)
          then show ?thesis using sh that True by simp
        next
          case ne: False
          have "?p \<notin> insert ?pa (foot (mem s) r)" using ne vm(3) [OF mp] r by (auto simp: tables_def)
          moreover have "\<not> free_pg s ?p" using vm(2) [OF mp] by (simp add: free_pg_def)
          ultimately show ?thesis using touchesD(3) [OF tc, of b] that by simp
        qed
        then show ?thesis unfolding e by (simp add: uaddr_page)
      qed
    qed
    show thesis by (rule copied [OF s'(1,2) view w]) (use pt vp in auto)
  qed
qed


section \<open>uvmcopy\<close>

lemma fork_view:
  assumes i: "vm_inv s R ext" and n: "\<And>q. 0 \<le> ext q" and r: "old \<in> R" "new \<in> R" "old \<noteq> new"
    and l: "bytes \<le> TRAPFRAME" and e: "uview (mem s) new = Map.empty"
  obtains ret s' where "uvmcopy old new bytes s = Inr (ret, s')" "ret = 0 \<or> ret = -1" "vm_inv s' R ext"
    "\<And>r. r \<in> R \<Longrightarrow> r \<noteq> new \<Longrightarrow> uview (mem s') r = uview (mem s) r"
    "ret = 0 \<Longrightarrow> uview (mem s') new = uview (mem s) old |` {va. align_down 12 va < bytes}"
    "\<And>r va. ret = 0 \<Longrightarrow> r \<in> {old, new} \<Longrightarrow> align_down 12 va < bytes \<Longrightarrow> uvalid (mem s') r va \<Longrightarrow> \<not> bit (pte_of (mem s') r va) 2"
    "\<And>va. ret = 0 \<Longrightarrow> uperm (mem s) old va 2 \<Longrightarrow> align_down 12 va < bytes \<Longrightarrow> uperm (mem s') new va 8 \<and> uperm (mem s') old va 8"
proof -
  let ?f = "pte_of (mem s)"
  have new0: "\<not> bit (?f new vb) 0" if "vpage vb < TRAPFRAME" for vb
  proof -
    have "\<not> uvalid (mem s) new (vpage vb)" using e uview_None [of "mem s" new "vpage vb"] by simp
    then show ?thesis using that by (simp add: uvalid_def)
  qed
  have nb: "\<not> bit (?f new vb) 0" if "below 0 bytes vb" for vb
    using that l by (intro new0) (auto simp: below_def)
  have fuel: "unat bytes \<le> unat (0 :: u64) + Suc (unat (bytes div PGSIZE)) * 4096" by (simp add: unat_div_PGSIZE)
  have z: "page_aligned 0" "unat (0 :: u64) \<le> unat TRAPFRAME" by (simp_all add: page_aligned_def)
  obtain ret s' where u: "uvmcopy_loop (Suc (unat (bytes div PGSIZE))) old new 0 bytes s = Inr (ret, s')"
    "vm_inv s' R ext" "same_data (R - {new}) s s'"
    and c: "ret = 0 \<and> (\<forall>r \<in> R. \<forall>vb. pte_of (mem s') r vb = forked old new 0 bytes ?f r vb) \<or>
      ret = -1 \<and> (\<forall>vb. vpage vb < bytes \<longrightarrow> \<not> bit (pte_of (mem s') new vb) 0) \<and>
        (\<forall>vb. pte_of (mem s') old vb \<in> {?f old vb, cowed (?f old vb)}) \<and>
        (\<forall>r \<in> R. r \<noteq> old \<longrightarrow> r \<noteq> new \<longrightarrow> (\<forall>vb. pte_of (mem s') r vb = ?f r vb))"
    using vm_uvmcopy_loop [OF i n r z l fuel nb] by blast
  have keep: "uview (mem s') q = uview (mem s) q" if q: "q \<in> R" "q \<noteq> new" for q
  proof (rule uview_same_data [OF u(3)])
    show "q \<in> R - {new}" using q by simp
    fix va
    have "pte_of (mem s') q va \<in> {?f q va, cowed (?f q va)}"
      using c q by (cases "q = old") (auto simp: forked_def)
    then show "bit (pte_of (mem s') q va) 0 = bit (?f q va) 0 \<and> PTE2PA (pte_of (mem s') q va) = PTE2PA (?f q va)" by auto
  qed
  have bl: "below 0 bytes va \<longleftrightarrow> align_down 12 va < bytes" if "va < TRAPFRAME" for va
    using vpage_low [of va] that TRAPFRAME_MAXVA by (simp add: below_def)
  have fk: "pte_of (mem s') q va = forked old new 0 bytes ?f q va" if "ret = 0" "q \<in> R" for q va
    using that c by auto
  have child: "uview (mem s') new va = (uview (mem s) old |` {va. align_down 12 va < bytes}) va" if "ret = 0" for va
  proof (cases "va < TRAPFRAME \<and> align_down 12 va < bytes \<and> bit (?f old va) 0")
    case True
    then have p: "pte_of (mem s') new va = child_pte (?f old va)" using fk [OF that r(2)] bl r(3) by (simp add: forked_def)
    have uv: "uvalid (mem s) old va" using True by (simp add: uvalid_def)
    have "maps (mem s) (R - {new}) (PTE2PA (?f old va)) \<noteq> {}" using uvalid_maps(1) [OF _ uv, of "R - {new}"] r by auto
    then have "mem s' (uaddr (mem s) old va) = mem s (uaddr (mem s) old va)" using u(3) by (simp add: same_data_def uaddr_page)
    then show ?thesis using True p by (simp add: uview_def uvalid_def ubyte_def uaddr_def child_props(1,2))
  next
    case False
    have "\<not> uvalid (mem s') new va"
    proof (cases "va < TRAPFRAME")
      case True
      then have "vpage va < TRAPFRAME" using vpage_low [of va] align_down_le [of 12 va] TRAPFRAME_MAXVA
        by (simp add: word_less_nat_alt)
      then have "\<not> bit (?f new va) 0" by (rule new0)
      then show ?thesis using False True fk [OF that r(2), of va] bl [OF True] r(3) by (auto simp: uvalid_def forked_def)
    qed (simp add: uvalid_def)
    then show ?thesis using False by (auto simp: uview_def uvalid_def restrict_map_def)
  qed
  have ro: "\<not> bit (pte_of (mem s') q va) 2" if "ret = 0" "q \<in> {old, new}" "align_down 12 va < bytes" "uvalid (mem s') q va"
    for q va
  proof -
    have q: "q \<in> R" and va: "va < TRAPFRAME" using that(2,4) r by (auto simp: uvalid_def)
    note p = fk [OF that(1) q, of va]
    have "vpage va < TRAPFRAME" using va vpage_low [of va] align_down_le [of 12 va] TRAPFRAME_MAXVA by (simp add: word_less_nat_alt)
    note n0 = new0 [OF this]
    have "bit (?f old va) 0" using that(2,4) p n0 by (auto simp: uvalid_def forked_def split: if_splits)
    then show ?thesis using p that(2,3) bl [OF va] r(3) by (auto simp: forked_def child_props)
  qed
  have cow: "uperm (mem s') new va 8 \<and> uperm (mem s') old va 8" if "ret = 0" "uperm (mem s) old va 2" "align_down 12 va < bytes" for va
  proof -
    have va: "va < TRAPFRAME" using that(2) by (simp add: uperm_def uvalid_def)
    show ?thesis
      using that(2,3) bl [OF va] r(3) fk [OF that(1) r(1), of va] fk [OF that(1) r(2), of va]
      by (auto simp: uperm_def uvalid_def forked_def child_props bit_cowed)
  qed
  show ?thesis
    by (rule that [of ret s']) (use u(1,2) c keep child ro cow in \<open>auto simp: uvmcopy_def\<close>)
qed


section \<open>Stores, copyout, vmfault and uvmdealloc\<close>

lemma uview_update:
  assumes "\<And>va. pte_of m' r va = pte_of m r va"
    and "\<And>va. uvalid m r va \<Longrightarrow> ubyte m' r va = f va (ubyte m r va)"
  shows "uview m' r = (\<lambda>va. map_option (f va) (uview m r va))"
  using assms by (auto simp: uview_def uvalid_def)

text \<open>A store instruction of the process: one byte at a writable address.\<close>

definition ustore :: "u64 \<Rightarrow> u64 \<Rightarrow> u8 \<Rightarrow> 'z kst_scheme \<Rightarrow> 'z kst_scheme" where
  "ustore r va b s = s\<lparr>mem := (mem s)(uaddr (mem s) r va := b)\<rparr>"

lemma store_view:
  assumes i: "vm_inv s R ext" and n: "\<And>q. 0 \<le> ext q" and r: "r \<in> R" and v: "writable (mem s) r va"
  shows "vm_inv (ustore r va b s) R ext"
    "r' \<in> R \<Longrightarrow> uview (mem (ustore r va b s)) r' = (if r' = r then (uview (mem s) r)(va \<mapsto> b) else uview (mem s) r')"
proof -
  have uv: "uvalid (mem s) r va" "bit (pte_of (mem s) r va) 2" using v by (simp_all add: writable_def uperm_def)
  have e: "ustore r va b s = s\<lparr>mem := put_bytes (mem s) (uaddr (mem s) r va) [b]\<rparr>"
    unfolding ustore_def by (rule arg_cong [where f = "\<lambda>m. s\<lparr>mem := m\<rparr>"], rule HOL.ext) (simp add: put_bytes_def in_range_def unat_eq_0)
  have len: "unat (va - align_down 12 va) + length [b] \<le> 4096" using page_offset(1) [of va] by simp
  note w = vm_write_page [OF i n r uv len, folded e]
  show "vm_inv (ustore r va b s) R ext" by (rule w(1))
  have rg: "in_range vb va (Suc 0) \<longleftrightarrow> vb = va" for vb by (auto simp: in_range_def unat_eq_0)
  show "uview (mem (ustore r va b s)) r' = (if r' = r then (uview (mem s) r)(va \<mapsto> b) else uview (mem s) r')" if "r' \<in> R"
  proof -
    let ?f = "\<lambda>vb x. if r' = r \<and> vb = va then b else x"
    have "uview (mem (ustore r va b s)) r' = (\<lambda>vb. map_option (?f vb) (uview (mem s) r' vb))"
      by (rule uview_update) (use w(2,3) [OF that] in \<open>auto simp: rg\<close>)
    then show ?thesis using uv(1) by (auto simp: uview_def option.map_id0 map_option.identity)
  qed
qed


lemma copyout_view:
  assumes "vm_inv s R ext" "\<And>q. 0 \<le> ext q" "r \<in> R" "length src = unat len" "unat dstva + unat len \<le> 2 ^ 38"
    "in_user (mem s) r dstva len 2"
  obtains s' where "copyout r dstva src len s = Inr (0, s')" "vm_inv s' R ext"
    "\<And>va. in_range va dstva (unat len) \<Longrightarrow> uview (mem s') r va = Some (src ! unat (va - dstva))"
    "\<And>r' va. r' \<in> R \<Longrightarrow> r' \<noteq> r \<or> \<not> in_range va dstva (unat len) \<Longrightarrow> uview (mem s') r' va = uview (mem s) r' va"
proof (rule vm_copyout [OF assms])
  fix s' assume s': "copyout r dstva src len s = Inr (0, s')" "vm_inv s' R ext"
    and pt: "\<And>r' vb. r' \<in> R \<Longrightarrow> pte_of (mem s') r' vb = pte_of (mem s) r' vb"
    and ub: "\<And>r' vb. r' \<in> R \<Longrightarrow> uvalid (mem s) r' vb \<Longrightarrow> ubyte (mem s') r' vb =
       (if r' = r \<and> in_range vb dstva (unat len) then src ! unat (vb - dstva) else ubyte (mem s) r' vb)"
  have v: "uvalid (mem s) r va" if "in_range va dstva (unat len)" for va
  proof -
    have u: "uperm (mem s) r (dstva + of_nat (unat (va - dstva))) 2"
      using assms(6) that unfolding in_user_def in_range_def by blast
    have e: "dstva + of_nat (unat (va - dstva)) = va" by simp
    show ?thesis using u unfolding e by (simp add: uperm_def)
  qed
  have eq: "uview (mem s') q = (\<lambda>va. map_option (\<lambda>x. if q = r \<and> in_range va dstva (unat len) then src ! unat (va - dstva) else x)
      (uview (mem s) q va))" if "q \<in> R" for q
    by (rule uview_update) (use pt ub that in auto)
  show thesis
    by (rule that [OF s']) (use eq v assms(3) in \<open>auto simp: uview_def map_option.identity\<close>)
qed

text \<open>A page of zeros mapped at \<open>a\<close>.\<close>

lemma fresh_view:
  assumes sd: "same_data R s s'" and r: "r \<in> R" and a: "a < TRAPFRAME" and b: "\<not> bit (pte_of (mem s) r a) 0"
    and al: "page_aligned pg" and fo: "flags_ok perm"
    and pt: "\<And>r' vb. r' \<in> R \<Longrightarrow> pte_of (mem s') r' vb =
       (if r' = r \<and> vpage vb = a then PA2PTE pg OR perm OR PTE_V else pte_of (mem s) r' vb)"
    and z: "\<And>b. align_down 12 b = pg \<Longrightarrow> mem s' b = 0" and q: "q \<in> R"
  shows "uview (mem s') q = (\<lambda>vb. if q = r \<and> align_down 12 vb = a \<and> vb < TRAPFRAME then Some 0 else uview (mem s) q vb)"
proof
  fix vb
  have vl: "vb < TRAPFRAME \<Longrightarrow> vpage vb = align_down 12 vb" using TRAPFRAME_MAXVA by (intro vpage_low) simp
  have fl: "flags_ok (perm OR PTE_V)" using fo by simp
  have pg: "PTE2PA (PA2PTE pg OR (perm OR PTE_V)) = pg" by (rule PTE2PA_PA2PTE [OF al fl])
  have v0: "bit (PA2PTE pg OR (perm OR PTE_V)) 0" by (simp add: bit_or_iff PTE_V_def)
  show "uview (mem s') q vb = (if q = r \<and> align_down 12 vb = a \<and> vb < TRAPFRAME then Some 0 else uview (mem s) q vb)"
  proof (cases "q = r \<and> vpage vb = a")
    case True
    have "align_down 12 (pg + (vb - align_down 12 vb)) = pg" by (rule align_down_page_add [OF al page_offset(1)])
    then have "ubyte (mem s') r vb = 0" using True pt [OF r, of vb] pg z by (simp add: ubyte_def uaddr_def or.assoc)
    moreover have "pte_of (mem s) r vb = pte_of (mem s) r a" using True pte_of_vpage_self [of "mem s" r vb] by simp
    ultimately show ?thesis using True pt [OF r, of vb] b v0 vl by (auto simp: uview_def uvalid_def or.assoc)
  next
    case False
    then have pe: "pte_of (mem s') q vb = pte_of (mem s) q vb" using pt [OF q, of vb] by auto
    have "mem s' (uaddr (mem s) q vb) = mem s (uaddr (mem s) q vb)" if "uvalid (mem s) q vb"
    proof -
      have "maps (mem s) R (align_down 12 (uaddr (mem s) q vb)) \<noteq> {}" using uvalid_maps(1) [OF q that] by (auto simp: uaddr_page)
      then show ?thesis using sd by (simp add: same_data_def)
    qed
    then show ?thesis using pe False vl by (auto simp: uview_def uvalid_def ubyte_def uaddr_def)
  qed
qed

lemma vmfault_eq:
  assumes i: "vm_inv s R ext" and r: "r \<in> R"
    and p: "cur s = Some p" "pagetable (procs s p) = r" "va < sz (procs s p)" "sz (procs s p) \<le> TRAPFRAME"
    and v: "\<not> uvalid (mem s) r va"
  shows "vmfault r va s = andthen (kalloc s) (\<lambda>(pg, s).
      if pg = 0 then Inr (0, s)
      else andthen (mappages (pagetable (procs (s\<lparr>mem := memset (mem s) pg 0 4096\<rparr>) p)) (align_down 12 va) PGSIZE pg
          (PTE_W OR PTE_U OR PTE_R) (s\<lparr>mem := memset (mem s) pg 0 4096\<rparr>)) (\<lambda>(r, s).
        if r \<noteq> 0 then andthen (kfree pg s) (\<lambda>s. Inr (0, s)) else Inr (pg, s)))"
proof -
  let ?a = "align_down 12 va"
  have lt: "va < TRAPFRAME" using p(3,4) by (rule order_less_le_trans)
  have vp: "vpage va = ?a" using lt TRAPFRAME_MAXVA by (intro vpage_low) simp
  have a: "?a < TRAPFRAME" using lt align_down_le [of 12 va] by (simp add: word_less_nat_alt)
  have e: "pte_of (mem s) r ?a = pte_of (mem s) r va" using vp pte_of_vpage_self [of "mem s" r va] by simp
  have b: "\<not> bit (pte_of (mem s) r ?a) 0" using v lt e by (simp add: uvalid_def)
  have "ismapped r ?a s = Inr (False, s)"
    using ismapped_eq [OF tree_okD(1) [OF vm_invD(6) [OF i r]], of ?a] a b TRAPFRAME_MAXVA by simp
  then show ?thesis
    unfolding vmfault_def Let_def PGROUNDDOWN_align_down using p(1,3) by (simp add: my_def not_le [symmetric])
qed

lemma fault_view:
  assumes i: "vm_inv s R ext" and n: "\<And>q. 0 \<le> ext q" and r: "r \<in> R"
    and p: "cur s = Some p" "pagetable (procs s p) = r" "va < sz (procs s p)" "sz (procs s p) \<le> TRAPFRAME"
    and v: "\<not> uvalid (mem s) r va"
  obtains (nomem) s' where "vmfault r va s = Inr (0, s')" "vm_inv s' R ext"
      "\<And>r'. r' \<in> R \<Longrightarrow> uview (mem s') r' = uview (mem s) r'"
  | (mapped) pg s' where "vmfault r va s = Inr (pg, s')" "pg \<noteq> 0" "vm_inv s' R ext" "uperm (mem s') r va 2"
      "\<And>r'. r' \<in> R \<Longrightarrow> uview (mem s') r' =
         (\<lambda>vb. if r' = r \<and> align_down 12 vb = align_down 12 va \<and> vb < TRAPFRAME then Some 0 else uview (mem s) r' vb)"
proof -
  let ?a = "align_down 12 va" and ?perm = "PTE_W OR PTE_U OR PTE_R"
  have lt: "va < TRAPFRAME" using p(3,4) by (rule order_less_le_trans)
  have vp: "vpage va = ?a" using lt TRAPFRAME_MAXVA by (intro vpage_low) simp
  have a: "page_aligned ?a" "?a < TRAPFRAME"
    using lt align_down_le [of 12 va] by (simp_all add: word_less_nat_alt)
  have e: "pte_of (mem s) r ?a = pte_of (mem s) r va" using vp pte_of_vpage_self [of "mem s" r va] by simp
  have b: "\<not> bit (pte_of (mem s) r ?a) 0" using v lt e by (simp add: uvalid_def)
  have pm: "flags_ok ?perm" "bit ?perm 1" "bit (?perm OR PTE_V) 0" "bit (?perm OR PTE_V) 2" "bit (?perm OR PTE_V) 4"
    by (simp_all add: flags_ok_def PTE_W_def PTE_U_def PTE_R_def PTE_V_def bit_simps)
  note s = vmfault_eq [OF i r p v]
  show ?thesis
  proof (rule vm_map_fresh [OF i n r a b pm(1,2)])
    assume "kalloc s = Inr (0, s)"
    then show thesis using s i by (intro nomem [of s]) auto
  next
    fix pg s1 s'
    assume k: "kalloc s = Inr (pg, s1)" "pg \<noteq> 0" "free_pg s pg"
      "mappages r ?a PGSIZE pg ?perm (s1\<lparr>mem := memset (mem s1) pg 0 4096\<rparr>) = Inr (0, s')"
      and inv: "vm_inv s' R ext" and sd: "same_data R s s'"
      and pt: "\<And>r' vb. r' \<in> R \<Longrightarrow> pte_of (mem s') r' vb =
         (if r' = r \<and> vpage vb = ?a then PA2PTE pg OR ?perm OR PTE_V else pte_of (mem s) r' vb)"
      and z: "\<And>b. align_down 12 b = pg \<Longrightarrow> mem s' b = 0"
    have "mem_step s s1" using kalloc_zeroedD(7) [OF vm_invD(1) [OF i] k(1,2), of "mem s1"] by simp
    then have pr: "pagetable (procs s1 p) = r" using p(2) by (simp add: mem_step_sel)
    have res: "vmfault r va s = Inr (pg, s')" using s k(1,2,4) pr by simp
    have al: "page_aligned pg" using k(3) by (auto simp: free_pg_def managed_def)
    have up: "uperm (mem s') r va 2" using lt vp by (simp add: uperm_def uvalid_def pt [OF r] bit_PA2PTE bit_or_iff pm [unfolded bit_or_iff])
    note view = fresh_view [OF sd r a(2) b al pm(1) pt z]
    show thesis by (rule mapped [OF res k(2) inv up]) (use view in simp)
  next
    fix pg s1 s2 s'
    assume k: "kalloc s = Inr (pg, s1)" "pg \<noteq> 0"
      "mappages r ?a PGSIZE pg ?perm (s1\<lparr>mem := memset (mem s1) pg 0 4096\<rparr>) = Inr (-1, s2)"
      "kfree pg s2 = Inr s'" and inv: "vm_inv s' R ext" and sd: "same_data R s s'"
      and pt: "\<And>r' vb. r' \<in> R \<Longrightarrow> pte_of (mem s') r' vb = pte_of (mem s) r' vb"
    have "mem_step s s1" using kalloc_zeroedD(7) [OF vm_invD(1) [OF i] k(1,2), of "mem s1"] by simp
    then have pr: "pagetable (procs s1 p) = r" using p(2) by (simp add: mem_step_sel)
    have res: "vmfault r va s = Inr (0, s')" using s k pr by simp
    show thesis by (rule nomem [OF res inv]) (rule uview_same_data [OF sd], use pt in auto)
  qed
qed


lemma PGROUNDUP_user:
  assumes "a \<le> TRAPFRAME"
  shows "page_aligned (PGROUNDUP a)" "a \<le> PGROUNDUP a" "PGROUNDUP a \<le> TRAPFRAME"
    "page_aligned q \<Longrightarrow> PGROUNDUP a \<le> q \<longleftrightarrow> a \<le> q"
proof -
  let ?d = "PGROUNDUP a"
  have s: "unat (a + 4095) = unat a + 4095" using assms by (simp add: unat_word_ariths word_le_nat_alt TRAPFRAME_unat)
  have t: "unat ?d + unat (take_bit 12 (a + 4095)) = unat (a + 4095)"
    unfolding PGROUNDUP_align_down by (rule unat_align_down_split)
  have l: "unat (take_bit 12 (a + 4095)) < 4096" using unat_take_bit_less [of 12 "a + 4095"] by simp
  show al: "page_aligned ?d" by (simp add: PGROUNDUP_align_down)
  have b: "unat a \<le> unat ?d" "unat ?d < unat a + 4096" using s t l by linarith+
  show le: "a \<le> ?d" using b by (simp add: word_le_nat_alt)
  have g: "?d \<le> q" if "page_aligned q" "a \<le> q" for q
    using b(2) that al less_add_dvd [of 4096 "unat ?d" "unat q"]
    unfolding page_aligned_unat mod_eq_0_iff_dvd word_le_nat_alt by simp
  show "?d \<le> TRAPFRAME" by (rule g) (use assms in \<open>simp_all add: page_aligned_unat TRAPFRAME_unat\<close>)
  show "?d \<le> q \<longleftrightarrow> a \<le> q" if "page_aligned q" using g [OF that] le by auto
qed

lemma in_range_iff:
  assumes "unat a \<le> unat (b :: u64)"
  shows "in_range q a (unat b - unat a) \<longleftrightarrow> unat a \<le> unat q \<and> unat q < unat b"
proof (cases "a \<le> q")
  case True
  then show ?thesis using unat_sub [OF True] by (auto simp: in_range_def word_le_nat_alt)
next
  case False
  then have "unat (q - a) = unat q + 2 ^ 64 - unat a" by (simp add: unat_sub_if_size word_size word_le_nat_alt)
  moreover have "unat b < 2 ^ 64" using unsigned_less [of b, where ?'a = nat] by simp
  ultimately show ?thesis using False assms unfolding in_range_def word_le_nat_alt by linarith
qed

lemma dealloc_view:
  assumes i: "vm_inv s R ext" and n: "\<And>q. 0 \<le> ext q" and r: "r \<in> R" and l: "oldsz \<le> TRAPFRAME"
  obtains s' where "uvmdealloc r oldsz newsz s = Inr (min oldsz newsz, s')" "vm_inv s' R ext"
    "\<And>va. uview (mem s') r va = (if newsz \<le> align_down 12 va \<and> align_down 12 va < oldsz then None else uview (mem s) r va)"
    "\<And>r'. r' \<in> R \<Longrightarrow> r' \<noteq> r \<Longrightarrow> uview (mem s') r' = uview (mem s) r'"
    "\<And>r' va. r' \<in> R \<Longrightarrow> pte_of (mem s') r' va =
       (if r' = r \<and> newsz \<le> vpage va \<and> vpage va < oldsz then 0 else pte_of (mem s) r' va)"
proof (cases "newsz < oldsz \<and> PGROUNDUP newsz < PGROUNDUP oldsz")
  case False
  have res: "uvmdealloc r oldsz newsz s = Inr (min oldsz newsz, s)" using False by (auto simp: uvmdealloc_def min_def not_less)
  have no: "\<not> (newsz \<le> q \<and> q < oldsz)" if "page_aligned q" for q
  proof (cases "newsz < oldsz")
    case True
    then have "newsz \<le> TRAPFRAME" using l by simp
    note pn = PGROUNDUP_user(4) [OF this that] and po = PGROUNDUP_user(4) [OF l that]
    have "PGROUNDUP oldsz \<le> PGROUNDUP newsz" using False True by (simp add: not_less)
    then have "newsz \<le> q \<Longrightarrow> oldsz \<le> q" unfolding pn [symmetric] po [symmetric] by (rule order_trans)
    then show ?thesis by (auto simp: not_less [symmetric])
  qed auto
  show ?thesis by (rule that [OF res i]) (use no in auto)
next
  case True
  let ?a = "PGROUNDUP newsz" and ?b = "PGROUNDUP oldsz"
  have nl: "newsz \<le> TRAPFRAME" using True l by (auto dest: less_imp_le order_trans)
  note pn = PGROUNDUP_user [OF nl] and po = PGROUNDUP_user [OF l]
  define k where "k = (?b - ?a) div PGSIZE"
  have ub: "unat (?b - ?a) = unat ?b - unat ?a" using True by (intro unat_sub) (simp add: less_imp_le)
  have d: "4096 dvd unat ?b - unat ?a" using pn(1) po(1) by (auto simp: page_aligned_unat mod_eq_0_iff_dvd)
  have uk: "unat k = (unat ?b - unat ?a) div 4096" unfolding k_def unat_div_PGSIZE ub ..
  have k4: "unat k * 4096 = unat ?b - unat ?a" unfolding uk using d by simp
  have kb: "unat k < 2 ^ 31" using k4 po(3) by (simp add: word_le_nat_alt TRAPFRAME_unat)
  have np: "scast (ucast k :: u32) = k"
  proof -
    have "k = take_bit 31 k" using kb by (simp add: word_unat_eq_iff unsigned_take_bit_eq take_bit_nat_eq_self)
    then have "\<not> bit k j" if "31 \<le> j" for j using that by (metis bit_take_bit_iff not_le)
    then show ?thesis by (intro bit_word_eqI) (auto simp: bit_simps min_def not_le)
  qed
  have a: "unat ?a + unat k * 4096 \<le> unat TRAPFRAME" using k4 po(3) True by (simp add: word_le_nat_alt word_less_nat_alt)
  obtain s' where s': "uvmunmap r ?a k True s = Inr s'" "vm_inv s' R ext"
    and pt: "\<And>r' vb. r' \<in> R \<Longrightarrow> pte_of (mem s') r' vb =
        (if r' = r \<and> in_range (vpage vb) ?a (unat k * 4096) then 0 else pte_of (mem s) r' vb)"
    and tc: "touches (foot (mem s) r \<union> {p. range_maps (pte_of (mem s) r) ?a (unat k) p \<noteq> {}}) s s'"
    and rc: "\<And>q. managed s q \<Longrightarrow> rc s' q = rc s q - int (card (range_maps (pte_of (mem s) r) ?a (unat k) q))"
    and kp: "\<And>b. managed s (align_down 12 b) \<Longrightarrow> align_down 12 b \<notin> foot (mem s) r \<Longrightarrow> 0 < rc s' (align_down 12 b) \<Longrightarrow>
        mem s' b = mem s b"
    by (rule vm_uvmunmap [OF i n r pn(1) a]) (rule that)
  have rg: "in_range q ?a (unat k * 4096) \<longleftrightarrow> newsz \<le> q \<and> q < oldsz" if "page_aligned q" for q
  proof -
    have "in_range q ?a (unat k * 4096) \<longleftrightarrow> unat ?a \<le> unat q \<and> unat q < unat ?b"
      unfolding k4 by (rule in_range_iff) (use True in \<open>simp add: word_less_nat_alt\<close>)
    also have "\<dots> \<longleftrightarrow> ?a \<le> q \<and> q < ?b" by (simp add: word_le_nat_alt word_less_nat_alt)
    also have "\<dots> \<longleftrightarrow> newsz \<le> q \<and> q < oldsz" using pn(4) [OF that] po(4) [OF that] by (auto simp: not_le [symmetric])
    finally show ?thesis .
  qed
  have res: "uvmdealloc r oldsz newsz s = Inr (min oldsz newsz, s')"
    using True s'(1) np by (auto simp: uvmdealloc_def Let_def k_def [symmetric] min_def)
  have view: "uview (mem s') q va = (if q = r \<and> newsz \<le> vpage va \<and> vpage va < oldsz then None else uview (mem s) q va)"
    if q: "q \<in> R" for q va
  proof (cases "q = r \<and> newsz \<le> vpage va \<and> vpage va < oldsz")
    case True
    then show ?thesis using pt [OF r, of va] rg [of "vpage va"] by (simp add: uview_def uvalid_def)
  next
    case False
    then have pe: "pte_of (mem s') q va = pte_of (mem s) q va" using pt [OF q, of va] rg [of "vpage va"] by auto
    have "mem s' (uaddr (mem s) q va) = mem s (uaddr (mem s) q va)" if v: "uvalid (mem s) q va"
    proof -
      let ?p = "PTE2PA (pte_of (mem s) q va)"
      have v': "uvalid (mem s') q va" using v pe by (simp add: uvalid_def)
      have m: "maps (mem s) R ?p \<noteq> {}" "maps (mem s') R ?p \<noteq> {}"
        using uvalid_maps(1) [OF q v] uvalid_maps(1) [OF q v'] pe by auto
      note vm = vm_mapped [OF i n m(1)] vm_mapped(2) [OF s'(2) n m(2)]
      show ?thesis by (rule kp) (use vm r in \<open>auto simp: uaddr_page tables_def\<close>)
    qed
    then show ?thesis using pe False by (auto simp: uview_def uvalid_def ubyte_def uaddr_def)
  qed
  show ?thesis
  proof (rule that [OF res s'(2)])
    fix va
    show "uview (mem s') r va = (if newsz \<le> align_down 12 va \<and> align_down 12 va < oldsz then None else uview (mem s) r va)"
    proof (cases "va < TRAPFRAME")
      case True
      then show ?thesis using view [OF r, of va] vpage_low [of va] TRAPFRAME_MAXVA by simp
    qed (simp add: uview_def uvalid_def)
  next
    fix q assume "q \<in> R" "q \<noteq> r"
    then show "uview (mem s') q = uview (mem s) q" using view by auto
  next
    fix q va assume "q \<in> R"
    then show "pte_of (mem s') q va = (if q = r \<and> newsz \<le> vpage va \<and> vpage va < oldsz then 0 else pte_of (mem s) q va)"
      using pt rg [of "vpage va"] by simp
  qed
qed


lemma user_page_next_le:
  assumes "page_aligned i" "i < TRAPFRAME"
  shows "i + PGSIZE \<le> TRAPFRAME"
proof -
  have "page_aligned TRAPFRAME" by (simp add: page_aligned_unat TRAPFRAME_unat)
  from next_user_page(3) [OF assms this] assms(2) show ?thesis by auto
qed

text \<open>\<open>uvmalloc\<close>: either all pages up to \<open>newsz\<close> are added, filled with zeros, or those
  added so far are removed again.\<close>

definition grow_post where
  "grow_post R ext r a oldsz newsz s ret s' \<longleftrightarrow> vm_inv s' R ext \<and>
     (\<forall>r' \<in> R. r' \<noteq> r \<longrightarrow> uview (mem s') r' = uview (mem s) r') \<and>
     (ret = newsz \<and> (\<forall>va. uview (mem s') r va =
         (if a \<le> align_down 12 va \<and> align_down 12 va < newsz \<and> va < TRAPFRAME then Some 0 else uview (mem s) r va)) \<or>
      ret = 0 \<and> (\<forall>va. uview (mem s') r va =
         (if oldsz \<le> align_down 12 va \<and> align_down 12 va < a then None else uview (mem s) r va)))"

lemma uvmalloc_loop_Suc:
  "uvmalloc_loop (Suc n) r a oldsz newsz xperm s =
     (if a < newsz
      then andthen (kalloc s) (\<lambda>(pg, s).
        if pg = 0
        then andthen (uvmdealloc r a oldsz s) (\<lambda>(x, s). Inr (0, s))
        else andthen (mappages r a PGSIZE pg (PTE_R OR PTE_U OR xperm) (s\<lparr>mem := memset (mem s) pg 0 4096\<rparr>)) (\<lambda>(x, s).
             if x \<noteq> 0
             then andthen (kfree pg s) (\<lambda>s. andthen (uvmdealloc r a oldsz s) (\<lambda>(x, s). Inr (0, s)))
             else uvmalloc_loop n r (a + PGSIZE) oldsz newsz xperm s))
      else Inr (newsz, s))"
  unfolding uvmalloc_loop.simps Let_def ..

lemma grow_post_done:
  assumes "vm_inv s R ext" "newsz \<le> a"
  shows "grow_post R ext r a oldsz newsz s newsz s"
proof -
  have "\<not> (a \<le> q \<and> q < newsz)" for q using order_trans [OF assms(2)] by (auto simp: not_less [symmetric])
  then show ?thesis using assms(1) unfolding grow_post_def by metis
qed

lemma alloc_back:
  assumes "vm_inv s R ext" "\<And>q. 0 \<le> ext q" "r \<in> R" "a \<le> TRAPFRAME"
    "\<And>r'. r' \<in> R \<Longrightarrow> uview (mem s) r' = uview (mem s0) r'"
  shows "\<exists>s'. andthen (uvmdealloc r a oldsz s) (\<lambda>(x, s). Inr (0, s)) = Inr (0, s') \<and> grow_post R ext r a oldsz newsz s0 0 s'"
  by (rule dealloc_view [OF assms(1-4), of oldsz]) (use assms(3,5) in \<open>auto simp: grow_post_def\<close>)

lemma alloc_view_loop:
  assumes "vm_inv s R ext" "\<And>q. 0 \<le> ext q" "r \<in> R" "page_aligned a" "page_aligned oldsz" "oldsz \<le> a" "a \<le> TRAPFRAME"
    "newsz \<le> TRAPFRAME" "unat newsz \<le> unat a + n * 4096" "flags_ok xperm"
    "\<And>va. a \<le> align_down 12 va \<Longrightarrow> align_down 12 va < newsz \<Longrightarrow> \<not> uvalid (mem s) r va"
  shows "\<exists>ret s'. uvmalloc_loop n r a oldsz newsz xperm s = Inr (ret, s') \<and> grow_post R ext r a oldsz newsz s ret s'"
  using assms
proof (induction n arbitrary: a s)
  case 0
  then have "newsz \<le> a" by (simp add: word_le_nat_alt)
  then show ?case using grow_post_done [OF 0(1)] by (auto simp: not_less [symmetric])
next
  case (Suc n)
  note i = Suc.prems(1) and n = Suc.prems(2) and r = Suc.prems(3) and al = Suc.prems(4)
  show ?case
  proof (cases "a < newsz")
    case False
    then show ?thesis unfolding uvmalloc_loop_Suc using grow_post_done [OF i] by simp
  next
    case True
    then have at: "a < TRAPFRAME" using Suc.prems(8) by simp
    have am: "align_down 12 a = a" using al by (simp add: page_aligned_iff)
    let ?perm = "PTE_R OR PTE_U OR xperm"
    have b: "\<not> bit (pte_of (mem s) r a) 0" using Suc.prems(11) [of a] am True at by (simp add: uvalid_def)
    have pm: "flags_ok ?perm" "bit ?perm 1" using Suc.prems(10) by (simp_all add: bit_simps PTE_R_def flags_ok_def PTE_U_def)
    show ?thesis
    proof (rule vm_map_fresh [OF i n r al at b pm])
      assume "kalloc s = Inr (0, s)"
      then show ?thesis using alloc_back [OF i n r Suc.prems(7), of s oldsz newsz] True by (auto simp: uvmalloc_loop_Suc)
    next
      fix pg s1 s2 s'
      assume k: "kalloc s = Inr (pg, s1)" "pg \<noteq> 0"
        "mappages r a PGSIZE pg ?perm (s1\<lparr>mem := memset (mem s1) pg 0 4096\<rparr>) = Inr (-1, s2)"
        "kfree pg s2 = Inr s'" and inv: "vm_inv s' R ext" and sd: "same_data R s s'"
        and pt: "\<And>r' vb. r' \<in> R \<Longrightarrow> pte_of (mem s') r' vb = pte_of (mem s) r' vb"
      have "uview (mem s') q = uview (mem s) q" if "q \<in> R" for q
        by (rule uview_same_data [OF sd that]) (use pt that in auto)
      from alloc_back [OF inv n r Suc.prems(7) this, of oldsz newsz] show ?thesis
        using k True by (auto simp: uvmalloc_loop_Suc)
    next
      fix pg s1 s'
      assume k: "kalloc s = Inr (pg, s1)" "pg \<noteq> 0" "free_pg s pg"
        "mappages r a PGSIZE pg ?perm (s1\<lparr>mem := memset (mem s1) pg 0 4096\<rparr>) = Inr (0, s')"
        and inv: "vm_inv s' R ext" and sd: "same_data R s s'"
        and pt: "\<And>r' vb. r' \<in> R \<Longrightarrow> pte_of (mem s') r' vb =
           (if r' = r \<and> vpage vb = a then PA2PTE pg OR ?perm OR PTE_V else pte_of (mem s) r' vb)"
        and z: "\<And>b. align_down 12 b = pg \<Longrightarrow> mem s' b = 0"
      have pa: "page_aligned pg" using k(3) by (auto simp: free_pg_def managed_def)
      have view: "uview (mem s') q =
          (\<lambda>vb. if q = r \<and> align_down 12 vb = a \<and> vb < TRAPFRAME then Some 0 else uview (mem s) q vb)" if "q \<in> R" for q
        by (rule fresh_view [OF sd r at b pa pm(1) pt z that])
      note nx = next_user_page [OF al at] user_page_next_le [OF al at]
      have le: "oldsz \<le> a + PGSIZE" using Suc.prems(6) nx(2) by (simp add: word_le_nat_alt)
      have fu: "unat newsz \<le> unat (a + PGSIZE) + n * 4096" using Suc.prems(9) nx(2) by simp
      have step: "a \<le> q \<longleftrightarrow> q = a \<or> a + PGSIZE \<le> q" if "page_aligned q" for q by (rule nx(3) [OF that])
      have ne: "a + PGSIZE \<noteq> a" using nx(2) by auto
      have nv: "\<not> uvalid (mem s') r va" if "a + PGSIZE \<le> align_down 12 va" "align_down 12 va < newsz" for va
      proof -
        have "align_down 12 va \<noteq> a" using that(1) nx(2) by (auto simp: word_le_nat_alt)
        then have "uview (mem s') r va = uview (mem s) r va" using view [OF r] by simp
        then show ?thesis using Suc.prems(11) [of va] that step [of "align_down 12 va"] by (simp flip: uview_None)
      qed
      obtain ret s'' where l: "uvmalloc_loop n r (a + PGSIZE) oldsz newsz xperm s' = Inr (ret, s'')"
        "grow_post R ext r (a + PGSIZE) oldsz newsz s' ret s''"
        using Suc.IH [OF inv n r nx(1) Suc.prems(5) le nx(4) Suc.prems(8) fu Suc.prems(10) nv] by blast
      have res: "uvmalloc_loop (Suc n) r a oldsz newsz xperm s = Inr (ret, s'')"
        unfolding uvmalloc_loop_Suc using True k l(1) by simp
      have lt: "q < a + PGSIZE \<longleftrightarrow> q = a \<or> q < a" if "page_aligned q" for q
        using step [OF that] nx(2) by (auto simp: not_le [symmetric] word_le_nat_alt)
      have none: "uview (mem s) r va = None" if "align_down 12 va = a" for va
        using Suc.prems(11) [of va] that True uview_None by auto
      have ps: "page_aligned (align_down 12 va)" for va :: u64 by simp
      have vr: "uview (mem s') r va = (if align_down 12 va = a \<and> va < TRAPFRAME then Some 0 else uview (mem s) r va)" for va
        using view [OF r] by simp
      have ok: "uview (mem s'') r va = (if a \<le> align_down 12 va \<and> align_down 12 va < newsz \<and> va < TRAPFRAME
            then Some 0 else uview (mem s) r va)"
        if "uview (mem s'') r va = (if a + PGSIZE \<le> align_down 12 va \<and> align_down 12 va < newsz \<and> va < TRAPFRAME
            then Some 0 else uview (mem s') r va)" for va
        unfolding that vr step [OF ps] using True by auto
      have no: "uview (mem s'') r va = (if oldsz \<le> align_down 12 va \<and> align_down 12 va < a then None else uview (mem s) r va)"
        if "uview (mem s'') r va = (if oldsz \<le> align_down 12 va \<and> align_down 12 va < a + PGSIZE then None else uview (mem s') r va)" for va
        unfolding that vr lt [OF ps] using Suc.prems(6) none [of va] by auto
      have "grow_post R ext r a oldsz newsz s ret s''"
        unfolding grow_post_def
      proof (intro conjI ballI impI)
        show "vm_inv s'' R ext" using l(2) by (simp add: grow_post_def)
        show "uview (mem s'') q = uview (mem s) q" if "q \<in> R" "q \<noteq> r" for q
          using l(2) that view [OF that(1)] by (simp add: grow_post_def)
      qed (use l(2) [unfolded grow_post_def] ok no in blast)
      then show ?thesis using res by blast
    qed
  qed
qed


lemma alloc_view:
  assumes "vm_inv s R ext" "\<And>q. 0 \<le> ext q" "r \<in> R" "oldsz \<le> newsz" "newsz \<le> TRAPFRAME" "flags_ok xperm"
    "\<And>va. oldsz \<le> align_down 12 va \<Longrightarrow> align_down 12 va < newsz \<Longrightarrow> \<not> uvalid (mem s) r va"
  obtains (grown) s' where "uvmalloc r oldsz newsz xperm s = Inr (newsz, s')" "vm_inv s' R ext"
      "\<And>r'. r' \<in> R \<Longrightarrow> uview (mem s') r' = (\<lambda>va. if r' = r \<and> oldsz \<le> align_down 12 va \<and> align_down 12 va < newsz \<and> va < TRAPFRAME
         then Some 0 else uview (mem s) r' va)"
  | (nomem) s' where "uvmalloc r oldsz newsz xperm s = Inr (0, s')" "vm_inv s' R ext"
      "\<And>r'. r' \<in> R \<Longrightarrow> uview (mem s') r' = uview (mem s) r'"
proof -
  have ol: "oldsz \<le> TRAPFRAME" using assms(4,5) by (rule order_trans)
  note pu = PGROUNDUP_user [OF ol]
  let ?a = "PGROUNDUP oldsz"
  have le: "?a \<le> align_down 12 va \<longleftrightarrow> oldsz \<le> align_down 12 va" for va by (rule pu(4)) simp
  have f: "oldsz \<le> align_down 12 va \<and> align_down 12 va < ?a \<longleftrightarrow> False" for va
    using le [of va] by (simp add: not_le [symmetric])
  have fuel: "unat newsz \<le> unat ?a + Suc (unat (newsz div PGSIZE)) * 4096" by (simp add: unat_div_PGSIZE)
  have nv: "\<not> uvalid (mem s) r va" if "?a \<le> align_down 12 va" "align_down 12 va < newsz" for va using assms(7) that le by blast
  obtain ret s' where l: "uvmalloc_loop (Suc (unat (newsz div PGSIZE))) r ?a ?a newsz xperm s = Inr (ret, s')"
    and p: "grow_post R ext r ?a ?a newsz s ret s'"
    using alloc_view_loop [OF assms(1-3) pu(1) pu(1) order_refl pu(3) assms(5) fuel assms(6) nv] by blast
  have e: "uvmalloc r oldsz newsz xperm s = Inr (ret, s')"
    unfolding uvmalloc_def Let_def using assms(4) l by (simp add: not_less [symmetric] del: uvmalloc_loop.simps)
  have pd: "vm_inv s' R ext" "\<And>q. q \<in> R \<Longrightarrow> q \<noteq> r \<Longrightarrow> uview (mem s') q = uview (mem s) q"
    "ret = newsz \<and> (\<forall>va. uview (mem s') r va =
         (if oldsz \<le> align_down 12 va \<and> align_down 12 va < newsz \<and> va < TRAPFRAME then Some 0 else uview (mem s) r va)) \<or>
      ret = 0 \<and> (\<forall>va. uview (mem s') r va = uview (mem s) r va)"
    using p unfolding grow_post_def le f by simp_all
  show ?thesis
    using pd(3)
  proof
    assume g: "ret = newsz \<and> (\<forall>va. uview (mem s') r va =
         (if oldsz \<le> align_down 12 va \<and> align_down 12 va < newsz \<and> va < TRAPFRAME then Some 0 else uview (mem s) r va))"
    have "uview (mem s') q = (\<lambda>va. if q = r \<and> oldsz \<le> align_down 12 va \<and> align_down 12 va < newsz \<and> va < TRAPFRAME
         then Some 0 else uview (mem s) q va)" if "q \<in> R" for q
      using pd(2) [OF that] g by (cases "q = r") auto
    then show thesis using e pd(1) g by (intro grown [of s']) auto
  next
    assume "ret = 0 \<and> (\<forall>va. uview (mem s') r va = uview (mem s) r va)"
    then show thesis using e pd(1,2) by (intro nomem [of s']) (simp_all, metis HOL.ext)
  qed
qed

end
