(* ===== verification/Memcount.thy ===== *)
theory Memcount
  imports Uview
begin

unbundle bit_operations_syntax

text \<open>
  How much memory mapping a page takes: the page tables on the way that do not exist yet, and the
  page itself. A request that fails is one for which there were not enough free pages.
\<close>

definition free_count :: "'z kst_scheme \<Rightarrow> nat" where
  "free_count s = card {q. free_pg s q}"

text \<open>The number of page tables that are missing on the way to \<open>va\<close>.\<close>

definition missing :: "memory \<Rightarrow> u64 \<Rightarrow> u64 \<Rightarrow> nat" where
  "missing m r va = (if pt_at m r va 1 = None then 2 else if pt_at m r va 2 = None then 1 else 0)"

lemma free_count_kalloc:
  assumes "kmem_ok s" "kalloc s = Inr (pg, s1)"
  shows "pg = 0 \<longleftrightarrow> free_count s = 0" "pg = 0 \<Longrightarrow> s1 = s" "pg \<noteq> 0 \<Longrightarrow> Suc (free_count (s1\<lparr>mem := m\<rparr>)) = free_count s"
proof -
  have l: "pg = 0 \<and> s1 = s \<and> (\<forall>q. managed s q \<longrightarrow> 0 < rc s q) \<or> managed s pg \<and> rc s pg = 0"
    using kmem.alloc_law [OF assms(1)] assms(2) by auto
  have n: "\<not> managed s 0" by (rule kmem.nil_no_page [OF assms(1)])
  show "pg = 0 \<longleftrightarrow> free_count s = 0" using l n by (auto simp: free_count_def free_pg_def)
  show "pg = 0 \<Longrightarrow> s1 = s" using l n by auto
  assume p: "pg \<noteq> 0"
  note z = kalloc_zeroedD [OF assms p]
  have "{q. free_pg s q} = insert pg {q. free_pg (s1\<lparr>mem := m\<rparr>) q}"
    using z(1,6) managed_mem_step [OF z(7)] by (auto simp: free_pg_def split: if_splits)
  moreover have "\<not> free_pg (s1\<lparr>mem := m\<rparr>) pg" using z(1,6) by (simp add: free_pg_def)
  ultimately show "Suc (free_count (s1\<lparr>mem := m\<rparr>)) = free_count s" by (simp add: free_count_def)
qed

lemma free_count_mem [simp]: "free_count (s\<lparr>mem := m\<rparr>) = free_count s"
  by (simp add: free_count_def free_pg_def)

lemma walk_loop_count:
  assumes "kmem_ok s" "tree_ok s r" "k \<le> 2" "pt_at (mem s) r va (2 - k) = Some p" "walk_loop k p va True s = Inr (pte, s')"
  shows "(pte = 0 \<longleftrightarrow> free_count s < missing (mem s) r va) \<and> (pte \<noteq> 0 \<longrightarrow> free_count s = free_count s' + missing (mem s) r va)"
  using assms
proof (induction k arbitrary: s p)
  case 0
  then have "p \<in> foot (mem s) r" using pt_at_foot by force
  then have "page_aligned p" "p \<noteq> 0"
    using 0 wf_treeD(1,2) [OF tree_okD(1) [OF 0(2)], of va 2 p] by auto
  then have "entry p 0 va \<noteq> 0" using slot_nonzero [OF _ _ unat_PX] by (simp add: entry_slot)
  moreover have "pt_at (mem s) r va 1 \<noteq> None" using 0(4) pt_at_None_mono [of "mem s" r va 1 2] by auto
  ultimately show ?case using 0 by (auto simp: missing_def)
next
  case (Suc k)
  let ?d = "2 - Suc k" and ?e = "entry p (Suc k) va"
  have d: "?d < 2" "2 - ?d = Suc k" "Suc ?d = 2 - k" using Suc.prems(3) by auto
  show ?case
  proof (cases "PTE_is (load64 (mem s) ?e) PTE_V")
    case True
    then have "pt_at (mem s) r va (2 - k) = Some (PTE2PA (load64 (mem s) ?e))"
      unfolding d(3) [symmetric] using Suc.prems(4) d(2) by (simp add: Let_def)
    then show ?thesis using Suc.IH [of s "PTE2PA (load64 (mem s) ?e)"] Suc.prems True by simp
  next
    case inv: False
    have n: "pt_at (mem s) r va (Suc ?d) = None" using inv Suc.prems(4) d(2) by (simp add: Let_def)
    have ms: "missing (mem s) r va = Suc k"
    proof (cases "k = 0")
      case True
      then show ?thesis using n Suc.prems(4) by (simp add: missing_def numeral_2_eq_2)
    next
      case False
      then have "k = 1" using Suc.prems(3) by simp
      then show ?thesis using n by (simp add: missing_def)
    qed
    obtain pg s1 where ka: "kalloc s = Inr (pg, s1)" using kmem.alloc_law [OF Suc.prems(1)] by blast
    note c = free_count_kalloc [OF Suc.prems(1) ka]
    show ?thesis
    proof (cases "pg = 0")
      case True
      then show ?thesis using Suc.prems(5) inv ka c(1) ms by (simp add: Let_def)
    next
      case False
      define t where "t = s1\<lparr>mem := store64 (memset (mem s1) pg 0 4096) ?e (PA2PTE pg OR PTE_V)\<rparr>"
      note g = extends_grow [OF Suc.prems(1,2,4) d(1) _ ka False, unfolded d(2,3), folded t_def, OF inv]
      note z = kalloc_zeroedD [OF Suc.prems(1) ka False]
      have nf: "pg \<notin> foot (mem s) r" using z(1) tree_okD(3) [OF Suc.prems(2), of pg] by (auto simp: free_pg_def)
      have "mem t = grow (mem s) ?e pg" by (simp add: t_def z(4) grow_def)
      then have "pt_at (mem t) r va e = (if e \<le> ?d then pt_at (mem s) r va e else if e = Suc ?d then Some pg else None)" if "e \<le> 2" for e
        using pt_at_grow [OF tree_okD(1) [OF Suc.prems(2)] Suc.prems(4) d(1) z(2) nf that, of va] d(2) by simp
      from this [of 1] this [of 2] have mt: "missing (mem t) r va = k" using Suc.prems(3,4) by (auto simp: missing_def)
      have w: "walk_loop k pg va True t = Inr (pte, s')" using Suc.prems(5) inv ka False by (simp add: Let_def t_def)
      have "Suc (free_count t) = free_count s" unfolding t_def using c(3) [OF False] by simp
      then show ?thesis using Suc.IH [OF extendsD(1,2) [OF g(1)] _ g(3) w] Suc.prems(3) ms mt by auto
    qed
  qed
qed

lemma mappages_count:
  assumes "kmem_ok s" "tree_ok s r" "page_aligned a" "a < MAXVA" "mappages r a PGSIZE pa perm s = Inr (ret, s')"
  shows "ret \<noteq> 0 \<longleftrightarrow> free_count s < missing (mem s) r a" "ret = 0 \<Longrightarrow> free_count s = free_count s' + missing (mem s) r a"
proof -
  have "mappages r a PGSIZE pa perm s = mappages_loop (Suc 0) r a a pa perm s"
    using assms(3) by (simp add: mappages_def page_aligned_def) (simp add: PGSIZE_def)
  moreover obtain pte s1 where w: "walk r a True s = Inr (pte, s1)" using walk_alloc [OF assms(1,2,4)] by metis
  moreover have "walk_loop 2 r a True s = Inr (pte, s1)" using w assms(4) by (simp add: walk_def split: if_splits)
  note walk_loop_count [OF assms(1,2) _ _ this, simplified]
  ultimately show "ret \<noteq> 0 \<longleftrightarrow> free_count s < missing (mem s) r a"
    "ret = 0 \<Longrightarrow> free_count s = free_count s' + missing (mem s) r a"
    using assms(5) by (auto simp: Let_def split: if_splits)
qed

lemma missing_frame:
  assumes "page_aligned r" "\<And>p a. p \<in> foot m r \<Longrightarrow> align_down 12 a = p \<Longrightarrow> m' a = m a"
  shows "missing m' r va = missing m r va"
  using pt_at_frame [OF assms, where d = 1] pt_at_frame [OF assms, where d = 2] by (simp add: missing_def)

lemma missing_align_down: "missing m r (align_down 12 va) = missing m r va"
proof -
  have "same_path 2 (align_down 12 va) va" using same_page_vpage [of "align_down 12 va" va] by (simp add: same_page_alt)
  then have "pt_at m r (align_down 12 va) d = pt_at m r va d" if "d \<le> 2" for d
    using that same_path_mono by (intro pt_at_same_path) blast
  from this [of 1] this [of 2] show ?thesis by (simp only: missing_def)
qed

lemma fresh_count:
  assumes i: "vm_inv s R ext" and r: "r \<in> R" and a: "page_aligned a" "a < MAXVA"
    and ka: "kalloc s = Inr (q, s1)" "q \<noteq> 0"
    and m: "mappages r a PGSIZE q perm (s1\<lparr>mem := memset (mem s1) q 0 4096\<rparr>) = Inr (ret, s2)"
  shows "ret \<noteq> 0 \<longleftrightarrow> free_count s \<le> missing (mem s) r a" "ret = 0 \<Longrightarrow> free_count s = free_count s2 + missing (mem s) r a + 1"
proof -
  note k = vm_invD(1) [OF i] and t = vm_invD(6) [OF i r]
  note z = kalloc_zeroedD [OF k ka]
  define u where "u = s1\<lparr>mem := memset (mem s1) q 0 4096\<rparr>"
  have mu: "mem u = fill (mem s) q 0 4096" by (simp add: u_def z(4))
  have nf: "q \<notin> foot (mem s) r" using z(1) tree_okD(3) [OF t, of q] by (auto simp: free_pg_def)
  have ou: "mem u b = mem s b" if "align_down 12 b \<in> foot (mem s) r" for b
    using that nf z(2) by (cases "align_down 12 b = q") (simp_all add: mu fill_other)
  have fu: "foot (mem u) r = foot (mem s) r" "wf_tree (mem u) r" "missing (mem u) r a = missing (mem s) r a"
    using foot_frame [OF tree_okD(4) [OF t], of "mem s" "mem u"] missing_frame [OF tree_okD(4) [OF t], of "mem s" "mem u"] ou
      tree_okD(1) [OF t] by auto
  have ku: "kmem_ok u" using z(3) by (simp add: u_def z(4))
  have "managed u b = managed s b" for b unfolding u_def by (rule managed_mem_step [OF z(7)])
  then have tu: "tree_ok u r" using fu tree_okD(2,3) [OF t] z(6) nf by (auto simp: tree_ok_def u_def)
  note mc = mappages_count [OF ku tu a m [folded u_def]]
  have "Suc (free_count u) = free_count s" unfolding u_def by (rule free_count_kalloc(3) [OF k ka])
  then show "ret \<noteq> 0 \<longleftrightarrow> free_count s \<le> missing (mem s) r a" "ret = 0 \<Longrightarrow> free_count s = free_count s2 + missing (mem s) r a + 1"
    using mc fu(3) by auto
qed

lemma vmfault_count:
  assumes i: "vm_inv s R ext" and r: "r \<in> R"
    and p: "cur s = Some p" "pagetable (procs s p) = r" "va < sz (procs s p)" "sz (procs s p) \<le> TRAPFRAME"
    and v: "\<not> uvalid (mem s) r va" and f: "vmfault r va s = Inr (pg, s')"
  shows "pg = 0 \<longleftrightarrow> free_count s \<le> missing (mem s) r va"
proof -
  let ?a = "align_down 12 va"
  note k = vm_invD(1) [OF i]
  have lt: "va < MAXVA" using p(3,4) TRAPFRAME_MAXVA by simp
  have a: "page_aligned ?a" "?a < MAXVA" using lt align_down_le [of 12 va] by (simp_all add: word_less_nat_alt)
  obtain q s1 where ka: "kalloc s = Inr (q, s1)" using kmem.alloc_law [OF k] by blast
  show ?thesis
  proof (cases "q = 0")
    case True
    then show ?thesis using f free_count_kalloc(1) [OF k ka] ka by (simp add: vmfault_eq [OF i r p v])
  next
    case False
    have pu: "procs s1 = procs s" using mem_step_sel(8) [OF kalloc_zeroedD(7) [OF k ka False, of "mem s1"]] by simp
    let ?m = "mappages r ?a PGSIZE q (PTE_W OR PTE_U OR PTE_R) (s1\<lparr>mem := memset (mem s1) q 0 4096\<rparr>)"
    obtain ret s2 where m: "?m = Inr (ret, s2)"
      using f ka False by (cases ?m) (auto simp: vmfault_eq [OF i r p v] pu p(2))
    have "pg = 0 \<longleftrightarrow> ret \<noteq> 0" using f ka False m
      by (cases "kfree q s2") (auto simp: vmfault_eq [OF i r p v] pu p(2) split: if_splits)
    then show ?thesis using fresh_count(1) [OF i r a ka False m] by (simp add: missing_align_down)
  qed
qed

lemma missing_le: "missing m r va \<le> 2"
  by (simp add: missing_def)

text \<open>With three free pages for each new page there is memory for all of them.\<close>

lemma alloc_loop_enough:
  assumes "vm_inv s R ext" "\<And>q. 0 \<le> ext q" "r \<in> R" "page_aligned a" "a \<le> TRAPFRAME"
    "newsz \<le> TRAPFRAME" "unat newsz \<le> unat a + k * 4096" "3 * k \<le> free_count s" "k \<le> n" "flags_ok xperm"
    "\<And>va. a \<le> align_down 12 va \<Longrightarrow> align_down 12 va < newsz \<Longrightarrow> \<not> uvalid (mem s) r va"
  shows "\<exists>s'. uvmalloc_loop n r a oldsz newsz xperm s = Inr (newsz, s')"
  using assms
proof (induction k arbitrary: n a s)
  case 0
  then have "\<not> a < newsz" by (simp add: word_less_nat_alt)
  then show ?case by (cases n) simp_all
next
  case (Suc k)
  note i = Suc.prems(1) and nn = Suc.prems(2) and r = Suc.prems(3) and al = Suc.prems(4)
  obtain n' where n': "n = Suc n'" using Suc.prems(9) by (cases n) auto
  show ?case
  proof (cases "a < newsz")
    case False
    then show ?thesis unfolding n' uvmalloc_loop_Suc by simp
  next
    case True
    then have at: "a < TRAPFRAME" "a < MAXVA" using Suc.prems(6) TRAPFRAME_MAXVA by simp_all
    have am: "align_down 12 a = a" using al by (simp add: page_aligned_iff)
    let ?perm = "PTE_R OR PTE_U OR xperm"
    have b: "\<not> bit (pte_of (mem s) r a) 0" using Suc.prems(11) [of a] am True at by (simp add: uvalid_def)
    have pm: "flags_ok ?perm" "bit ?perm 1" using Suc.prems(10) by (simp_all add: bit_simps PTE_R_def flags_ok_def PTE_U_def)
    have fc: "missing (mem s) r a < free_count s" using Suc.prems(8) missing_le [of "mem s" r a] by simp
    show ?thesis
    proof (rule vm_map_fresh [OF i nn r al at(1) b pm])
      assume "kalloc s = Inr (0, s)"
      then show ?thesis using free_count_kalloc(1) [OF vm_invD(1) [OF i]] fc by force
    next
      fix pg s1 s2 s'
      assume "kalloc s = Inr (pg, s1)" "pg \<noteq> 0" "mappages r a PGSIZE pg ?perm (s1\<lparr>mem := memset (mem s1) pg 0 4096\<rparr>) = Inr (-1, s2)"
      then show ?thesis using fresh_count(1) [OF i r al at(2)] fc by force
    next
      fix pg s1 s'
      assume k: "kalloc s = Inr (pg, s1)" "pg \<noteq> 0"
        "mappages r a PGSIZE pg ?perm (s1\<lparr>mem := memset (mem s1) pg 0 4096\<rparr>) = Inr (0, s')"
        and inv: "vm_inv s' R ext"
        and pt: "\<And>r' vb. r' \<in> R \<Longrightarrow> pte_of (mem s') r' vb =
           (if r' = r \<and> vpage vb = a then PA2PTE pg OR ?perm OR PTE_V else pte_of (mem s) r' vb)"
      note nx = next_user_page [OF al at(1)] user_page_next_le [OF al at(1)]
      have f: "3 * k \<le> free_count s'"
        using fresh_count(2) [OF i r al at(2) k] Suc.prems(8) missing_le [of "mem s" r a] by simp
      have nv: "\<not> uvalid (mem s') r va" if v: "a + PGSIZE \<le> align_down 12 va" "align_down 12 va < newsz" for va
      proof
        assume u: "uvalid (mem s') r va"
        have "align_down 12 va \<noteq> a" using v(1) nx(2) by (auto simp: word_le_nat_alt)
        moreover have "vpage va = align_down 12 va" using u TRAPFRAME_MAXVA by (intro vpage_low) (auto simp: uvalid_def)
        ultimately have "uvalid (mem s) r va" using u pt [OF r, of va] by (simp add: uvalid_def)
        moreover have "a \<le> align_down 12 va" using nx(3) [of "align_down 12 va"] v(1) by simp
        ultimately show False using Suc.prems(11) [of va] v(2) by simp
      qed
      have "unat newsz \<le> unat (a + PGSIZE) + k * 4096" using Suc.prems(7) nx(2) by simp
      then show ?thesis
        using Suc.IH [OF inv nn r nx(1) nx(4) Suc.prems(6) _ f _ Suc.prems(10) nv, of n'] Suc.prems(9) True k
        unfolding n' uvmalloc_loop_Suc by auto
    qed
  qed
qed

lemma uvmalloc_enough:
  assumes "vm_inv s R ext" "\<And>q. 0 \<le> ext q" "r \<in> R" "oldsz \<le> newsz" "newsz \<le> TRAPFRAME" "flags_ok xperm"
    "\<And>va. oldsz \<le> align_down 12 va \<Longrightarrow> align_down 12 va < newsz \<Longrightarrow> \<not> uvalid (mem s) r va"
    "unat newsz \<le> unat (PGROUNDUP oldsz) + k * 4096" "3 * k \<le> free_count s"
  shows "\<exists>s'. uvmalloc r oldsz newsz xperm s = Inr (newsz, s')"
proof -
  have ol: "oldsz \<le> TRAPFRAME" using assms(4,5) by (rule order_trans)
  note pu = PGROUNDUP_user [OF ol]
  let ?a = "PGROUNDUP oldsz" and ?n = "Suc (unat (newsz div PGSIZE))"
  let ?k = "min k ?n"
  have "?a \<le> align_down 12 va \<longleftrightarrow> oldsz \<le> align_down 12 va" for va by (rule pu(4)) simp
  then have nv: "\<not> uvalid (mem s) r va" if "?a \<le> align_down 12 va" "align_down 12 va < newsz" for va using assms(7) that by blast
  have "unat newsz \<le> unat ?a + ?n * 4096" by (simp add: unat_div_PGSIZE)
  then have "unat newsz \<le> unat ?a + ?k * 4096" using assms(8) by (simp add: min_def)
  moreover have "3 * ?k \<le> free_count s" "?k \<le> ?n" using assms(9) by (auto simp: min_def)
  ultimately have "\<exists>s'. uvmalloc_loop ?n r ?a ?a newsz xperm s = Inr (newsz, s')"
    using alloc_loop_enough [OF assms(1-3) pu(1) pu(3) assms(5) _ _ _ assms(6) nv] by blast
  then show ?thesis
    unfolding uvmalloc_def Let_def using assms(4) by (simp add: not_less [symmetric] del: uvmalloc_loop.simps)
qed

end
