(* ===== verification/Twoprocs.thy ===== *)
theory Twoprocs
  imports Ucopy
begin

unbundle bit_operations_syntax

text \<open>
  A concrete state of the memory that satisfies the invariant of all address spaces: two
  processes that share a copy-on-write page, one of them with a private page, and an
  empty third address space. Statements about the virtual memory are evaluated on it.
\<close>

section \<open>Memory given by its words\<close>

definition words :: "(u64 \<times> u64) list \<Rightarrow> memory" where
  "words ws = foldr (\<lambda>(a, v) m. store64 m a v) ws (\<lambda>_. 0)"

lemma load64_words:
  "\<forall>(a, v) \<in> set ws. align_down 3 a = a \<Longrightarrow> align_down 3 q = q \<Longrightarrow>
   load64 (words ws) q = (case map_of ws q of None \<Rightarrow> 0 | Some v \<Rightarrow> v)"
proof (induction ws)
  case Nil
  then show ?case by (simp add: words_def load64_zero)
next
  case (Cons x ws)
  obtain a v where x: "x = (a, v)" by (cases x)
  have w: "words ((a, v) # ws) = store64 (words ws) a v" by (simp add: words_def)
  show ?case
  proof (cases "q = a")
    case True
    then show ?thesis by (simp add: w x)
  next
    case False
    then show ?thesis using Cons by (simp add: w x load64_store64_other)
  qed
qed

section \<open>A tree with one table at each level\<close>

lemma lone_tree:
  assumes al: "page_aligned r" "page_aligned a" "page_aligned b" and ne: "r \<noteq> 0" "a \<noteq> 0" "b \<noteq> 0" "r \<noteq> a" "r \<noteq> b" "a \<noteq> b"
    and l2: "\<And>i. unat i < 512 \<Longrightarrow> load64 m (slot r i) = (if i = 0 then PA2PTE a OR PTE_V else 0)"
    and l1: "\<And>i. unat i < 512 \<Longrightarrow> load64 m (slot a i) = (if i = 0 then PA2PTE b OR PTE_V else 0)"
  shows "pte_of m r va = (if PX 2 va = 0 \<and> PX 1 va = 0 then load64 m (slot b (PX 0 va)) else 0)"
    "foot m r = {r, a, b}" "wf_tree m r"
proof -
  have v: "PTE_is (PA2PTE x OR PTE_V) PTE_V" "\<not> PTE_is 0 PTE_V" for x
    by (simp_all add: PTE_is_def bit_PA2PTE_low) (simp add: PTE_V_def)
  have p: "PTE2PA (PA2PTE a OR PTE_V) = a" "PTE2PA (PA2PTE b OR PTE_V) = b" using al by (simp_all add: PTE2PA_PA2PTE)
  have p1: "pt_at m r va 1 = (if PX 2 va = 0 then Some a else None)" for va
    using l2 [OF unat_PX [of 2 va]] v p by (simp add: entry_slot Let_def)
  have p2: "pt_at m r va 2 = (if PX 2 va = 0 \<and> PX 1 va = 0 then Some b else None)" for va
  proof -
    have "pt_at m r va (Suc 1) = (case pt_at m r va 1 of None \<Rightarrow> None | Some q \<Rightarrow>
        let e = load64 m (entry q (2 - 1) va) in if PTE_is e PTE_V then Some (PTE2PA e) else None)"
      by (rule pt_at.simps(2))
    also have "\<dots> = (if PX 2 va = 0 \<and> PX 1 va = 0 then Some b else None)"
      unfolding p1 Let_def entry_slot using l1 [OF unat_PX [of 1 va]] v p by auto
    finally show ?thesis by (simp only: Suc_1)
  qed
  show "pte_of m r va = (if PX 2 va = 0 \<and> PX 1 va = 0 then load64 m (slot b (PX 0 va)) else 0)"
    by (simp add: pte_of_def p2 entry_slot)
  have cases2: "d = 0 \<or> d = 1 \<or> d = 2" if "d \<le> 2" for d :: nat using that by linarith
  have iff: "d \<le> 2 \<Longrightarrow> pt_at m r va d = Some q \<longleftrightarrow> d = 0 \<and> q = r \<or> d = 1 \<and> q = a \<and> PX 2 va = 0 \<or>
      d = 2 \<and> q = b \<and> PX 2 va = 0 \<and> PX 1 va = 0" for va d q
    using cases2 [of d] p1 [of va] p2 [of va] by (auto simp del: pt_at.simps(2) split: if_splits)
  have z: "PX l 0 = 0" for l by (simp add: PX_def)
  have "r \<in> foot m r" "a \<in> foot m r" "b \<in> foot m r"
    using pt_at_foot [of m r 0 0 r] pt_at_foot [of m r 0 1 a] pt_at_foot [of m r 0 2 b] iff z by (auto simp del: pt_at.simps)
  moreover have "q \<in> {r, a, b}" if "q \<in> foot m r" for q using that iff by (auto simp: foot_def simp del: pt_at.simps)
  ultimately show "foot m r = {r, a, b}" by blast
  show "wf_tree m r"
    unfolding wf_tree_def using al(1) ne iff by (auto simp: same_path_def less_Suc_eq numeral_2_eq_2 simp del: pt_at.simps)
qed

section \<open>Two processes\<close>

text \<open>Two address spaces with the same copy-on-write page at address 0; the first has a
  private page at address 4096. A third one is empty, and three pages are free.\<close>

abbreviation root1 :: u64 where "root1 \<equiv> 0x87000000"
abbreviation mid1 :: u64 where "mid1 \<equiv> 0x87001000"
abbreviation low1 :: u64 where "low1 \<equiv> 0x87002000"
abbreviation root2 :: u64 where "root2 \<equiv> 0x87010000"
abbreviation mid2 :: u64 where "mid2 \<equiv> 0x87011000"
abbreviation low2 :: u64 where "low2 \<equiv> 0x87012000"
abbreviation root3 :: u64 where "root3 \<equiv> 0x87020000"
abbreviation pg_shared :: u64 where "pg_shared \<equiv> 0x87003000"
abbreviation pg_private :: u64 where "pg_private \<equiv> 0x87004000"
abbreviation pg_free1 :: u64 where "pg_free1 \<equiv> 0x87FFD000"
abbreviation pg_free2 :: u64 where "pg_free2 \<equiv> 0x87FFE000"
abbreviation pg_free3 :: u64 where "pg_free3 \<equiv> 0x87FFF000"

abbreviation shared_pte_val :: u64 where "shared_pte_val \<equiv> 0x21C00D13"
abbreviation private_pte_val :: u64 where "private_pte_val \<equiv> 0x21C01017"

definition two_words :: "(u64 \<times> u64) list" where
  "two_words =
     [(slot root1 0, PA2PTE mid1 OR PTE_V), (slot mid1 0, PA2PTE low1 OR PTE_V),
      (slot low1 0, shared_pte_val), (slot low1 1, private_pte_val),
      (slot root2 0, PA2PTE mid2 OR PTE_V), (slot mid2 0, PA2PTE low2 OR PTE_V),
      (slot low2 0, shared_pte_val),
      (slot pg_free1 0, pg_free2), (slot pg_free2 0, pg_free3)]"

definition two_procs :: kst where
  "two_procs = boot0\<lparr>mem := words two_words, freelist := pg_free1,
     kref := (\<lambda>_. 1)(0x87FFD := 0, 0x87FFE := 0, 0x87FFF := 0, 0x87003 := 2),
     cur := Some 0, procs := (\<lambda>_. proc0\<lparr>pagetable := root1, sz := 0x4000\<rparr>)\<rparr>"

definition two_roots :: "u64 set" where
  "two_roots = {root1, root2, root3}"

definition two_ext :: "u64 \<Rightarrow> int" where
  "two_ext q = (if q \<in> {root1, mid1, low1, root2, mid2, low2, root3, pg_shared, pg_private, pg_free1, pg_free2, pg_free3}
     then 0 else 1)"

lemma two_aligned [simp]:
  "page_aligned root1" "page_aligned mid1" "page_aligned low1" "page_aligned root2" "page_aligned mid2" "page_aligned low2"
  "page_aligned root3" "page_aligned pg_shared" "page_aligned pg_private" "page_aligned pg_free1" "page_aligned pg_free2"
  "page_aligned pg_free3"
  by (simp_all add: page_aligned_def PGSIZE_def)

lemma two_load:
  assumes "page_aligned p" "unat i < 512"
  shows "load64 (words two_words) (slot p i) =
    (if p = root1 \<and> i = 0 then PA2PTE mid1 OR PTE_V
     else if p = mid1 \<and> i = 0 then PA2PTE low1 OR PTE_V
     else if p = low1 \<and> i = 0 then shared_pte_val
     else if p = low1 \<and> i = 1 then private_pte_val
     else if p = root2 \<and> i = 0 then PA2PTE mid2 OR PTE_V
     else if p = mid2 \<and> i = 0 then PA2PTE low2 OR PTE_V
     else if p = low2 \<and> i = 0 then shared_pte_val
     else if p = pg_free1 \<and> i = 0 then pg_free2
     else if p = pg_free2 \<and> i = 0 then pg_free3 else 0)"
proof -
  have a: "\<forall>(a, v) \<in> set two_words. align_down 3 a = a" by (simp add: two_words_def)
  have s: "slot p i = slot q j \<longleftrightarrow> p = q \<and> i = j" if "page_aligned q" "unat j < 512" for q j
    using slot_inj [OF assms(1) that(1) assms(2) that(2)] .
  show ?thesis
    unfolding load64_words [OF a slot_align3 [OF assms(1), of i]] unfolding two_words_def
    by (simp add: s if_distrib [of "case_option _ _"] split del: if_split cong: if_cong)
qed

lemma empty_tree:
  assumes "page_aligned p" "p \<noteq> 0" "\<And>i. unat i < 512 \<Longrightarrow> load64 m (slot p i) = 0"
  shows "pte_of m p va = 0" "foot m p = {p}" "wf_tree m p"
proof -
  have n: "pt_at m p va (Suc d) = None" for va d
    using assms(3) [OF unat_PX] by (induction d) (auto simp: PTE_is_def Let_def entry_slot)
  have iff: "pt_at m p va d = Some q \<longleftrightarrow> d = 0 \<and> q = p" for va d q using n by (cases d) auto
  show "pte_of m p va = 0" using n [of va 1] by (simp add: pte_of_def numeral_2_eq_2)
  show "foot m p = {p}" by (auto simp: foot_def iff)
  show "wf_tree m p" using assms(1,2) by (auto simp: wf_tree_def iff same_path_def)
qed

lemma low_page:
  "PX 2 va = 0 \<and> PX 1 va = 0 \<and> PX 0 va = 0 \<longleftrightarrow> vpage va = 0"
  "PX 2 va = 0 \<and> PX 1 va = 0 \<and> PX 0 va = 1 \<longleftrightarrow> vpage va = 0x1000"
proof -
  have a: "same_page va vb \<longleftrightarrow> PX 2 va = PX 2 vb \<and> PX 1 va = PX 1 vb \<and> PX 0 va = PX 0 vb" for vb
    by (auto simp: same_page_alt same_path_def less_Suc_eq numeral_2_eq_2)
  have z: "PX l 0 = 0" for l by (simp add: PX_def)
  show "PX 2 va = 0 \<and> PX 1 va = 0 \<and> PX 0 va = 0 \<longleftrightarrow> vpage va = 0"
    using a [of 0] same_page_vpage [of va 0] by (simp add: z vpage_def align_down_def)
  have o: "PX 2 0x1000 = 0" "PX 1 0x1000 = 0" "PX 0 0x1000 = 1" by (simp_all add: PX_def PXSHIFT_def PGSHIFT_def PXMASK_def)
  have "vpage 0x1000 = 0x1000" by (simp add: vpage_def align_down_def take_bit_eq_mod)
  then show "PX 2 va = 0 \<and> PX 1 va = 0 \<and> PX 0 va = 1 \<longleftrightarrow> vpage va = 0x1000"
    using a [of "0x1000"] same_page_vpage [of va "0x1000"] unfolding o by simp
qed

lemma two_pte:
  "pte_of (words two_words) root1 va = (if vpage va = 0 then shared_pte_val else if vpage va = 0x1000 then private_pte_val else 0)"
  "pte_of (words two_words) root2 va = (if vpage va = 0 then shared_pte_val else 0)"
  "pte_of (words two_words) root3 va = 0"
  and two_foot: "foot (words two_words) root1 = {root1, mid1, low1}" "foot (words two_words) root2 = {root2, mid2, low2}"
  "foot (words two_words) root3 = {root3}"
  and two_wf: "wf_tree (words two_words) root1" "wf_tree (words two_words) root2" "wf_tree (words two_words) root3"
proof -
  note lp = low_page [of va, symmetric]
  have t1: "page_aligned root1" "page_aligned mid1" "page_aligned low1" "root1 \<noteq> 0" "mid1 \<noteq> 0" "low1 \<noteq> 0"
    "root1 \<noteq> mid1" "root1 \<noteq> low1" "mid1 \<noteq> low1" by simp_all
  have l1: "load64 (words two_words) (slot root1 i) = (if i = 0 then PA2PTE mid1 OR PTE_V else 0)"
    "load64 (words two_words) (slot mid1 i) = (if i = 0 then PA2PTE low1 OR PTE_V else 0)"
    "load64 (words two_words) (slot root2 i) = (if i = 0 then PA2PTE mid2 OR PTE_V else 0)"
    "load64 (words two_words) (slot mid2 i) = (if i = 0 then PA2PTE low2 OR PTE_V else 0)"
    "load64 (words two_words) (slot root3 i) = 0" if "unat i < 512" for i
    using two_load [OF _ that] by simp_all
  note a = lone_tree [OF t1 l1(1,2)]
  have t2: "page_aligned root2" "page_aligned mid2" "page_aligned low2" "root2 \<noteq> 0" "mid2 \<noteq> 0" "low2 \<noteq> 0"
    "root2 \<noteq> mid2" "root2 \<noteq> low2" "mid2 \<noteq> low2" by simp_all
  note b = lone_tree [OF t2 l1(3,4)]
  have "page_aligned root3" "root3 \<noteq> 0" by simp_all
  note c = empty_tree [OF this l1(5)]
  have l0: "load64 (words two_words) (slot low1 (PX 0 va)) = (if PX 0 va = 0 then shared_pte_val else if PX 0 va = 1 then private_pte_val else 0)"
    "load64 (words two_words) (slot low2 (PX 0 va)) = (if PX 0 va = 0 then shared_pte_val else 0)"
    using two_load [OF _ unat_PX [of 0 va]] by simp_all
  show "pte_of (words two_words) root1 va = (if vpage va = 0 then shared_pte_val else if vpage va = 0x1000 then private_pte_val else 0)"
    "pte_of (words two_words) root2 va = (if vpage va = 0 then shared_pte_val else 0)"
    "pte_of (words two_words) root3 va = 0"
    by (simp_all only: a(1) b(1) c(1) l0 lp) auto
  show "foot (words two_words) root1 = {root1, mid1, low1}" "foot (words two_words) root2 = {root2, mid2, low2}"
    "foot (words two_words) root3 = {root3}" by (rule a(2) b(2) c(2), assumption+)+
  show "wf_tree (words two_words) root1" "wf_tree (words two_words) root2" "wf_tree (words two_words) root3" by (rule a(3) b(3) c(3), assumption+)+
qed

lemma two_PTE2PA: "PTE2PA shared_pte_val = pg_shared" "PTE2PA private_pte_val = pg_private"
  by (simp_all add: PTE2PA_def)

lemma two_maps: "maps (words two_words) two_roots q =
   (if q = pg_shared then {(root1, 0), (root2, 0)} else if q = pg_private then {(root1, 0x1000)} else {})"
proof -
  have t: "(0 :: u64) < TRAPFRAME" "(0x1000 :: u64) < TRAPFRAME" by (simp_all add: TRAPFRAME_def TRAMPOLINE_def MAXVA_def PGSIZE_def)
  have v: "vpage 0 = 0" "vpage 0x1000 = 0x1000" by (simp_all add: vpage_def align_down_def take_bit_eq_mod)
  have "(r, va) \<in> maps (words two_words) two_roots q \<longleftrightarrow>
     q = pg_shared \<and> (r = root1 \<or> r = root2) \<and> va = 0 \<or> q = pg_private \<and> r = root1 \<and> va = 0x1000" for r va
    unfolding maps_def two_roots_def using t v by (auto simp: two_pte two_PTE2PA split: if_splits)
  then show ?thesis by (auto split: if_splits)
qed


lemma two_managed: "managed two_procs q \<longleftrightarrow> page_aligned q \<and> 0x80242848 \<le> q \<and> q < PHYSTOP"
  by (simp add: managed_def two_procs_def boot0_def syms0_def)

lemma two_rc:
  assumes "page_aligned q"
  shows "rc two_procs q = (if q = pg_shared then 2 else if q = pg_free1 \<or> q = pg_free2 \<or> q = pg_free3 then 0 else 1)"
proof -
  have i: "q div PGSIZE = j \<longleftrightarrow> q = p" if "p div PGSIZE = j" "page_aligned p" for j p
    using page_index_inj [OF assms that(2)] that(1) by simp
  have "q div PGSIZE = 0x87FFD \<longleftrightarrow> q = pg_free1" "q div PGSIZE = 0x87FFE \<longleftrightarrow> q = pg_free2"
    "q div PGSIZE = 0x87FFF \<longleftrightarrow> q = pg_free3" "q div PGSIZE = 0x87003 \<longleftrightarrow> q = pg_shared"
    by (rule i; simp add: PGSIZE_def)+
  note e = this
  have "kref two_procs = (\<lambda>_. 1)(0x87FFD := 0, 0x87FFE := 0, 0x87FFF := 0, 0x87003 := 2)" by (simp add: two_procs_def)
  then show ?thesis unfolding rc_def by (simp only: fun_upd_apply e) auto
qed

lemma two_kmem_ok: "kmem_ok two_procs"
proof -
  have z: "slot p 0 = p" for p by (simp add: slot_def)
  have l: "load64 (words two_words) pg_free1 = pg_free2" "load64 (words two_words) pg_free2 = pg_free3"
    "load64 (words two_words) pg_free3 = 0"
    using two_load [of pg_free1 0] two_load [of pg_free2 0] two_load [of pg_free3 0] by (simp_all add: z)
  have m: "managed two_procs p" if "p \<in> {pg_free1, pg_free2, pg_free3}" for p
    using that by (auto simp: two_managed PHYSTOP_def KERNBASE_def)
  have "free_pages two_procs [pg_free1, pg_free2, pg_free3]"
    unfolding free_pages_def
  proof (intro conjI allI impI ballI)
    show "fl_chain (mem two_procs) (freelist two_procs) [pg_free1, pg_free2, pg_free3]" by (simp add: two_procs_def l)
    show "distinct [pg_free1, pg_free2, pg_free3]" by simp
    show "managed two_procs p" if "p \<in> set [pg_free1, pg_free2, pg_free3]" for p using m that by simp
    fix p assume "managed two_procs p"
    then have "rc two_procs p = (if p = pg_shared then 2 else if p = pg_free1 \<or> p = pg_free2 \<or> p = pg_free3 then 0 else 1)"
      by (simp only: two_managed two_rc)
    then show "0 \<le> rc two_procs p" "(p \<in> set [pg_free1, pg_free2, pg_free3]) = (rc two_procs p = 0)"
      by simp_all
  qed
  moreover have "0 < sym_end (syms two_procs)" "kmem_unlocked two_procs"
    by (simp_all add: two_procs_def boot0_def syms0_def kmem_unlocked_def)
  ultimately show ?thesis by (auto simp: kmem_ok_def kmem_inv_def)
qed

lemma two_mem: "mem two_procs = words two_words"
  by (simp add: two_procs_def)

lemma two_tree_ok: "r \<in> two_roots \<Longrightarrow> tree_ok two_procs r"
  unfolding tree_ok_def two_roots_def two_mem
  by (auto simp: two_foot two_wf two_rc two_managed PHYSTOP_def KERNBASE_def)

lemma two_counts: "counts_ok two_procs two_roots two_ext"
proof -
  have t: "tables (words two_words) two_roots = {root1, mid1, low1, root2, mid2, low2, root3}"
    by (simp add: tables_def two_roots_def two_foot insert_commute)
  show ?thesis
    unfolding counts_ok_def two_mem two_maps t
    by (auto simp: two_rc two_managed two_ext_def PHYSTOP_def KERNBASE_def)
qed

lemma two_procs_inv: "vm_inv two_procs two_roots two_ext"
proof -
  have "leaves_ok (words two_words) two_roots"
    unfolding leaves_ok_def two_roots_def leaf_ok_def by (auto simp: two_pte MAXVA_def)
  moreover have "isolated (words two_words) two_roots"
    unfolding isolated_def two_maps by (auto simp: two_pte vpage_def align_down_def split: if_splits)
  moreover have "trees_ok two_procs two_roots"
    unfolding trees_ok_def two_mem using two_tree_ok by (auto simp: two_roots_def two_foot)
  ultimately show ?thesis
    unfolding vm_inv_def two_mem [symmetric] using two_kmem_ok two_counts by simp
qed

end
