(* ===== verification/Usafe.thy ===== *)
theory Usafe
  imports Memcount Twoprocs
begin

unbundle bit_operations_syntax

text \<open>
  The contract of the virtual memory system: what each operation does to the memory that
  the processes see.
\<close>

section \<open>Facts on the concrete state\<close>

lemma two_ext_nonneg: "0 \<le> two_ext q"
  by (simp add: two_ext_def)

lemma two_in: "root1 \<in> two_roots" "root2 \<in> two_roots" "root3 \<in> two_roots" "root1 \<noteq> root3"
  by (simp_all add: two_roots_def)

lemma TRAPFRAME_val: "TRAPFRAME = 0x3FFFFFE000"
  by (simp add: TRAPFRAME_def TRAMPOLINE_def MAXVA_def PGSIZE_def)

lemma two_shared: "uperm (mem two_procs) root1 0x10 8" "uperm (mem two_procs) root1 0x10 4"
  "\<not> bit (pte_of (mem two_procs) root1 0x10) 2"
  by (simp_all add: uperm_def uvalid_def two_mem two_pte vpage_def align_down_def TRAPFRAME_val)

lemma two_private: "in_user (mem two_procs) root1 0x1FF8 8 2" "in_user (mem two_procs) root1 0x1FF8 8 4"
proof -
  have u: "uperm (mem two_procs) root1 (0x1FF8 + of_nat j) b" if "j < 8" "b = 2 \<or> b = 4" for j b
  proof -
    have "j = 0 \<or> j = 1 \<or> j = 2 \<or> j = 3 \<or> j = 4 \<or> j = 5 \<or> j = 6 \<or> j = 7" using that(1) by linarith
    then show ?thesis using that(2)
      by (elim disjE) (simp_all add: uperm_def uvalid_def two_mem two_pte vpage_def align_down_def TRAPFRAME_val)
  qed
  show "in_user (mem two_procs) root1 0x1FF8 8 2" "in_user (mem two_procs) root1 0x1FF8 8 4"
    using u by (simp_all add: in_user_def)
qed

lemma two_empty: "uview (mem two_procs) root3 = Map.empty"
  by (simp add: fun_eq_iff uview_def uvalid_def two_mem two_pte)

lemma two_cur: "cur two_procs = Some 0" "pagetable (procs two_procs 0) = root1" "sz (procs two_procs 0) = 0x4000"
  by (simp_all add: two_procs_def)

lemma two_free: "free_count two_procs = 3"
proof -
  have "page_aligned pg_free1" "page_aligned pg_free2" "page_aligned pg_free3"
    by (simp_all add: page_aligned_def PGSIZE_def)
  then have "{q. free_pg two_procs q} = {pg_free1, pg_free2, pg_free3}"
    by (auto simp: free_pg_def two_managed two_rc PHYSTOP_def KERNBASE_def split: if_splits)
  then show ?thesis by (simp add: free_count_def)
qed

lemma two_unmapped: "\<not> uvalid (mem two_procs) root1 0x2008"
  by (simp add: uvalid_def two_mem two_pte vpage_def align_down_def)

section \<open>Copy-on-write\<close>

lemma cow_handler_fails:
  assumes i: "vm_inv s R ext" and r: "r \<in> R" and v: "uperm (mem s) r va 8" and c: "cow_handler r va s = Inr (-1, s')"
  shows "kalloc s = Inr (0, s')"
proof -
  let ?a = "align_down 12 va"
  have uv: "uvalid (mem s) r va" using v by (simp add: uperm_def)
  note um = uvalid_maps [OF r uv]
  have a: "?a < MAXVA" using um(3) align_down_le [of 12 va] by (simp add: word_less_nat_alt)
  have lp: "leaf_ptr (mem s) r ?a \<noteq> 0"
    using leaf_ptr_0_pte [OF tree_okD(1) [OF vm_invD(6) [OF i r]], of ?a] uv um(2) by (auto simp: uvalid_def)
  have ld: "load64 (mem s) (leaf_ptr (mem s) r ?a) = pte_of (mem s) r va" using leaf_ptr_load [OF lp] um(2) by simp
  obtain pg s1 where k: "kalloc s = Inr (pg, s1)" using kmem.alloc_law [OF vm_invD(1) [OF i]] by blast
  have m: "\<not> MAXVA \<le> ?a" using a by (simp add: not_le)
  have b: "PTE_is (pte_of (mem s) r va) PTE_V" "PTE_is (pte_of (mem s) r va) PTE_COW"
    using v by (simp_all add: uperm_def uvalid_def)
  show ?thesis
  proof (cases "pg = 0")
    case True
    then show ?thesis using c lp ld k m b by (simp add: cow_handler_def PGROUNDDOWN_align_down walk_ro)
  next
    case False
    then have "\<exists>p t. cow_handler r va s = andthen (kfree p t) (\<lambda>s. Inr (0, s))"
      using lp ld k m b by (simp add: cow_handler_def PGROUNDDOWN_align_down walk_ro Let_def) blast
    then obtain p t where "andthen (kfree p t) (\<lambda>s. Inr (0, s)) = Inr (-1 :: int, s')" using c by metis
    then show ?thesis by (simp add: res_iff)
  qed
qed


text \<open>C3: \<open>cow_handler\<close> at a copy-on-write address either reports \<open>-1\<close>, which happens only
  when \<open>kalloc\<close> is out of memory, and changes nothing; or it returns 0 with the invariant
  kept, the address now writable and no longer copy-on-write, and the memory seen by every
  address space, the faulting one included, unchanged.\<close>

theorem cow_handler_correct:
  assumes "vm_inv s R ext" "\<forall>q. 0 \<le> ext q" "r \<in> R" "uperm (mem s) r va 8"
  shows "cow_handler r va s = Inr (-1, s) \<and> kalloc s = Inr (0, s) \<or>
    (\<exists>s'. cow_handler r va s = Inr (0, s') \<and> vm_inv s' R ext \<and> writable (mem s') r va \<and>
      (\<forall>r' \<in> R. uview (mem s') r' = uview (mem s) r'))"
proof (rule cow_view [OF assms(1) _ assms(3,4)])
  show "0 \<le> ext q" for q using assms(2) by blast
  assume "cow_handler r va s = Inr (-1, s)"
  then show ?thesis using cow_handler_fails [OF assms(1,3,4)] by blast
qed blast

theorem cow_handler_correct_witness:
  "\<exists>s'. cow_handler root1 0x10 two_procs = Inr (0, s') \<and> vm_inv s' two_roots two_ext \<and> writable (mem s') root1 0x10 \<and>
     uview (mem s') root2 = uview (mem two_procs) root2"
proof -
  have k: "kalloc two_procs \<noteq> Inr (0, two_procs)"
    using kalloc_eq [of two_procs] two_kmem_ok by (simp add: kmem_ok_def) (simp add: two_procs_def)
  show ?thesis
    using cow_handler_correct [OF two_procs_inv _ two_in(1) two_shared(1)] two_ext_nonneg two_in(2) k by blast
qed

text \<open>C4: \<open>uvmcopy\<close> of the first \<open>bytes\<close> bytes into an empty address space terminates with 0
  or, out of memory, with -1, and keeps the invariant and the memory every other address
  space sees. On success the child sees exactly the parent's bytes below the limit, no page
  of either is writable there, and every page that was writable is now copy-on-write in both.\<close>

theorem uvmcopy_correct:
  assumes "vm_inv s R ext" "\<forall>q. 0 \<le> ext q" "old \<in> R" "new \<in> R" "old \<noteq> new" "bytes \<le> TRAPFRAME"
    "uview (mem s) new = Map.empty"
  shows "\<exists>ret s'. uvmcopy old new bytes s = Inr (ret, s') \<and> (ret = 0 \<or> ret = -1) \<and> vm_inv s' R ext \<and>
    (\<forall>r \<in> R. r \<noteq> new \<longrightarrow> uview (mem s') r = uview (mem s) r) \<and>
    (ret = 0 \<longrightarrow> uview (mem s') new = uview (mem s) old |` {va. align_down 12 va < bytes} \<and>
      (\<forall>r \<in> {old, new}. \<forall>va. align_down 12 va < bytes \<longrightarrow> uvalid (mem s') r va \<longrightarrow> \<not> bit (pte_of (mem s') r va) 2) \<and>
      (\<forall>va. uperm (mem s) old va 2 \<longrightarrow> align_down 12 va < bytes \<longrightarrow> uperm (mem s') new va 8 \<and> uperm (mem s') old va 8))"
proof (rule fork_view [OF assms(1) _ assms(3-7)])
  show "0 \<le> ext q" for q using assms(2) by blast
  fix ret s'
  assume f: "uvmcopy old new bytes s = Inr (ret, s')" "ret = 0 \<or> ret = -1" "vm_inv s' R ext"
    "\<And>r. r \<in> R \<Longrightarrow> r \<noteq> new \<Longrightarrow> uview (mem s') r = uview (mem s) r"
    "ret = 0 \<Longrightarrow> uview (mem s') new = uview (mem s) old |` {va. align_down 12 va < bytes}"
    "\<And>r va. ret = 0 \<Longrightarrow> r \<in> {old, new} \<Longrightarrow> align_down 12 va < bytes \<Longrightarrow> uvalid (mem s') r va \<Longrightarrow> \<not> bit (pte_of (mem s') r va) 2"
    "\<And>va. ret = 0 \<Longrightarrow> uperm (mem s) old va 2 \<Longrightarrow> align_down 12 va < bytes \<Longrightarrow> uperm (mem s') new va 8 \<and> uperm (mem s') old va 8"
  show ?thesis by (rule exI [of _ ret], rule exI [of _ s'], intro conjI impI ballI allI f; assumption)
qed

theorem uvmcopy_correct_witness:
  "\<exists>ret s'. uvmcopy root1 root3 0x2000 two_procs = Inr (ret, s') \<and> (ret = 0 \<or> ret = -1) \<and> vm_inv s' two_roots two_ext \<and>
     uview (mem s') root2 = uview (mem two_procs) root2 \<and>
     (ret = 0 \<longrightarrow> uview (mem s') root3 0x1FFF = uview (mem two_procs) root1 0x1FFF)"
proof -
  have b: "(0x2000 :: u64) \<le> TRAPFRAME" by (simp add: TRAPFRAME_val)
  have a: "align_down 12 (0x1FFF :: u64) < 0x2000" by (simp add: align_down_def)
  have "\<forall>q. 0 \<le> two_ext q" using two_ext_nonneg by blast
  from uvmcopy_correct [OF two_procs_inv this two_in(1,3,4) b two_empty] show ?thesis
    by (elim ex_forward) (use two_in(2) a in \<open>simp add: ball_conj_distrib\<close>)
qed

text \<open>C1: isolation after \<open>fork\<close>. \<open>uvmcopy\<close> either fails with -1 or shares the pages of a
  process with a child. Then one of the two, \<open>w\<close>, stores into a page that was writable in
  the parent: \<open>cow_handler\<close> makes the address writable, unless \<open>kalloc\<close> is out of memory, and
  the store changes the memory \<open>w\<close> sees at that one address and nothing that any other
  address space sees: the other one of the pair still reads what the parent had before.\<close>

theorem fork_store_isolated:
  assumes "vm_inv s R ext" "\<forall>q. 0 \<le> ext q" "old \<in> R" "new \<in> R" "old \<noteq> new" "bytes \<le> TRAPFRAME"
    "uview (mem s) new = Map.empty" "w \<in> {old, new}" "uperm (mem s) old va 2" "align_down 12 va < bytes"
  shows "\<exists>ret s1. uvmcopy old new bytes s = Inr (ret, s1) \<and> (ret = -1 \<or> ret = 0 \<and>
    (cow_handler w va s1 = Inr (-1, s1) \<and> kalloc s1 = Inr (0, s1) \<or>
    (\<exists>s2. cow_handler w va s1 = Inr (0, s2) \<and> vm_inv (ustore w va b s2) R ext \<and>
       uview (mem (ustore w va b s2)) w =
         (if w = old then uview (mem s) old else uview (mem s) old |` {va. align_down 12 va < bytes})(va \<mapsto> b) \<and>
       (w = new \<longrightarrow> uview (mem (ustore w va b s2)) old = uview (mem s) old) \<and>
       (w = old \<longrightarrow> uview (mem (ustore w va b s2)) new = uview (mem s) old |` {va. align_down 12 va < bytes}) \<and>
       (\<forall>r \<in> R. r \<noteq> old \<longrightarrow> r \<noteq> new \<longrightarrow> uview (mem (ustore w va b s2)) r = uview (mem s) r))))"
proof -
  have n: "0 \<le> ext q" for q using assms(2) by blast
  have w: "w \<in> R" using assms(3,4,8) by auto
  obtain ret s1 where c: "uvmcopy old new bytes s = Inr (ret, s1)" "ret = 0 \<or> ret = -1" "vm_inv s1 R ext"
    and keep: "\<And>r. r \<in> R \<Longrightarrow> r \<noteq> new \<Longrightarrow> uview (mem s1) r = uview (mem s) r"
    and child: "ret = 0 \<Longrightarrow> uview (mem s1) new = uview (mem s) old |` {va. align_down 12 va < bytes}"
    and cow: "ret = 0 \<Longrightarrow> uperm (mem s1) w va 8"
    by (rule fork_view [OF assms(1) n assms(3-7)]) (use assms(8-10) that in blast)
  show ?thesis
  proof (cases "ret = 0")
    case False
    then show ?thesis using c by blast
  next
    case True
    note cw = cow [OF True]
    show ?thesis
    proof (rule cow_view [OF c(3) n w cw])
      assume "cow_handler w va s1 = Inr (-1, s1)"
      then show ?thesis using cow_handler_fails [OF c(3) w cw] c(1) True by blast
    next
      fix s2 assume s2: "cow_handler w va s1 = Inr (0, s2)" "vm_inv s2 R ext"
        "\<And>r'. r' \<in> R \<Longrightarrow> uview (mem s2) r' = uview (mem s1) r'" "writable (mem s2) w va"
      note st = store_view [OF s2(2) n w s2(4), where b = b]
      have v: "uview (mem (ustore w va b s2)) r = (if r = w then (uview (mem s1) w)(va \<mapsto> b) else uview (mem s1) r)" if "r \<in> R" for r
        using st(2) [OF that] s2(3) [OF that] s2(3) [OF w] by simp
      have "w = old \<or> w = new" using assms(8) by blast
      then show ?thesis using s2(1) st(1) c(1) True v w keep child [OF True] assms(3-5) by auto
    qed
  qed
qed

theorem fork_store_isolated_witness:
  "\<exists>ret s1. uvmcopy root1 root3 0x2000 two_procs = Inr (ret, s1) \<and> (ret = -1 \<or> ret = 0 \<and>
    (kalloc s1 = Inr (0, s1) \<or> (\<exists>s2. cow_handler root3 0x1008 s1 = Inr (0, s2) \<and>
       uview (mem (ustore root3 0x1008 7 s2)) root3 0x1008 = Some 7 \<and>
       uview (mem (ustore root3 0x1008 7 s2)) root1 = uview (mem two_procs) root1)))"
proof -
  have b: "(0x2000 :: u64) \<le> TRAPFRAME" by (simp add: TRAPFRAME_val)
  have a: "align_down 12 (0x1008 :: u64) < 0x2000" by (simp add: align_down_def)
  have u: "uperm (mem two_procs) root1 0x1008 2"
    by (simp add: uperm_def uvalid_def two_mem two_pte vpage_def align_down_def TRAPFRAME_val)
  have n: "\<forall>q. 0 \<le> two_ext q" using two_ext_nonneg by blast
  have w: "root3 \<in> {root1, root3}" by simp
  show ?thesis
    using fork_store_isolated [OF two_procs_inv n two_in(1,3,4) b two_empty w u a, of 7]
    by (elim ex_forward) auto
qed

section \<open>Moving bytes between the kernel and a process\<close>

text \<open>C7: \<open>copyout\<close> to a writable range of an address space returns 0, keeps the invariant,
  and makes exactly the bytes of the range the ones of \<open>src\<close>: every other byte of this and
  of every other address space is as before.\<close>

theorem copyout_correct:
  assumes "vm_inv s R ext" "\<forall>q. 0 \<le> ext q" "r \<in> R" "length src = unat len" "unat dstva + unat len \<le> 2 ^ 38"
    "in_user (mem s) r dstva len 2"
  shows "\<exists>s'. copyout r dstva src len s = Inr (0, s') \<and> vm_inv s' R ext \<and>
    (\<forall>r' \<in> R. \<forall>va. uview (mem s') r' va =
       (if r' = r \<and> in_range va dstva (unat len) then Some (src ! unat (va - dstva)) else uview (mem s) r' va))"
proof (rule copyout_view [OF assms(1) _ assms(3-6)])
  show "0 \<le> ext q" for q using assms(2) by blast
  fix s' assume s': "copyout r dstva src len s = Inr (0, s')" "vm_inv s' R ext"
    "\<And>va. in_range va dstva (unat len) \<Longrightarrow> uview (mem s') r va = Some (src ! unat (va - dstva))"
    "\<And>r' va. r' \<in> R \<Longrightarrow> r' \<noteq> r \<or> \<not> in_range va dstva (unat len) \<Longrightarrow> uview (mem s') r' va = uview (mem s) r' va"
  then show ?thesis by (intro exI [of _ s'] conjI ballI allI) auto
qed

theorem copyout_correct_witness:
  "\<exists>s'. copyout root1 0x1FF8 [1, 2, 3, 4, 5, 6, 7, 8] 8 two_procs = Inr (0, s') \<and>
     uview (mem s') root1 0x1FFF = Some 8 \<and> uview (mem s') root1 0x1FF7 = uview (mem two_procs) root1 0x1FF7"
proof -
  have n: "\<forall>q. 0 \<le> two_ext q" using two_ext_nonneg by blast
  have l: "length [1, 2, 3, 4, 5, 6, 7, 8 :: u8] = unat (8 :: u64)" "unat (0x1FF8 :: u64) + unat (8 :: u64) \<le> 2 ^ 38" by simp_all
  have "in_range 0x1FFF 0x1FF8 8" "\<not> in_range 0x1FF7 0x1FF8 8" by (simp_all add: in_range_def unsigned_minus_1_eq_mask mask_eq_exp_minus_1)
  then show ?thesis
    using copyout_correct [OF two_procs_inv n two_in(1) l two_private(1)] two_in(1) by (elim ex_forward) simp
qed

text \<open>C25: what \<open>copyout\<close> writes to a range \<open>copyin\<close> reads back.\<close>

theorem copyout_copyin_roundtrip:
  assumes "vm_inv s R ext" "\<forall>q. 0 \<le> ext q" "r \<in> R" "length src = unat len" "unat va + unat len \<le> 2 ^ 38"
    "in_user (mem s) r va len 2"
  shows "\<exists>s'. copyout r va src len s = Inr (0, s') \<and> copyin r va len s' = Inr (0, src, s')"
  by (rule copyout_copyin) (use assms in auto)

theorem copyout_copyin_roundtrip_witness:
  "\<exists>s'. copyout root1 0x1FF8 [1, 2, 3, 4, 5, 6, 7, 8] 8 two_procs = Inr (0, s') \<and>
     copyin root1 0x1FF8 8 s' = Inr (0, [1, 2, 3, 4, 5, 6, 7, 8], s')"
  by (rule copyout_copyin_roundtrip [OF two_procs_inv _ two_in(1) _ _ two_private(1)]) (simp_all add: two_ext_nonneg)

text \<open>C26: a system call that writes its result to a page shared since \<open>fork\<close> fails:
  \<open>copyout\<close> returns -1 at a valid user address whose page lacks the write bit, also when
  the page is copy-on-write and a store of the process itself to the same address would
  be resolved by \<open>cow_handler\<close>.\<close>

theorem copyout_cow_fails:
  assumes "vm_inv s R ext" "r \<in> R" "uperm (mem s) r dstva 8" "\<not> bit (pte_of (mem s) r dstva) 2" "0 < len"
  shows "copyout r dstva src len s = Inr (-1, s)"
  by (rule copyout_unwritable [OF assms(1,2) _ assms(4,5)]) (use assms(3) in \<open>simp add: uperm_def\<close>)

theorem copyout_cow_fails_witness:
  "uperm (mem two_procs) root1 0x10 8 \<and> copyout root1 0x10 [42] 1 two_procs = Inr (-1, two_procs)"
  using copyout_cow_fails [OF two_procs_inv two_in(1) two_shared(1,3), of 1 "[42]"] two_shared(1) by simp

text \<open>C27: \<open>copyinstr\<close> reads the string at \<open>srcva\<close>, also when it lies at the end of the mapped memory: with the
  \<open>n\<close> bytes that can be read and are not nul, it delivers them and a nul and returns 0 when a
  nul comes next within the limit \<open>mx\<close>, and returns -1 when the limit or an address that cannot be
  read comes first, whatever is mapped behind it. The state is unchanged.\<close>

theorem copyinstr_correct:
  assumes "vm_inv s R ext" "r \<in> R" "top_private (mem s) r"
  shows "\<exists>n \<le> unat mx. (\<forall>j < n. uperm (mem s) r (srcva + of_nat j) 4 \<and> ubyte (mem s) r (srcva + of_nat j) \<noteq> 0) \<and>
    (n < unat mx \<and> uperm (mem s) r (srcva + of_nat n) 4 \<and> ubyte (mem s) r (srcva + of_nat n) = 0 \<and>
       copyinstr r srcva mx s = Inr (0, ubytes (mem s) r srcva n @ [0], s) \<or>
     (n = unat mx \<or> \<not> uperm (mem s) r (srcva + of_nat n) 4) \<and>
       copyinstr r srcva mx s = Inr (-1, ubytes (mem s) r srcva n, s))"
proof -
  obtain n ended where "ustring (mem s) r srcva (unat mx) n ended"
    "copyinstr r srcva mx s = Inr (if ended then 0 else -1, ubytes (mem s) r srcva n @ (if ended then [0] else []), s)"
    using vm_copyinstr [OF assms, of srcva mx] by blast
  then show ?thesis unfolding ustring_def by (cases ended; intro exI [of _ n]; simp)
qed

text \<open>The two letters of a string and its nul in the last bytes of the last mapped page, read with a limit beyond it, and an
  address that is not mapped.\<close>

theorem copyinstr_correct_witness:
  "\<exists>s'. copyout root1 0x1FFD [104, 105, 0] 3 two_procs = Inr (0, s') \<and>
     copyinstr root1 0x1FFD 128 s' = Inr (0, [104, 105, 0], s') \<and> copyinstr root1 0x2000 128 s' = Inr (-1, [], s')"
proof (rule vm_copyout [OF two_procs_inv two_ext_nonneg two_in(1), where src = "[104, 105, 0]" and len = 3 and dstva = "0x1FFD"])
  show "in_user (mem two_procs) root1 0x1FFD 3 2"
    unfolding in_user_def
  proof (intro allI impI)
    fix j assume "j < unat (3 :: u64)"
    then have "j = 0 \<or> j = 1 \<or> j = 2" by auto
    then show "uperm (mem two_procs) root1 (0x1FFD + of_nat j) 2"
      by (elim disjE) (simp_all add: uperm_def uvalid_def two_mem two_pte vpage_def align_down_def TRAPFRAME_val)
  qed
  fix s' assume s': "copyout root1 0x1FFD [104, 105, 0] 3 two_procs = Inr (0, s')" "vm_inv s' two_roots two_ext"
    and pt: "\<And>r' vb. r' \<in> two_roots \<Longrightarrow> pte_of (mem s') r' vb = pte_of (mem two_procs) r' vb"
    and ub: "\<And>r' vb. r' \<in> two_roots \<Longrightarrow> uvalid (mem two_procs) r' vb \<Longrightarrow> ubyte (mem s') r' vb =
      (if r' = root1 \<and> in_range vb 0x1FFD (unat (3 :: u64)) then [104, 105, 0] ! unat (vb - 0x1FFD) else ubyte (mem two_procs) r' vb)"
  have p: "pte_of (mem s') root1 vb = (if vpage vb = 0 then shared_pte_val else if vpage vb = 0x1000 then private_pte_val else 0)" for vb
    using pt [OF two_in(1)] by (simp add: two_mem two_pte)
  have t: "top_private (mem s') root1"
    unfolding top_private_def
  proof (intro allI impI)
    fix va assume "TRAPFRAME \<le> va" "va < MAXVA"
    then have "vpage va = align_down 12 va" "unat va < unat (align_down 12 va) + 4096"
      using page_offset [of va] unat_plus_if_size [of "align_down 12 va" "va - align_down 12 va"]
      by (simp_all add: vpage_low split: if_splits)
    then have "vpage va \<noteq> 0" "vpage va \<noteq> 0x1000" using \<open>TRAPFRAME \<le> va\<close> by (auto simp: word_le_nat_alt TRAPFRAME_unat)
    then show "\<not> (bit (pte_of (mem s') root1 va) 0 \<and> bit (pte_of (mem s') root1 va) 4)" by (simp add: p)
  qed
  have b: "uperm (mem s') root1 (0x1FFD + of_nat j) 4 \<and> ubyte (mem s') root1 (0x1FFD + of_nat j) = [104, 105, 0] ! j" if "j < 3" for j
  proof -
    have "j = 0 \<or> j = 1 \<or> j = 2" using that by linarith
    then show ?thesis using ub [OF two_in(1), of "0x1FFD + of_nat j"]
      by (auto simp: p two_mem two_pte uperm_def uvalid_def vpage_def align_down_def TRAPFRAME_val in_range_def)
  qed
  have n: "\<not> uperm (mem s') root1 0x2000 4" by (simp add: p uperm_def uvalid_def vpage_def align_down_def)
  obtain k where k: "\<forall>j < k. uperm (mem s') root1 (0x1FFD + of_nat j) 4 \<and> ubyte (mem s') root1 (0x1FFD + of_nat j) \<noteq> 0"
      "ubyte (mem s') root1 (0x1FFD + of_nat k) = 0 \<and> copyinstr root1 0x1FFD 128 s' = Inr (0, ubytes (mem s') root1 0x1FFD k @ [0], s') \<or>
       (k = 128 \<or> \<not> uperm (mem s') root1 (0x1FFD + of_nat k) 4)"
    using copyinstr_correct [OF s'(2) two_in(1) t, of 128 "0x1FFD"] by auto
  have "\<not> 2 < k" using k(1) b [of 2] by force
  moreover have "k \<noteq> 0" using k(2) b [of 0] by (intro notI) auto
  moreover have "k \<noteq> 1" using k(2) b [of 1] by (intro notI) auto
  ultimately have "k = 2" by linarith
  moreover have "ubytes (mem s') root1 0x1FFD 2 = [104, 105]" using b [of 0] b [of 1] by (simp add: ubytes_def upt_rec)
  ultimately have "copyinstr root1 0x1FFD 128 s' = Inr (0, [104, 105, 0], s')" using k(2) b [of 2] by auto
  moreover have "copyinstr root1 0x2000 128 s' = Inr (-1, [], s')"
  proof -
    obtain k where k: "\<forall>j < k. uperm (mem s') root1 (0x2000 + of_nat j) 4"
        "uperm (mem s') root1 (0x2000 + of_nat k) 4 \<or> copyinstr root1 0x2000 128 s' = Inr (-1, ubytes (mem s') root1 0x2000 k, s')"
      using copyinstr_correct [OF s'(2) two_in(1) t, of 128 "0x2000"] by auto
    then have "k = 0" using n by (cases k) auto
    then show ?thesis using k(2) n by (simp add: ubytes_def)
  qed
  ultimately show ?thesis using s'(1) by blast
qed simp_all

section \<open>Growing and shrinking an address space\<close>

text \<open>C28: a fault below the size of the process at an unmapped address maps one writable page of
  zeros there and nothing else when there is a free page for it and for each page
  table that is missing on the way; otherwise, and only then, it returns 0 and leaves every
  address space as it was.\<close>

theorem vmfault_correct:
  assumes "vm_inv s R ext" "\<forall>q. 0 \<le> ext q" "r \<in> R" "cur s = Some p" "pagetable (procs s p) = r"
    "va < sz (procs s p)" "sz (procs s p) \<le> TRAPFRAME" "\<not> uvalid (mem s) r va"
  shows "\<exists>pg s'. vmfault r va s = Inr (pg, s') \<and> vm_inv s' R ext \<and> (pg \<noteq> 0 \<longrightarrow> uperm (mem s') r va 2) \<and>
    (pg = 0 \<longleftrightarrow> free_count s \<le> missing (mem s) r va) \<and>
    (\<forall>r' \<in> R. uview (mem s') r' =
      (\<lambda>vb. if pg \<noteq> 0 \<and> r' = r \<and> align_down 12 vb = align_down 12 va \<and> vb < TRAPFRAME then Some 0 else uview (mem s) r' vb))"
proof (rule fault_view [OF assms(1) _ assms(3-8)])
  note c = vmfault_count [OF assms(1,3-8)]
  show "0 \<le> ext q" for q using assms(2) by blast
  {
    fix s' assume f: "vmfault r va s = Inr (0, s')" "vm_inv s' R ext" "\<And>r'. r' \<in> R \<Longrightarrow> uview (mem s') r' = uview (mem s) r'"
    then show ?thesis using c [OF f(1)] by (intro exI [of _ 0] exI [of _ s']) simp
  next
    fix pg s' assume f: "vmfault r va s = Inr (pg, s')" "pg \<noteq> 0" "vm_inv s' R ext" "uperm (mem s') r va 2"
      "\<And>r'. r' \<in> R \<Longrightarrow> uview (mem s') r' =
         (\<lambda>vb. if r' = r \<and> align_down 12 vb = align_down 12 va \<and> vb < TRAPFRAME then Some 0 else uview (mem s) r' vb)"
    then show ?thesis using c [OF f(1)] by (intro exI [of _ pg] exI [of _ s']) simp
  }
qed

theorem vmfault_correct_witness:
  "\<exists>pg s'. vmfault root1 0x2008 two_procs = Inr (pg, s') \<and> pg \<noteq> 0 \<and> uperm (mem s') root1 0x2008 2 \<and>
     uview (mem s') root1 0x2FFF = Some 0 \<and> uview (mem s') root2 = uview (mem two_procs) root2"
proof -
  have n: "\<forall>q. 0 \<le> two_ext q" using two_ext_nonneg by blast
  have b: "(0x2008 :: u64) < sz (procs two_procs 0)" "sz (procs two_procs 0) \<le> TRAPFRAME" by (simp_all add: two_cur TRAPFRAME_val)
  have "\<not> free_count two_procs \<le> missing (mem two_procs) root1 0x2008"
    using missing_le [of "mem two_procs" root1 "0x2008"] by (simp add: two_free)
  then show ?thesis
    using vmfault_correct [OF two_procs_inv n two_in(1) two_cur(1,2) b two_unmapped] two_in(1,2)
    by (elim ex_forward) (simp add: align_down_def TRAPFRAME_val)
qed

text \<open>C29: \<open>uvmalloc\<close> from \<open>oldsz\<close> to \<open>newsz\<close> either returns \<open>newsz\<close> and adds exactly the pages
  that begin in between, filled with zeros, or returns 0 with every address space as it
  was: the pages added before memory ran out are removed again. It does add them when there are three free
  pages for each of them, one for the page and two for its page tables.\<close>

theorem uvmalloc_correct:
  assumes "vm_inv s R ext" "\<forall>q. 0 \<le> ext q" "r \<in> R" "oldsz \<le> newsz" "newsz \<le> TRAPFRAME" "flags_ok xperm"
    "\<forall>va. oldsz \<le> align_down 12 va \<longrightarrow> align_down 12 va < newsz \<longrightarrow> uview (mem s) r va = None"
  shows "\<exists>ret s'. uvmalloc r oldsz newsz xperm s = Inr (ret, s') \<and> vm_inv s' R ext \<and>
    (ret = newsz \<and> (\<forall>r' \<in> R. uview (mem s') r' =
       (\<lambda>va. if r' = r \<and> oldsz \<le> align_down 12 va \<and> align_down 12 va < newsz \<and> va < TRAPFRAME then Some 0 else uview (mem s) r' va)) \<or>
     ret = 0 \<and> (\<forall>r' \<in> R. uview (mem s') r' = uview (mem s) r')) \<and>
    (\<forall>k. unat newsz \<le> unat (PGROUNDUP oldsz) + k * 4096 \<longrightarrow> 3 * k \<le> free_count s \<longrightarrow> ret = newsz)"
proof -
  have n: "0 \<le> ext q" for q using assms(2) by blast
  have v: "\<not> uvalid (mem s) r va" if "oldsz \<le> align_down 12 va" "align_down 12 va < newsz" for va
    using assms(7) that by (simp add: uview_None)
  have e: "ret = newsz" if "uvmalloc r oldsz newsz xperm s = Inr (ret, s')" "unat newsz \<le> unat (PGROUNDUP oldsz) + k * 4096"
      "3 * k \<le> free_count s" for ret s' k
    using uvmalloc_enough [OF assms(1) n assms(3-6) v that(2,3)] that(1) by auto
  show ?thesis
  proof (rule alloc_view [OF assms(1) n assms(3-6) v])
    fix s' assume "uvmalloc r oldsz newsz xperm s = Inr (newsz, s')" "vm_inv s' R ext"
      "\<And>r'. r' \<in> R \<Longrightarrow> uview (mem s') r' = (\<lambda>va. if r' = r \<and> oldsz \<le> align_down 12 va \<and> align_down 12 va < newsz \<and> va < TRAPFRAME
         then Some 0 else uview (mem s) r' va)"
    then show ?thesis by (intro exI [of _ newsz] exI [of _ s']) simp
  next
    fix s' assume u: "uvmalloc r oldsz newsz xperm s = Inr (0, s')" "vm_inv s' R ext"
      "\<And>r'. r' \<in> R \<Longrightarrow> uview (mem s') r' = uview (mem s) r'"
    then show ?thesis using e [OF u(1)] by (intro exI [of _ 0] exI [of _ s']) simp
  qed
qed

theorem uvmalloc_correct_witness:
  "\<exists>s'. uvmalloc root1 0x1800 0x3000 PTE_W two_procs = Inr (0x3000, s') \<and>
     uview (mem s') root1 0x2123 = Some 0 \<and> uview (mem s') root2 = uview (mem two_procs) root2"
proof -
  have n: "\<forall>q. 0 \<le> two_ext q" using two_ext_nonneg by blast
  have b: "(0x1800 :: u64) \<le> 0x3000" "(0x3000 :: u64) \<le> TRAPFRAME" "flags_ok PTE_W"
    by (simp_all add: TRAPFRAME_val flags_ok_def PTE_W_def)
  have v: "\<forall>va. 0x1800 \<le> align_down 12 va \<longrightarrow> align_down 12 va < 0x3000 \<longrightarrow> uview (mem two_procs) root1 va = None"
  proof (intro allI impI)
    fix va :: u64 assume "0x1800 \<le> align_down 12 va" "align_down 12 va < 0x3000"
    then have "align_down 12 va \<noteq> 0" "align_down 12 va \<noteq> 0x1000" by auto
    moreover have "va < TRAPFRAME \<Longrightarrow> vpage va = align_down 12 va" using TRAPFRAME_MAXVA by (intro vpage_low) simp
    ultimately show "uview (mem two_procs) root1 va = None" by (auto simp: uview_def uvalid_def two_mem two_pte)
  qed
  have "PGROUNDUP 0x1800 = 0x2000" by code_simp
  then have k: "unat (0x3000 :: u64) \<le> unat (PGROUNDUP 0x1800) + 1 * 4096" "3 * 1 \<le> free_count two_procs" by (simp_all add: two_free)
  obtain ret s' where u: "uvmalloc root1 0x1800 0x3000 PTE_W two_procs = Inr (ret, s')"
      "ret = 0x3000 \<and> (\<forall>r' \<in> two_roots. uview (mem s') r' =
         (\<lambda>va. if r' = root1 \<and> 0x1800 \<le> align_down 12 va \<and> align_down 12 va < 0x3000 \<and> va < TRAPFRAME then Some 0
               else uview (mem two_procs) r' va)) \<or> ret = 0"
      "\<forall>k. unat (0x3000 :: u64) \<le> unat (PGROUNDUP 0x1800) + k * 4096 \<longrightarrow> 3 * k \<le> free_count two_procs \<longrightarrow> ret = 0x3000"
    using uvmalloc_correct [OF two_procs_inv n two_in(1) b v] by blast
  have "ret = 0x3000" using u(3) k by blast
  then show ?thesis using u(1,2) two_in(1,2) by (auto simp: align_down_def TRAPFRAME_val)
qed

text \<open>C30: \<open>uvmdealloc\<close> returns the smaller of the two sizes and removes exactly the pages
  that begin between the new and the old size; the pages it frees are no part of what any
  other address space sees, also when they were shared.\<close>

theorem uvmdealloc_correct:
  assumes "vm_inv s R ext" "\<forall>q. 0 \<le> ext q" "r \<in> R" "oldsz \<le> TRAPFRAME"
  shows "\<exists>s'. uvmdealloc r oldsz newsz s = Inr (min oldsz newsz, s') \<and> vm_inv s' R ext \<and>
    (\<forall>r' \<in> R. uview (mem s') r' =
      (\<lambda>va. if r' = r \<and> newsz \<le> align_down 12 va \<and> align_down 12 va < oldsz then None else uview (mem s) r' va))"
proof (rule dealloc_view [OF assms(1) _ assms(3,4), where newsz = newsz])
  show "0 \<le> ext q" for q using assms(2) by blast
  fix s' assume s': "uvmdealloc r oldsz newsz s = Inr (min oldsz newsz, s')" "vm_inv s' R ext"
    "\<And>va. uview (mem s') r va = (if newsz \<le> align_down 12 va \<and> align_down 12 va < oldsz then None else uview (mem s) r va)"
    "\<And>r'. r' \<in> R \<Longrightarrow> r' \<noteq> r \<Longrightarrow> uview (mem s') r' = uview (mem s) r'"
  have "uview (mem s') q va = (if q = r \<and> newsz \<le> align_down 12 va \<and> align_down 12 va < oldsz then None else uview (mem s) q va)"
    if "q \<in> R" for q va using s'(3,4) that by (cases "q = r") auto
  then show ?thesis using s'(1,2) by auto
qed

theorem uvmdealloc_correct_witness:
  "\<exists>s'. uvmdealloc root1 0x2000 0xFFF two_procs = Inr (0xFFF, s') \<and> uview (mem s') root1 0x1008 = None \<and>
     uview (mem s') root1 0x10 = uview (mem two_procs) root1 0x10 \<and> uview (mem s') root2 = uview (mem two_procs) root2"
proof -
  have n: "\<forall>q. 0 \<le> two_ext q" using two_ext_nonneg by blast
  have b: "(0x2000 :: u64) \<le> TRAPFRAME" by (simp add: TRAPFRAME_val)
  show ?thesis
    using uvmdealloc_correct [OF two_procs_inv n two_in(1) b, of "0xFFF"] two_in(1,2)
    by (elim ex_forward) (simp add: align_down_def min_def)
qed

end
