(* ===== verification/Kernel.thy ===== *)
theory Kernel
  imports Vm
begin

unbundle bit_operations_syntax

text \<open>
  The state of the whole kernel: the record of theory \<open>Kstate\<close> extended by the buffer
  cache, the log, the inode, file and pipe tables, the console, the UART and the disk
  driver, with the structs of \<^verbatim>\<open>buf.h\<close>, \<^verbatim>\<open>fs.h\<close>, \<^verbatim>\<open>file.h\<close>,
  \<^verbatim>\<open>pipe.c\<close>, \<^verbatim>\<open>log.c\<close>, \<^verbatim>\<open>console.c\<close> and \<^verbatim>\<open>virtio.h\<close>.

  A function that can sleep takes an environment \<open>env\<close>: \<open>others\<close> is what the other
  threads, the interrupt handlers and the devices do to the shared state between the
  moment this thread gives up the hart and the moment it is scheduled again (it may
  differ at every switch, because \<open>switches\<close> counts them), \<open>mmio\<close> is what a device
  register returns on its \<open>n\<close>-th read, \<open>clock\<close> is the time register, \<open>garbage\<close> is what an
  uninitialized local variable holds, and \<open>patience\<close> bounds the number of times a
  waiting loop is entered: a loop that is still waiting then blocks.
\<close>

section \<open>Structs\<close>

record sleeplock =
  sl_locked :: u32
  sl_pid :: int

text \<open>A sleep lock is named by the object that contains it.\<close>

datatype slid = SBuf nat | SInode nat

record buf =
  valid :: bool
  b_disk :: bool
  b_dev :: u32
  blockno :: u32
  refcnt :: u32
  b_prev :: nat
  b_next :: nat
  bdata :: "u8 list"

record superblock =
  sb_magic :: u32
  sb_size :: u32
  sb_nblocks :: u32
  sb_ninodes :: u32
  sb_nlog :: u32
  sb_logstart :: u32
  sb_inodestart :: u32
  sb_bmapstart :: u32

record logst =
  lg_start :: int
  outstanding :: int
  committing :: bool
  lg_dev :: u32
  lh_n :: int
  lh_block :: "nat \<Rightarrow> u32"

record dinode =
  d_type :: u16
  d_major :: u16
  d_minor :: u16
  d_nlink :: u16
  d_size :: u32
  d_addrs :: "u32 list"

record inode =
  i_dev :: u32
  inum :: u32
  i_ref :: int
  i_valid :: bool
  i_type :: u16
  i_major :: u16
  i_minor :: u16
  nlink :: u16
  i_size :: u32
  addrs :: "u32 list"

datatype fdtype = FD_NONE | FD_PIPE | FD_INODE | FD_DEVICE

record kfile =
  ftype :: fdtype
  f_ref :: int
  readable :: bool
  writable :: bool
  f_pipe :: u64
  f_ip :: nat
  f_off :: u32
  f_major :: u16

record pipe =
  p_data :: "nat \<Rightarrow> u8"
  nread :: u32
  nwrite :: u32
  readopen :: bool
  writeopen :: bool

record cons =
  c_buf :: "nat \<Rightarrow> u8"
  c_r :: u32
  c_w :: u32
  c_e :: u32

record virtq_desc =
  q_addr :: u64
  q_len :: u32
  q_flags :: u16
  q_next :: u16

record virtio_blk_req =
  r_type :: u32
  r_sector :: u64

record vdisk =
  desc :: "nat \<Rightarrow> virtq_desc"
  avail_idx :: u16
  avail_ring :: "nat \<Rightarrow> u16"
  used_ridx :: u16
  used_ring :: "nat \<Rightarrow> u32"
  dfree :: "nat \<Rightarrow> bool"
  used_idx :: u16
  info_b :: "nat \<Rightarrow> nat option"
  info_status :: "nat \<Rightarrow> u8"
  ops :: "nat \<Rightarrow> virtio_blk_req"
  q_desc :: u64
  q_avail :: u64
  q_used :: u64

section \<open>The kernel state\<close>

text \<open>\<open>bufs\<close> at index \<open>NBUF\<close> is \<^verbatim>\<open>bcache.head\<close>; \<open>pipes\<close> is indexed by the address of the
  page that holds the struct; \<open>disk\<close> is the contents of the disk, block by block. Reads
  of device registers are counted by \<open>io_time\<close>, writes are listed in \<open>io_log\<close>, the
  latest first.\<close>

record kernel = kst +
  switches :: nat
  slocks :: "slid \<Rightarrow> sleeplock"
  bufs :: "nat \<Rightarrow> buf"
  disk :: "u32 \<Rightarrow> u8 list"
  sb :: superblock
  lg :: logst
  inodes :: "nat \<Rightarrow> inode"
  files :: "nat \<Rightarrow> kfile"
  pipes :: "u64 \<Rightarrow> pipe"
  cons :: cons
  tx_busy :: bool
  vd :: vdisk
  first_ret :: bool
  io_time :: nat
  io_log :: "(u64 \<times> u32) list"

record env =
  others :: "kernel \<Rightarrow> kernel"
  mmio :: "u64 \<Rightarrow> nat \<Rightarrow> u32"
  clock :: "kernel \<Rightarrow> u64"
  garbage :: "nat \<Rightarrow> u8"
  patience :: nat

definition set_buf :: "nat \<Rightarrow> (buf \<Rightarrow> buf) \<Rightarrow> kernel \<Rightarrow> kernel" where
  "set_buf b f s = s\<lparr>bufs := (bufs s)(b := f (bufs s b))\<rparr>"

definition set_inode :: "nat \<Rightarrow> (inode \<Rightarrow> inode) \<Rightarrow> kernel \<Rightarrow> kernel" where
  "set_inode i f s = s\<lparr>inodes := (inodes s)(i := f (inodes s i))\<rparr>"

definition set_file :: "nat \<Rightarrow> (kfile \<Rightarrow> kfile) \<Rightarrow> kernel \<Rightarrow> kernel" where
  "set_file i f s = s\<lparr>files := (files s)(i := f (files s i))\<rparr>"

definition set_pipe :: "u64 \<Rightarrow> (pipe \<Rightarrow> pipe) \<Rightarrow> kernel \<Rightarrow> kernel" where
  "set_pipe a f s = s\<lparr>pipes := (pipes s)(a := f (pipes s a))\<rparr>"

definition set_lg :: "(logst \<Rightarrow> logst) \<Rightarrow> kernel \<Rightarrow> kernel" where
  "set_lg f s = s\<lparr>lg := f (lg s)\<rparr>"

definition set_vd :: "(vdisk \<Rightarrow> vdisk) \<Rightarrow> kernel \<Rightarrow> kernel" where
  "set_vd f s = s\<lparr>vd := f (vd s)\<rparr>"

section \<open>Device registers\<close>

definition io_read :: "env \<Rightarrow> u64 \<Rightarrow> kernel \<Rightarrow> u32 \<times> kernel" where
  "io_read E a s = (mmio E a (io_time s), s\<lparr>io_time := io_time s + 1\<rparr>)"

definition io_write :: "u64 \<Rightarrow> u32 \<Rightarrow> kernel \<Rightarrow> kernel" where
  "io_write a v s = s\<lparr>io_log := (a, v) # io_log s\<rparr>"

section \<open>Structs as bytes\<close>

text \<open>Little endian fields of an on-disk struct in a byte list.\<close>

primrec bytes_word :: "u8 list \<Rightarrow> 'a::len word" where
  "bytes_word [] = 0"
| "bytes_word (b # bs) = ucast b OR push_bit 8 (bytes_word bs)"

definition word_bytes :: "nat \<Rightarrow> 'a::len word \<Rightarrow> u8 list" where
  "word_bytes n w = map (\<lambda>i. ucast (drop_bit (8 * i) w)) [0..<n]"

definition get16 :: "u8 list \<Rightarrow> nat \<Rightarrow> u16" where
  "get16 bs off = bytes_word (take 2 (drop off bs))"

definition get32 :: "u8 list \<Rightarrow> nat \<Rightarrow> u32" where
  "get32 bs off = bytes_word (take 4 (drop off bs))"

definition get64 :: "u8 list \<Rightarrow> nat \<Rightarrow> u64" where
  "get64 bs off = bytes_word (take 8 (drop off bs))"

definition put_at :: "u8 list \<Rightarrow> nat \<Rightarrow> u8 list \<Rightarrow> u8 list" where
  "put_at bs off xs = take off bs @ xs @ drop (off + length xs) bs"

definition put32 :: "u8 list \<Rightarrow> nat \<Rightarrow> u32 \<Rightarrow> u8 list" where
  "put32 bs off v = put_at bs off (word_bytes 4 v)"

lemma length_word_bytes [simp]: "length (word_bytes n w) = n"
  by (simp add: word_bytes_def)

lemma length_put_at [simp]: "off + length xs \<le> length bs \<Longrightarrow> length (put_at bs off xs) = length bs"
  by (simp add: put_at_def)

lemma length_put32 [simp]: "off + 4 \<le> length bs \<Longrightarrow> length (put32 bs off v) = length bs"
  by (simp add: put32_def)

lemma bit_bytes_word:
  "bit (bytes_word bs :: 'a::len word) i \<longleftrightarrow> i < LENGTH('a) \<and> i < 8 * length bs \<and> bit (bs ! (i div 8)) (i mod 8)"
proof (induction bs arbitrary: i)
  case Nil
  then show ?case by simp
next
  case (Cons b bs)
  show ?case
  proof (cases "i < 8")
    case True
    then show ?thesis by (auto simp: bit_simps dest: bit_imp_le_length)
  next
    case False
    then obtain j where j: "i = j + 8" using le_Suc_ex by (metis add.commute not_less)
    have "(j + 8) div 8 = Suc (j div 8)" by simp
    then show ?thesis using Cons.IH [of j] j by (auto simp: bit_simps dest: bit_imp_le_length)
  qed
qed

text \<open>Reading back the bytes of a word gives the word.\<close>

lemma bytes_word_word_bytes:
  assumes "LENGTH('a::len) = 8 * n"
  shows "bytes_word (word_bytes n (w :: 'a word)) = w"
proof (rule bit_word_eqI)
  fix i assume i: "i < LENGTH('a)"
  have "i div 8 < n" using i assms by (simp add: less_mult_imp_div_less mult.commute)
  moreover have "8 * (i div 8) + i mod 8 = i" by simp
  moreover have "i mod 8 < 8" by simp
  ultimately show "bit (bytes_word (word_bytes n w) :: 'a word) i = bit w i"
    using i assms by (simp add: bit_bytes_word word_bytes_def bit_simps)
qed

lemma get_put_at:
  "off + length xs \<le> length bs \<Longrightarrow> take (length xs) (drop off (put_at bs off xs)) = xs"
  by (simp add: put_at_def)

lemma get_put_at_other:
  assumes "off + length xs \<le> length bs" "o' + n \<le> off \<or> off + length xs \<le> o'"
  shows "take n (drop o' (put_at bs off xs)) = take n (drop o' bs)"
proof (rule nth_equalityI)
  show "length (take n (drop o' (put_at bs off xs))) = length (take n (drop o' bs))" using assms(1) by simp
  fix i assume "i < length (take n (drop o' (put_at bs off xs)))"
  then have i: "i < n" "o' + i < length bs" using assms(1) by auto
  consider "o' + i < off" | "off + length xs \<le> o' + i" using assms(2) i(1) by linarith
  then have "put_at bs off xs ! (o' + i) = bs ! (o' + i)"
    by cases (use assms(1) i in \<open>auto simp: put_at_def nth_append\<close>)
  then show "take n (drop o' (put_at bs off xs)) ! i = take n (drop o' bs) ! i" using i assms(1) by simp
qed

lemma get32_put32 [simp]: "off + 4 \<le> length bs \<Longrightarrow> get32 (put32 bs off v) off = v"
  using get_put_at [of off "word_bytes 4 v" bs] bytes_word_word_bytes [of 4 v]
  by (simp add: get32_def put32_def)

lemma get32_put32_other [simp]:
  "off + 4 \<le> length bs \<Longrightarrow> o' + 4 \<le> off \<or> off + 4 \<le> o' \<Longrightarrow> get32 (put32 bs off v) o' = get32 bs o'"
  using get_put_at_other [of off "word_bytes 4 v" bs o' 4] by (simp add: get32_def put32_def)

end
