(* ===== verification/Proc.thy ===== *)
theory Proc
  imports Kernel
begin

unbundle bit_operations_syntax

text \<open>
  The first half of \<^verbatim>\<open>proc.c\<close>: the process table, the memory of a process, the
  scheduler, \<open>sleep\<close> and \<open>wakeup\<close>, \<open>kill\<close>, and the copy functions that take a user or a
  kernel address. The operations that need the file system (\<open>fork\<close>, \<open>exit\<close>, \<open>wait\<close>,
  \<open>userinit\<close>, \<open>forkret\<close>) are in theory \<open>Fork\<close>.
\<close>

section \<open>The process table\<close>

text \<open>A C \<open>int\<close> result that is out of range wraps.\<close>

definition int32 :: "int \<Rightarrow> int" where
  "int32 x = sint (word_of_int x :: u32)"

primrec mapstacks_loop :: "u64 \<Rightarrow> nat list \<Rightarrow> 'z kst_scheme \<Rightarrow> 'z kst_scheme res" where
  "mapstacks_loop kpt [] s = Inr s"
| "mapstacks_loop kpt (p # ps) s =
     andthen (kalloc s) (\<lambda>(pa, s).
     if pa = 0 then panic ''kalloc''
     else andthen (kvmmap kpt (KSTACK p) pa PGSIZE (PTE_R OR PTE_W) s) (\<lambda>s.
       mapstacks_loop kpt ps s))"

definition proc_mapstacks :: "u64 \<Rightarrow> 'z kst_scheme \<Rightarrow> 'z kst_scheme res" where
  "proc_mapstacks kpt s = mapstacks_loop kpt [0..<NPROC] s"

definition procinit :: "'z kst_scheme \<Rightarrow> 'z kst_scheme" where
  "procinit s =
     s\<lparr>procs := (\<lambda>p. if p < NPROC then (procs s p)\<lparr>state := UNUSED\<rparr> else procs s p)\<rparr>"

definition cpuid :: "'z kst_scheme \<Rightarrow> nat" where
  "cpuid s = hart s"

definition allocpid :: "'z kst_scheme \<Rightarrow> (int \<times> 'z kst_scheme) res" where
  "allocpid s =
     andthen (kacquire Lpid s) (\<lambda>s.
     let i = nextpid s;
         s = s\<lparr>nextpid := int32 (nextpid s + 1)\<rparr>
     in andthen (krelease Lpid s) (\<lambda>s. Inr (i, s)))"

definition proc_pagetable :: "nat \<Rightarrow> 'z kst_scheme \<Rightarrow> (u64 \<times> 'z kst_scheme) res" where
  "proc_pagetable p s =
     andthen (uvmcreate s) (\<lambda>(pt, s).
     if pt = 0 then Inr (0, s)
     else andthen (mappages pt TRAMPOLINE PGSIZE (sym_trampoline (syms s)) (PTE_R OR PTE_X) s) (\<lambda>(r, s).
       if r < 0 then andthen (uvmfree pt 0 s) (\<lambda>s. Inr (0, s))
       else andthen (mappages pt TRAPFRAME PGSIZE (trapframe (procs s p)) (PTE_R OR PTE_W) s) (\<lambda>(r, s).
         if r < 0
         then andthen (uvmunmap pt TRAMPOLINE 1 False s) (\<lambda>s.
              andthen (uvmfree pt 0 s) (\<lambda>s. Inr (0, s)))
         else Inr (pt, s))))"

definition proc_freepagetable :: "u64 \<Rightarrow> u64 \<Rightarrow> 'z kst_scheme \<Rightarrow> 'z kst_scheme res" where
  "proc_freepagetable pt lim s =
     andthen (uvmunmap pt TRAMPOLINE 1 False s) (\<lambda>s.
     andthen (uvmunmap pt TRAPFRAME 1 False s) (\<lambda>s.
     uvmfree pt lim s))"

definition freeproc :: "nat \<Rightarrow> 'z kst_scheme \<Rightarrow> 'z kst_scheme res" where
  "freeproc p s =
     andthen (if trapframe (procs s p) \<noteq> 0 then kfree (trapframe (procs s p)) s else Inr s) (\<lambda>s.
     let s = set_proc p (trapframe_update (\<lambda>_. 0)) s
     in andthen (if kpagetable (procs s p) \<noteq> 0
                 then proc_free_kpagetable (kpagetable (procs s p)) (kstack (procs s p)) s else Inr s) (\<lambda>s.
     let s = set_proc p (kpagetable_update (\<lambda>_. 0)) s
     in andthen (if pagetable (procs s p) \<noteq> 0
                 then proc_freepagetable (pagetable (procs s p)) (sz (procs s p)) s else Inr s) (\<lambda>s.
     Inr (set_proc p (\<lambda>x. x\<lparr>pagetable := 0, sz := 0, pid := 0, parent := None,
            p_name := (p_name x)[0 := 0], p_chan := None, p_killed := 0, xstate := 0,
            state := UNUSED, kstack := 0\<rparr>) s))))"

text \<open>The scan for a free slot, with the lock of the slot held when one is found.\<close>

primrec allocproc_scan :: "nat list \<Rightarrow> 'z kst_scheme \<Rightarrow> (nat option \<times> 'z kst_scheme) res" where
  "allocproc_scan [] s = Inr (None, s)"
| "allocproc_scan (p # ps) s =
     andthen (kacquire (Lproc p) s) (\<lambda>s.
     if state (procs s p) = UNUSED then Inr (Some p, s)
     else andthen (krelease (Lproc p) s) (\<lambda>s. allocproc_scan ps s))"

definition allocproc_fail :: "nat \<Rightarrow> 'z kst_scheme \<Rightarrow> (nat option \<times> 'z kst_scheme) res" where
  "allocproc_fail p s =
     andthen (freeproc p s) (\<lambda>s. andthen (krelease (Lproc p) s) (\<lambda>s. Inr (None, s)))"

definition allocproc_found :: "nat \<Rightarrow> 'z kst_scheme \<Rightarrow> (nat option \<times> 'z kst_scheme) res" where
  "allocproc_found p s =
     andthen (allocpid s) (\<lambda>(i, s).
     let s = set_proc p (\<lambda>x. x\<lparr>pid := i, state := USED, fault_count := 0\<rparr>) s
     in andthen (kalloc s) (\<lambda>(tf, s).
     let s = set_proc p (trapframe_update (\<lambda>_. tf)) s
     in if tf = 0 then allocproc_fail p s
     else andthen (proc_pagetable p s) (\<lambda>(pt, s).
     let s = set_proc p (pagetable_update (\<lambda>_. pt)) s
     in if pt = 0 then allocproc_fail p s
     else andthen (proc_kpagetable s) (\<lambda>(kpt, s).
     let s = set_proc p (kpagetable_update (\<lambda>_. kpt)) s
     in if kpt = 0 then allocproc_fail p s
     else andthen (kalloc s) (\<lambda>(pa, s).
     if pa = 0 then allocproc_fail p s
     else andthen (uvmmap kpt (KSTACK p) pa PGSIZE (PTE_R OR PTE_W) s) (\<lambda>s.
     Inr (Some p, set_proc p (\<lambda>x. x\<lparr>kstack := KSTACK p,
        ctxt := \<lparr>ctx_ra = sym_forkret (syms s), ctx_sp = KSTACK p + PGSIZE, ctx_s = replicate 12 0\<rparr>\<rparr>) s)))))))"

definition allocproc :: "'z kst_scheme \<Rightarrow> (nat option \<times> 'z kst_scheme) res" where
  "allocproc s =
     andthen (allocproc_scan [0..<NPROC] s) (\<lambda>(r, s).
       case r of None \<Rightarrow> Inr (None, s) | Some p \<Rightarrow> allocproc_found p s)"

definition growproc :: "int \<Rightarrow> 'z kst_scheme \<Rightarrow> (int \<times> 'z kst_scheme) res" where
  "growproc n s =
     andthen (my s) (\<lambda>p.
     let lim = sz (procs s p); pt = pagetable (procs s p)
     in if n > 0
        then if lim + word_of_int n > TRAPFRAME then Inr (-1, s)
             else andthen (uvmalloc pt lim (lim + word_of_int n) PTE_W s) (\<lambda>(lim, s).
               if lim = 0 then Inr (-1, s) else Inr (0, set_proc p (sz_update (\<lambda>_. lim)) s))
        else if n < 0
        then andthen (uvmdealloc pt lim (lim + word_of_int n) s) (\<lambda>(lim, s).
               Inr (0, set_proc p (sz_update (\<lambda>_. lim)) s))
        else Inr (0, set_proc p (sz_update (\<lambda>_. lim)) s))"

section \<open>Wakeup and kill\<close>

primrec wakeup_loop :: "chan option \<Rightarrow> nat list \<Rightarrow> 'z kst_scheme \<Rightarrow> 'z kst_scheme res" where
  "wakeup_loop ch [] s = Inr s"
| "wakeup_loop ch (p # ps) s =
     andthen
       (if myproc s \<noteq> Some p
        then andthen (kacquire (Lproc p) s) (\<lambda>s.
             let s = (if state (procs s p) = SLEEPING \<and> p_chan (procs s p) = ch
                      then set_proc p (state_update (\<lambda>_. RUNNABLE)) s else s)
             in krelease (Lproc p) s)
        else Inr s)
       (\<lambda>s. wakeup_loop ch ps s)"

definition wakeup :: "chan option \<Rightarrow> 'z kst_scheme \<Rightarrow> 'z kst_scheme res" where
  "wakeup ch s = wakeup_loop ch [0..<NPROC] s"

primrec reparent_loop :: "nat \<Rightarrow> nat list \<Rightarrow> 'z kst_scheme \<Rightarrow> 'z kst_scheme res" where
  "reparent_loop p [] s = Inr s"
| "reparent_loop p (pp # ps) s =
     (if parent (procs s pp) = Some p
      then andthen (wakeup (map_option ChProc (initproc s)) (set_proc pp (parent_update (\<lambda>_. initproc s)) s))
             (\<lambda>s. reparent_loop p ps s)
      else reparent_loop p ps s)"

definition reparent :: "nat \<Rightarrow> 'z kst_scheme \<Rightarrow> 'z kst_scheme res" where
  "reparent p s = reparent_loop p [0..<NPROC] s"

primrec kkill_loop :: "int \<Rightarrow> nat list \<Rightarrow> 'z kst_scheme \<Rightarrow> (int \<times> 'z kst_scheme) res" where
  "kkill_loop i [] s = Inr (-1, s)"
| "kkill_loop i (p # ps) s =
     andthen (kacquire (Lproc p) s) (\<lambda>s.
     if pid (procs s p) = i
     then let s = set_proc p (p_killed_update (\<lambda>_. 1)) s;
              s = (if state (procs s p) = SLEEPING then set_proc p (state_update (\<lambda>_. RUNNABLE)) s else s)
          in andthen (krelease (Lproc p) s) (\<lambda>s. Inr (0, s))
     else andthen (krelease (Lproc p) s) (\<lambda>s. kkill_loop i ps s))"

definition kkill :: "int \<Rightarrow> 'z kst_scheme \<Rightarrow> (int \<times> 'z kst_scheme) res" where
  "kkill i s = kkill_loop i [0..<NPROC] s"

definition setkilled :: "nat \<Rightarrow> 'z kst_scheme \<Rightarrow> 'z kst_scheme res" where
  "setkilled p s =
     andthen (kacquire (Lproc p) s) (\<lambda>s. krelease (Lproc p) (set_proc p (p_killed_update (\<lambda>_. 1)) s))"

definition killed :: "nat \<Rightarrow> 'z kst_scheme \<Rightarrow> (bool \<times> 'z kst_scheme) res" where
  "killed p s =
     andthen (kacquire (Lproc p) s) (\<lambda>s.
     let k = (p_killed (procs s p) \<noteq> 0)
     in andthen (krelease (Lproc p) s) (\<lambda>s. Inr (k, s)))"

section \<open>The scheduler\<close>

text \<open>\<open>switch_in p\<close> is what the scheduler does before the \<open>swtch\<close> to process \<open>p\<close>, whose
  lock it holds; \<open>switch_out\<close> is what it does after the \<open>swtch\<close> back.\<close>

definition switch_in :: "nat \<Rightarrow> 'z kst_scheme \<Rightarrow> 'z kst_scheme res" where
  "switch_in p s =
     (let s = set_proc p (state_update (\<lambda>_. RUNNING)) s;
          s = s\<lparr>cur := Some p\<rparr>
      in kvm_switch (kpagetable (procs s p)) s)"

definition switch_out :: "'z kst_scheme \<Rightarrow> 'z kst_scheme res" where
  "switch_out s = andthen (kvminithart s) (\<lambda>s. Inr (s\<lparr>cur := None\<rparr>))"

text \<open>One pass over the process table. \<open>run p\<close> is what happens from the \<open>swtch\<close> to \<open>p\<close> up
  to the \<open>swtch\<close> back, which is made with the lock of \<open>p\<close> held (see \<open>sched\<close>).\<close>

primrec scheduler_pass ::
  "(nat \<Rightarrow> 'z kst_scheme \<Rightarrow> 'z kst_scheme) \<Rightarrow> nat list \<Rightarrow> bool \<Rightarrow> 'z kst_scheme \<Rightarrow> (bool \<times> 'z kst_scheme) res" where
  "scheduler_pass run [] found s = Inr (found, s)"
| "scheduler_pass run (p # ps) found s =
     andthen (kacquire (Lproc p) s) (\<lambda>s.
     andthen
       (if state (procs s p) = RUNNABLE
        then andthen (switch_in p s) (\<lambda>s.
             andthen (switch_out (run p s)) (\<lambda>s. Inr (True, s)))
        else Inr (found, s)) (\<lambda>(found, s).
     andthen (krelease (Lproc p) s) (\<lambda>s. scheduler_pass run ps found s)))"

text \<open>The endless loop, cut after \<open>n\<close> rounds; a round that finds nothing waits for an
  interrupt.\<close>

primrec scheduler ::
  "nat \<Rightarrow> (nat \<Rightarrow> 'z kst_scheme \<Rightarrow> 'z kst_scheme) \<Rightarrow> ('z kst_scheme \<Rightarrow> 'z kst_scheme) \<Rightarrow> 'z kst_scheme \<Rightarrow> 'z kst_scheme res" where
  "scheduler 0 run wfi s = Inr (s\<lparr>cur := None\<rparr>)"
| "scheduler (Suc n) run wfi s =
     andthen (scheduler_pass run [0..<NPROC] False (s\<lparr>cur := None, ien := False\<rparr>)) (\<lambda>(found, s).
       scheduler n run wfi (if found then s else wfi s))"

text \<open>\<open>sched\<close> switches to the scheduler and returns when a scheduler has picked the process
  up again: the other threads run in between, and a process they leave asleep never
  returns.\<close>

definition sched :: "env \<Rightarrow> kernel \<Rightarrow> kernel res" where
  "sched E s =
     andthen (my s) (\<lambda>p.
     if \<not> kholding (Lproc p) s then panic ''sched p->lock''
     else if length (held s) \<noteq> 1 then panic ''sched locks''
     else if state (procs s p) = RUNNING then panic ''sched RUNNING''
     else if kintr_get s then panic ''sched interruptible''
     else
       let intena = ien s
       in andthen (switch_out s) (\<lambda>s.
          andthen (krelease (Lproc p) s) (\<lambda>s.
          let s = (others E (s\<lparr>switches := switches s + 1\<rparr>))\<lparr>held := [], cur := None\<rparr>
          in if state (procs s p) \<noteq> RUNNABLE then Inl (Block ''asleep'')
             else andthen (kacquire (Lproc p) s) (\<lambda>s.
                  andthen (switch_in p s) (\<lambda>s. Inr (s\<lparr>ien := intena\<rparr>))))))"

definition yield :: "env \<Rightarrow> kernel \<Rightarrow> kernel res" where
  "yield E s =
     andthen (my s) (\<lambda>p.
     andthen (kacquire (Lproc p) s) (\<lambda>s.
     andthen (sched E (set_proc p (state_update (\<lambda>_. RUNNABLE)) s)) (\<lambda>s.
     krelease (Lproc p) s)))"

definition sleep :: "env \<Rightarrow> chan \<Rightarrow> lockid \<Rightarrow> kernel \<Rightarrow> kernel res" where
  "sleep E ch lk s =
     andthen (my s) (\<lambda>p.
     andthen (kacquire (Lproc p) s) (\<lambda>s.
     andthen (krelease lk s) (\<lambda>s.
     let s = set_proc p (\<lambda>x. x\<lparr>p_chan := Some ch, state := SLEEPING\<rparr>) s
     in andthen (sched E s) (\<lambda>s.
     let s = set_proc p (p_chan_update (\<lambda>_. None)) s
     in andthen (krelease (Lproc p) s) (\<lambda>s. kacquire lk s)))))"

section \<open>Copying to and from user or kernel memory\<close>

text \<open>The pair \<open>(user_dst, dst)\<close> of the code: a user address, a physical address of kernel
  memory, or a local variable of the caller (its bytes so far when it is written, its
  remaining bytes when it is read).\<close>

datatype kaddr = UAddr u64 | PAddr u64 | Local "u8 list"

definition either_copyout :: "kaddr \<Rightarrow> u8 list \<Rightarrow> 'z kst_scheme \<Rightarrow> (int \<times> kaddr \<times> 'z kst_scheme) res" where
  "either_copyout dst src s =
     (case dst of
        UAddr a \<Rightarrow> andthen (my s) (\<lambda>p.
          andthen (copyout (pagetable (procs s p)) a src (of_nat (length src)) s) (\<lambda>(r, s).
          Inr (r, UAddr (a + of_nat (length src)), s)))
      | PAddr a \<Rightarrow> Inr (0, PAddr (a + of_nat (length src)), s\<lparr>mem := put_bytes (mem s) a src\<rparr>)
      | Local bs \<Rightarrow> Inr (0, Local (bs @ src), s))"

definition either_copyin :: "kaddr \<Rightarrow> nat \<Rightarrow> 'z kst_scheme \<Rightarrow> (int \<times> u8 list \<times> kaddr \<times> 'z kst_scheme) res" where
  "either_copyin src n s =
     (case src of
        UAddr a \<Rightarrow> andthen (my s) (\<lambda>p.
          andthen (copyin (pagetable (procs s p)) a (of_nat n) s) (\<lambda>(r, bs, s).
          Inr (r, bs, UAddr (a + of_nat n), s)))
      | PAddr a \<Rightarrow> Inr (0, get_bytes (mem s) a n, PAddr (a + of_nat n), s)
      | Local bs \<Rightarrow> Inr (0, take n bs, Local (drop n bs), s))"

end
