(* ===== verification/Sleeplock.thy ===== *)
theory Sleeplock
  imports Proc
begin

text \<open>
  \<^verbatim>\<open>sleeplock.c\<close>: long-term locks. A process that finds the lock taken sleeps on it and
  tries again when it is woken up.
\<close>

definition sl_lk :: "slid \<Rightarrow> lockid" where
  "sl_lk l = (case l of SBuf b \<Rightarrow> Lbuf b | SInode i \<Rightarrow> Linode i)"

definition sl_chan :: "slid \<Rightarrow> chan" where
  "sl_chan l = (case l of SBuf b \<Rightarrow> ChSleepBuf b | SInode i \<Rightarrow> ChSleepInode i)"

definition set_slock :: "slid \<Rightarrow> sleeplock \<Rightarrow> kernel \<Rightarrow> kernel" where
  "set_slock l v s = s\<lparr>slocks := (slocks s)(l := v)\<rparr>"

definition initsleeplock :: "slid \<Rightarrow> kernel \<Rightarrow> kernel" where
  "initsleeplock l s = set_slock l \<lparr>sl_locked = 0, sl_pid = 0\<rparr> s"

primrec acquiresleep_wait :: "nat \<Rightarrow> env \<Rightarrow> slid \<Rightarrow> kernel \<Rightarrow> kernel res" where
  "acquiresleep_wait 0 E l s = (if sl_locked (slocks s l) \<noteq> 0 then Inl (Block ''acquiresleep'') else Inr s)"
| "acquiresleep_wait (Suc k) E l s =
     (if sl_locked (slocks s l) \<noteq> 0
      then andthen (sleep E (sl_chan l) (sl_lk l) s) (\<lambda>s. acquiresleep_wait k E l s)
      else Inr s)"

definition acquiresleep :: "env \<Rightarrow> slid \<Rightarrow> kernel \<Rightarrow> kernel res" where
  "acquiresleep E l s =
     andthen (kacquire (sl_lk l) s) (\<lambda>s.
     andthen (acquiresleep_wait (patience E) E l s) (\<lambda>s.
     andthen (my s) (\<lambda>p.
     krelease (sl_lk l) (set_slock l \<lparr>sl_locked = 1, sl_pid = pid (procs s p)\<rparr> s))))"

definition releasesleep :: "slid \<Rightarrow> kernel \<Rightarrow> kernel res" where
  "releasesleep l s =
     andthen (kacquire (sl_lk l) s) (\<lambda>s.
     andthen (wakeup (Some (sl_chan l)) (set_slock l \<lparr>sl_locked = 0, sl_pid = 0\<rparr> s)) (\<lambda>s.
     krelease (sl_lk l) s))"

definition holdingsleep :: "slid \<Rightarrow> kernel \<Rightarrow> (bool \<times> kernel) res" where
  "holdingsleep l s =
     andthen (kacquire (sl_lk l) s) (\<lambda>s.
     andthen (my s) (\<lambda>p.
     let r = (sl_locked (slocks s l) \<noteq> 0 \<and> sl_pid (slocks s l) = pid (procs s p))
     in andthen (krelease (sl_lk l) s) (\<lambda>s. Inr (r, s))))"

end
