(* ===== verification/Printf.thy ===== *)
theory Printf
  imports Sleeplock
begin

unbundle bit_operations_syntax

text \<open>
  \<^verbatim>\<open>printf.c\<close> and the part of \<^verbatim>\<open>uart.c\<close> and \<^verbatim>\<open>console.c\<close> under it: a character
  goes to the transmit register once the line status register says the UART is idle.
  A panic stops the machine, so the flags \<open>panicking\<close> and \<open>panicked\<close> are zero in every
  state in which the kernel goes on. Format strings and C strings are byte lists
  without the nul; the variable arguments are a list of \<open>parg\<close>.
\<close>

section \<open>The UART, without interrupts\<close>

definition RHR :: u64 where "RHR = UART0 + 0"
definition THR :: u64 where "THR = UART0 + 0"
definition IER :: u64 where "IER = UART0 + 1"
definition IER_RX_ENABLE :: u32 where "IER_RX_ENABLE = push_bit 0 1"
definition IER_TX_ENABLE :: u32 where "IER_TX_ENABLE = push_bit 1 1"
definition FCR :: u64 where "FCR = UART0 + 2"
definition FCR_FIFO_ENABLE :: u32 where "FCR_FIFO_ENABLE = push_bit 0 1"
definition FCR_FIFO_CLEAR :: u32 where "FCR_FIFO_CLEAR = push_bit 1 3"
definition ISR :: u64 where "ISR = UART0 + 2"
definition LCR :: u64 where "LCR = UART0 + 3"
definition LCR_EIGHT_BITS :: u32 where "LCR_EIGHT_BITS = push_bit 0 3"
definition LCR_BAUD_LATCH :: u32 where "LCR_BAUD_LATCH = push_bit 7 1"
definition LSR :: u64 where "LSR = UART0 + 5"
definition LSR_RX_READY :: u32 where "LSR_RX_READY = push_bit 0 1"
definition LSR_TX_IDLE :: u32 where "LSR_TX_IDLE = push_bit 5 1"

text \<open>A byte written to the transmit register is appended to \<open>out\<close>.\<close>

definition write_thr :: "u8 \<Rightarrow> kernel \<Rightarrow> kernel" where
  "write_thr c s = (io_write THR (ucast c) s)\<lparr>out := out s @ [c]\<rparr>"

primrec tx_wait :: "nat \<Rightarrow> env \<Rightarrow> kernel \<Rightarrow> kernel res" where
  "tx_wait 0 E s = Inl (Block ''uartputc_sync'')"
| "tx_wait (Suc k) E s =
     (case io_read E LSR s of (v, s) \<Rightarrow> if v AND LSR_TX_IDLE = 0 then tx_wait k E s else Inr s)"

definition uartputc_sync :: "env \<Rightarrow> u8 \<Rightarrow> kernel \<Rightarrow> kernel res" where
  "uartputc_sync E c s = andthen (tx_wait (patience E) E s) (\<lambda>s. Inr (write_thr c s))"

section \<open>consputc\<close>

definition BACKSPACE :: int where "BACKSPACE = 0x100"

definition consputc :: "env \<Rightarrow> int \<Rightarrow> kernel \<Rightarrow> kernel res" where
  "consputc E c s =
     (if c = BACKSPACE
      then andthen (uartputc_sync E 8 s) (\<lambda>s.
           andthen (uartputc_sync E 32 s) (\<lambda>s.
           uartputc_sync E 8 s))
      else uartputc_sync E (word_of_int c) s)"

primrec consputs :: "env \<Rightarrow> u8 list \<Rightarrow> kernel \<Rightarrow> kernel res" where
  "consputs E [] s = Inr s"
| "consputs E (c # cs) s = andthen (consputc E (uint c) s) (\<lambda>s. consputs E cs s)"

section \<open>Numbers\<close>

definition bytes_of :: "string \<Rightarrow> u8 list" where
  "bytes_of cs = map of_char cs"

definition digits :: "u8 list" where
  "digits = bytes_of ''0123456789abcdef''"

text \<open>The digits of \<open>x\<close>, the least significant first: the \<open>do\<close> loop. The base is 10 or 16;
  the guard makes the function total.\<close>

function digit_loop :: "nat \<Rightarrow> nat \<Rightarrow> u8 list" where
  "digit_loop base x =
     digits ! (x mod base) # (if base < 2 \<or> x div base = 0 then [] else digit_loop base (x div base))"
  by pat_completeness auto
termination
proof (relation "measure snd")
  fix base x :: nat
  assume "\<not> (base < 2 \<or> x div base = 0)"
  then have "1 < base" "0 < x" by (auto intro: gr0I)
  then show "((base, x div base), (base, x)) \<in> measure snd" by simp
qed simp

text \<open>The contents of \<open>buf\<close> when \<open>printint\<close> starts to print it backwards.\<close>

definition printint_buf :: "int \<Rightarrow> nat \<Rightarrow> bool \<Rightarrow> u8 list" where
  "printint_buf xx base sg =
     (let neg = (sg \<and> xx < 0);
          x = unat (word_of_int (if neg then - xx else xx) :: u64)
      in digit_loop base x @ (if neg then [45] else []))"

definition printint :: "env \<Rightarrow> int \<Rightarrow> nat \<Rightarrow> bool \<Rightarrow> kernel \<Rightarrow> kernel res" where
  "printint E xx base sg s = consputs E (rev (printint_buf xx base sg)) s"

primrec printptr_loop :: "nat \<Rightarrow> env \<Rightarrow> u64 \<Rightarrow> kernel \<Rightarrow> kernel res" where
  "printptr_loop 0 E x s = Inr s"
| "printptr_loop (Suc k) E x s =
     andthen (consputc E (uint (digits ! unat (drop_bit 60 x))) s) (\<lambda>s.
     printptr_loop k E (push_bit 4 x) s)"

definition printptr :: "env \<Rightarrow> u64 \<Rightarrow> kernel \<Rightarrow> kernel res" where
  "printptr E x s =
     andthen (consputc E 48 s) (\<lambda>s. andthen (consputc E 120 s) (\<lambda>s. printptr_loop 16 E x s))"

section \<open>printf\<close>

datatype parg = PInt int | PStr "u8 list option"

text \<open>What a conversion prints: the rest of the format after it, and how the next argument
  is printed.\<close>

datatype conv =
    CInt nat bool nat | CPtr | CChar | CStr | CPercent | CEnd | CUnknown u8

text \<open>\<open>CInt base sign bits\<close>: the argument is an integer of so many bits. The second result
  is the number of format characters the conversion takes after the percent sign.\<close>

definition conv_of :: "u8 list \<Rightarrow> conv \<times> nat" where
  "conv_of rest =
     (let c0 = (if rest = [] then 0 else rest ! 0);
          c1 = (if c0 \<noteq> 0 \<and> 1 < length rest then rest ! 1 else 0);
          c2 = (if c1 \<noteq> 0 \<and> 2 < length rest then rest ! 2 else 0);
          is_d = (\<lambda>c. c = 100); is_l = (\<lambda>c. c = 108); is_u = (\<lambda>c. c = 117); is_x = (\<lambda>c. c = 120)
      in if is_d c0 then (CInt 10 True 32, 1)
         else if is_l c0 \<and> is_d c1 then (CInt 10 True 64, 2)
         else if is_l c0 \<and> is_l c1 \<and> is_d c2 then (CInt 10 True 64, 3)
         else if is_u c0 then (CInt 10 False 32, 1)
         else if is_l c0 \<and> is_u c1 then (CInt 10 False 64, 2)
         else if is_l c0 \<and> is_l c1 \<and> is_u c2 then (CInt 10 False 64, 3)
         else if is_x c0 then (CInt 16 False 32, 1)
         else if is_l c0 \<and> is_x c1 then (CInt 16 False 64, 2)
         else if is_l c0 \<and> is_l c1 \<and> is_x c2 then (CInt 16 False 64, 3)
         else if c0 = 112 then (CPtr, 1)
         else if c0 = 99 then (CChar, 1)
         else if c0 = 115 then (CStr, 1)
         else if c0 = 37 then (CPercent, 1)
         else if c0 = 0 then (CEnd, 0)
         else (CUnknown c0, 1))"

text \<open>An argument read as a signed or unsigned integer of 32 or 64 bits.\<close>

definition va_int :: "nat \<Rightarrow> bool \<Rightarrow> int \<Rightarrow> int" where
  "va_int bits sg i =
     (if bits = 32 then if sg then sint (word_of_int i :: u32) else uint (word_of_int i :: u32)
      else sint (word_of_int i :: u64))"

definition print_conv :: "env \<Rightarrow> conv \<Rightarrow> parg list \<Rightarrow> kernel \<Rightarrow> (parg list \<times> kernel) res" where
  "print_conv E c args s =
     (case (c, args) of
        (CPercent, _) \<Rightarrow> andthen (consputc E 37 s) (\<lambda>s. Inr (args, s))
      | (CUnknown b, _) \<Rightarrow> andthen (consputc E 37 s) (\<lambda>s. andthen (consputc E (uint b) s) (\<lambda>s. Inr (args, s)))
      | (CEnd, _) \<Rightarrow> Inr (args, s)
      | (CInt base sg bits, PInt i # args) \<Rightarrow>
          andthen (printint E (va_int bits sg i) base sg s) (\<lambda>s. Inr (args, s))
      | (CPtr, PInt i # args) \<Rightarrow> andthen (printptr E (word_of_int i) s) (\<lambda>s. Inr (args, s))
      | (CChar, PInt i # args) \<Rightarrow> andthen (consputc E (uint (word_of_int i :: u32)) s) (\<lambda>s. Inr (args, s))
      | (CStr, PStr t # args) \<Rightarrow>
          andthen (consputs E (case t of None \<Rightarrow> bytes_of ''(null)'' | Some t \<Rightarrow> takeWhile (\<lambda>b. b \<noteq> 0) t) s)
            (\<lambda>s. Inr (args, s))
      | _ \<Rightarrow> Inl (Block ''va_arg''))"

function printf_loop :: "env \<Rightarrow> u8 list \<Rightarrow> parg list \<Rightarrow> kernel \<Rightarrow> kernel res" where
  "printf_loop E [] args s = Inr s"
| "printf_loop E (c # fmt) args s =
     (if c = 0 then Inr s
      else if c \<noteq> 37 then andthen (consputc E (uint c) s) (\<lambda>s. printf_loop E fmt args s)
      else case conv_of fmt of (cv, n) \<Rightarrow>
        if cv = CEnd then Inr s
        else andthen (print_conv E cv args s) (\<lambda>(args, s). printf_loop E (drop n fmt) args s))"
  by pat_completeness auto
termination by (relation "measure (\<lambda>(E, fmt, args, s). length fmt)") auto

definition printf :: "env \<Rightarrow> string \<Rightarrow> parg list \<Rightarrow> kernel \<Rightarrow> kernel res" where
  "printf E fmt args s =
     andthen (kacquire Lpr s) (\<lambda>s.
     andthen (printf_loop E (bytes_of fmt) args s) (\<lambda>s.
     krelease Lpr s))"

section \<open>procdump\<close>

definition state_name :: "procstate \<Rightarrow> string" where
  "state_name st =
     (case st of UNUSED \<Rightarrow> ''unused'' | USED \<Rightarrow> ''used'' | SLEEPING \<Rightarrow> ''sleep ''
      | RUNNABLE \<Rightarrow> ''runble'' | RUNNING \<Rightarrow> ''run   '' | ZOMBIE \<Rightarrow> ''zombie'')"

definition newline :: string where "newline = [char_of (10 :: nat)]"
definition tab :: string where "tab = [char_of (9 :: nat)]"

primrec procdump_loop :: "env \<Rightarrow> nat list \<Rightarrow> kernel \<Rightarrow> kernel res" where
  "procdump_loop E [] s = Inr s"
| "procdump_loop E (p # ps) s =
     (if state (procs s p) = UNUSED then procdump_loop E ps s
      else andthen (printf E ''%d %s %s'' [PInt (pid (procs s p)),
               PStr (Some (bytes_of (state_name (state (procs s p))))), PStr (Some (p_name (procs s p)))] s) (\<lambda>s.
           andthen (printf E newline [] s) (\<lambda>s. procdump_loop E ps s)))"

definition procdump :: "env \<Rightarrow> kernel \<Rightarrow> kernel res" where
  "procdump E s = andthen (printf E newline [] s) (\<lambda>s. procdump_loop E [0..<NPROC] s)"

end
