(* ===== verification/Virtio.thy ===== *)
theory Virtio
  imports Printf
begin

unbundle bit_operations_syntax

text \<open>
  \<^verbatim>\<open>virtio_disk.c\<close>: the driver of the disk. The driver's side of the queue (descriptors,
  available ring, bookkeeping) is the field \<open>vd\<close>; the device's side (the used ring, the
  status bytes, the data it moves) changes only through \<open>others\<close>. Addresses of
  driver structs handed to the device name the object: \<open>op_addr\<close>, \<open>data_addr\<close> and
  \<open>status_addr\<close>.
\<close>

section \<open>virtio.h\<close>

definition NUM :: nat where "NUM = 8"
definition VRING_DESC_F_NEXT :: u16 where "VRING_DESC_F_NEXT = 1"
definition VRING_DESC_F_WRITE :: u16 where "VRING_DESC_F_WRITE = 2"
definition VIRTIO_BLK_T_IN :: u32 where "VIRTIO_BLK_T_IN = 0"
definition VIRTIO_BLK_T_OUT :: u32 where "VIRTIO_BLK_T_OUT = 1"

definition VIRTIO_MMIO_MAGIC_VALUE :: u64 where "VIRTIO_MMIO_MAGIC_VALUE = 0x000"
definition VIRTIO_MMIO_VERSION :: u64 where "VIRTIO_MMIO_VERSION = 0x004"
definition VIRTIO_MMIO_DEVICE_ID :: u64 where "VIRTIO_MMIO_DEVICE_ID = 0x008"
definition VIRTIO_MMIO_VENDOR_ID :: u64 where "VIRTIO_MMIO_VENDOR_ID = 0x00c"
definition VIRTIO_MMIO_DEVICE_FEATURES :: u64 where "VIRTIO_MMIO_DEVICE_FEATURES = 0x010"
definition VIRTIO_MMIO_DRIVER_FEATURES :: u64 where "VIRTIO_MMIO_DRIVER_FEATURES = 0x020"
definition VIRTIO_MMIO_QUEUE_SEL :: u64 where "VIRTIO_MMIO_QUEUE_SEL = 0x030"
definition VIRTIO_MMIO_QUEUE_NUM_MAX :: u64 where "VIRTIO_MMIO_QUEUE_NUM_MAX = 0x034"
definition VIRTIO_MMIO_QUEUE_NUM :: u64 where "VIRTIO_MMIO_QUEUE_NUM = 0x038"
definition VIRTIO_MMIO_QUEUE_READY :: u64 where "VIRTIO_MMIO_QUEUE_READY = 0x044"
definition VIRTIO_MMIO_QUEUE_NOTIFY :: u64 where "VIRTIO_MMIO_QUEUE_NOTIFY = 0x050"
definition VIRTIO_MMIO_INTERRUPT_STATUS :: u64 where "VIRTIO_MMIO_INTERRUPT_STATUS = 0x060"
definition VIRTIO_MMIO_INTERRUPT_ACK :: u64 where "VIRTIO_MMIO_INTERRUPT_ACK = 0x064"
definition VIRTIO_MMIO_STATUS :: u64 where "VIRTIO_MMIO_STATUS = 0x070"
definition VIRTIO_MMIO_QUEUE_DESC_LOW :: u64 where "VIRTIO_MMIO_QUEUE_DESC_LOW = 0x080"
definition VIRTIO_MMIO_QUEUE_DESC_HIGH :: u64 where "VIRTIO_MMIO_QUEUE_DESC_HIGH = 0x084"
definition VIRTIO_MMIO_DRIVER_DESC_LOW :: u64 where "VIRTIO_MMIO_DRIVER_DESC_LOW = 0x090"
definition VIRTIO_MMIO_DRIVER_DESC_HIGH :: u64 where "VIRTIO_MMIO_DRIVER_DESC_HIGH = 0x094"
definition VIRTIO_MMIO_DEVICE_DESC_LOW :: u64 where "VIRTIO_MMIO_DEVICE_DESC_LOW = 0x0a0"
definition VIRTIO_MMIO_DEVICE_DESC_HIGH :: u64 where "VIRTIO_MMIO_DEVICE_DESC_HIGH = 0x0a4"

definition VIRTIO_CONFIG_S_ACKNOWLEDGE :: u32 where "VIRTIO_CONFIG_S_ACKNOWLEDGE = 1"
definition VIRTIO_CONFIG_S_DRIVER :: u32 where "VIRTIO_CONFIG_S_DRIVER = 2"
definition VIRTIO_CONFIG_S_DRIVER_OK :: u32 where "VIRTIO_CONFIG_S_DRIVER_OK = 4"
definition VIRTIO_CONFIG_S_FEATURES_OK :: u32 where "VIRTIO_CONFIG_S_FEATURES_OK = 8"

definition VIRTIO_BLK_F_RO :: nat where "VIRTIO_BLK_F_RO = 5"
definition VIRTIO_BLK_F_SCSI :: nat where "VIRTIO_BLK_F_SCSI = 7"
definition VIRTIO_BLK_F_CONFIG_WCE :: nat where "VIRTIO_BLK_F_CONFIG_WCE = 11"
definition VIRTIO_BLK_F_MQ :: nat where "VIRTIO_BLK_F_MQ = 12"
definition VIRTIO_F_ANY_LAYOUT :: nat where "VIRTIO_F_ANY_LAYOUT = 27"
definition VIRTIO_RING_F_INDIRECT_DESC :: nat where "VIRTIO_RING_F_INDIRECT_DESC = 28"
definition VIRTIO_RING_F_EVENT_IDX :: nat where "VIRTIO_RING_F_EVENT_IDX = 29"

definition vreg :: "u64 \<Rightarrow> u64" where "vreg r = VIRTIO0 + r"

text \<open>Addresses of driver data, as the device sees them.\<close>

definition op_addr :: "nat \<Rightarrow> u64" where "op_addr i = of_nat (1024 + i)"
definition data_addr :: "nat \<Rightarrow> u64" where "data_addr b = of_nat (2048 + b)"
definition status_addr :: "nat \<Rightarrow> u64" where "status_addr i = of_nat (4096 + i)"

section \<open>Initialization\<close>

definition virtio_found :: "env \<Rightarrow> kernel \<Rightarrow> bool \<times> kernel" where
  "virtio_found E s =
     (case io_read E (vreg VIRTIO_MMIO_MAGIC_VALUE) s of (a, s) \<Rightarrow>
      if a \<noteq> 0x74726976 then (False, s)
      else case io_read E (vreg VIRTIO_MMIO_VERSION) s of (b, s) \<Rightarrow>
      if b \<noteq> 2 then (False, s)
      else case io_read E (vreg VIRTIO_MMIO_DEVICE_ID) s of (c, s) \<Rightarrow>
      if c \<noteq> 2 then (False, s)
      else case io_read E (vreg VIRTIO_MMIO_VENDOR_ID) s of (d, s) \<Rightarrow>
      (d = 0x554d4551, s))"

definition driver_features :: "u32 \<Rightarrow> u32" where
  "driver_features f =
     unset_bit VIRTIO_RING_F_INDIRECT_DESC (unset_bit VIRTIO_RING_F_EVENT_IDX
     (unset_bit VIRTIO_F_ANY_LAYOUT (unset_bit VIRTIO_BLK_F_MQ (unset_bit VIRTIO_BLK_F_CONFIG_WCE
     (unset_bit VIRTIO_BLK_F_SCSI (unset_bit VIRTIO_BLK_F_RO f))))))"

definition virtio_queue_setup :: "env \<Rightarrow> u32 \<Rightarrow> kernel \<Rightarrow> kernel res" where
  "virtio_queue_setup E status s =
     andthen (kalloc s) (\<lambda>(d, s).
     andthen (kalloc s) (\<lambda>(a, s).
     andthen (kalloc s) (\<lambda>(u, s).
     if d = 0 \<or> a = 0 \<or> u = 0 then panic ''virtio disk kalloc''
     else
       let s = s\<lparr>mem := memset (mem s) d 0 4096\<rparr>;
           s = s\<lparr>mem := memset (mem s) a 0 4096\<rparr>;
           s = s\<lparr>mem := memset (mem s) u 0 4096\<rparr>;
           s = set_vd (\<lambda>v. v\<lparr>q_desc := d, q_avail := a, q_used := u,
                 desc := (\<lambda>_. \<lparr>q_addr = 0, q_len = 0, q_flags = 0, q_next = 0\<rparr>),
                 avail_idx := 0, avail_ring := (\<lambda>_. 0), used_ridx := 0, used_ring := (\<lambda>_. 0)\<rparr>) s;
           s = io_write (vreg VIRTIO_MMIO_QUEUE_NUM) (of_nat NUM) s;
           s = io_write (vreg VIRTIO_MMIO_QUEUE_DESC_LOW) (ucast d) s;
           s = io_write (vreg VIRTIO_MMIO_QUEUE_DESC_HIGH) (ucast (drop_bit 32 d)) s;
           s = io_write (vreg VIRTIO_MMIO_DRIVER_DESC_LOW) (ucast a) s;
           s = io_write (vreg VIRTIO_MMIO_DRIVER_DESC_HIGH) (ucast (drop_bit 32 a)) s;
           s = io_write (vreg VIRTIO_MMIO_DEVICE_DESC_LOW) (ucast u) s;
           s = io_write (vreg VIRTIO_MMIO_DEVICE_DESC_HIGH) (ucast (drop_bit 32 u)) s;
           s = io_write (vreg VIRTIO_MMIO_QUEUE_READY) 1 s;
           s = set_vd (\<lambda>v. v\<lparr>dfree := (\<lambda>i. if i < NUM then True else dfree v i)\<rparr>) s
       in Inr (io_write (vreg VIRTIO_MMIO_STATUS) (status OR VIRTIO_CONFIG_S_DRIVER_OK) s))))"

definition virtio_disk_init :: "env \<Rightarrow> kernel \<Rightarrow> kernel res" where
  "virtio_disk_init E s =
     (case virtio_found E s of (found, s) \<Rightarrow>
      if \<not> found then panic ''could not find virtio disk''
      else
        let status = (0 :: u32);
            s = io_write (vreg VIRTIO_MMIO_STATUS) status s;
            status = status OR VIRTIO_CONFIG_S_ACKNOWLEDGE;
            s = io_write (vreg VIRTIO_MMIO_STATUS) status s;
            status = status OR VIRTIO_CONFIG_S_DRIVER;
            s = io_write (vreg VIRTIO_MMIO_STATUS) status s
        in case io_read E (vreg VIRTIO_MMIO_DEVICE_FEATURES) s of (features, s) \<Rightarrow>
        let s = io_write (vreg VIRTIO_MMIO_DRIVER_FEATURES) (driver_features features) s;
            status = status OR VIRTIO_CONFIG_S_FEATURES_OK;
            s = io_write (vreg VIRTIO_MMIO_STATUS) status s
        in case io_read E (vreg VIRTIO_MMIO_STATUS) s of (status, s) \<Rightarrow>
        if status AND VIRTIO_CONFIG_S_FEATURES_OK = 0 then panic ''virtio disk FEATURES_OK unset''
        else
        let s = io_write (vreg VIRTIO_MMIO_QUEUE_SEL) 0 s
        in case io_read E (vreg VIRTIO_MMIO_QUEUE_READY) s of (ready, s) \<Rightarrow>
        if ready \<noteq> 0 then panic ''virtio disk should not be ready''
        else case io_read E (vreg VIRTIO_MMIO_QUEUE_NUM_MAX) s of (mx, s) \<Rightarrow>
        if mx = 0 then panic ''virtio disk has no queue 0''
        else if mx < of_nat NUM then panic ''virtio disk max queue too short''
        else virtio_queue_setup E status s)"

section \<open>Descriptors\<close>

primrec alloc_desc_scan :: "nat list \<Rightarrow> kernel \<Rightarrow> nat option \<times> kernel" where
  "alloc_desc_scan [] s = (None, s)"
| "alloc_desc_scan (i # is') s =
     (if dfree (vd s) i then (Some i, set_vd (\<lambda>v. v\<lparr>dfree := (dfree v)(i := False)\<rparr>) s)
      else alloc_desc_scan is' s)"

definition alloc_desc :: "kernel \<Rightarrow> nat option \<times> kernel" where
  "alloc_desc s = alloc_desc_scan [0..<NUM] s"

definition free_desc :: "nat \<Rightarrow> kernel \<Rightarrow> kernel res" where
  "free_desc i s =
     (if i \<ge> NUM then panic ''free_desc 1''
      else if dfree (vd s) i then panic ''free_desc 2''
      else wakeup (Some ChVfree)
        (set_vd (\<lambda>v. v\<lparr>desc := (desc v)(i := \<lparr>q_addr = 0, q_len = 0, q_flags = 0, q_next = 0\<rparr>),
                       dfree := (dfree v)(i := True)\<rparr>) s))"

primrec free_chain_loop :: "nat \<Rightarrow> nat \<Rightarrow> kernel \<Rightarrow> kernel res" where
  "free_chain_loop 0 i s = Inl (Block ''free_chain'')"
| "free_chain_loop (Suc k) i s =
     (let flag = q_flags (desc (vd s) i); nxt = unat (q_next (desc (vd s) i))
      in andthen (free_desc i s) (\<lambda>s.
         if flag AND VRING_DESC_F_NEXT \<noteq> 0 then free_chain_loop k nxt s else Inr s))"

text \<open>A chain that revisits a descriptor panics in \<open>free_desc\<close>, so \<open>NUM + 1\<close> rounds are
  enough.\<close>

definition free_chain :: "nat \<Rightarrow> kernel \<Rightarrow> kernel res" where
  "free_chain i s = free_chain_loop (NUM + 1) i s"

primrec free_descs :: "nat list \<Rightarrow> kernel \<Rightarrow> kernel res" where
  "free_descs [] s = Inr s"
| "free_descs (j # js) s = andthen (free_desc j s) (\<lambda>s. free_descs js s)"

primrec alloc3_loop :: "nat \<Rightarrow> nat list \<Rightarrow> kernel \<Rightarrow> (nat list option \<times> kernel) res" where
  "alloc3_loop 0 idx s = Inr (Some idx, s)"
| "alloc3_loop (Suc k) idx s =
     (case alloc_desc s of
        (None, s) \<Rightarrow> andthen (free_descs idx s) (\<lambda>s. Inr (None, s))
      | (Some i, s) \<Rightarrow> alloc3_loop k (idx @ [i]) s)"

definition alloc3_desc :: "kernel \<Rightarrow> (nat list option \<times> kernel) res" where
  "alloc3_desc s = alloc3_loop 3 [] s"

section \<open>Requests\<close>

primrec alloc3_wait :: "nat \<Rightarrow> env \<Rightarrow> kernel \<Rightarrow> (nat list \<times> kernel) res" where
  "alloc3_wait 0 E s = Inl (Block ''virtio_disk_rw'')"
| "alloc3_wait (Suc k) E s =
     andthen (alloc3_desc s) (\<lambda>(r, s).
     case r of Some idx \<Rightarrow> Inr (idx, s)
     | None \<Rightarrow> andthen (sleep E ChVfree Lvdisk s) (\<lambda>s. alloc3_wait k E s))"

definition submit :: "nat \<Rightarrow> bool \<Rightarrow> nat \<Rightarrow> nat \<Rightarrow> nat \<Rightarrow> kernel \<Rightarrow> kernel" where
  "submit b write i0 i1 i2 s =
     (let sector = ucast (blockno (bufs s b) * 2);
          req = \<lparr>r_type = (if write then VIRTIO_BLK_T_OUT else VIRTIO_BLK_T_IN), r_sector = sector\<rparr>;
          s = set_vd (\<lambda>v. v\<lparr>ops := (ops v)(i0 := req)\<rparr>) s;
          d0 = \<lparr>q_addr = op_addr i0, q_len = 16, q_flags = VRING_DESC_F_NEXT, q_next = of_nat i1\<rparr>;
          d1 = \<lparr>q_addr = data_addr b, q_len = 1024,
                q_flags = (if write then 0 else VRING_DESC_F_WRITE) OR VRING_DESC_F_NEXT, q_next = of_nat i2\<rparr>;
          d2 = \<lparr>q_addr = status_addr i0, q_len = 1, q_flags = VRING_DESC_F_WRITE, q_next = 0\<rparr>;
          s = set_vd (\<lambda>v. v\<lparr>desc := (desc v)(i0 := d0, i1 := d1, i2 := d2),
                            info_status := (info_status v)(i0 := 0xff)\<rparr>) s;
          s = set_buf b (b_disk_update (\<lambda>_. True)) s;
          s = set_vd (\<lambda>v. v\<lparr>info_b := (info_b v)(i0 := Some b)\<rparr>) s;
          s = set_vd (\<lambda>v. v\<lparr>avail_ring := (avail_ring v)(unat (avail_idx v) mod NUM := of_nat i0)\<rparr>) s;
          s = set_vd (\<lambda>v. v\<lparr>avail_idx := avail_idx v + 1\<rparr>) s
      in io_write (vreg VIRTIO_MMIO_QUEUE_NOTIFY) 0 s)"

primrec disk_wait :: "nat \<Rightarrow> env \<Rightarrow> nat \<Rightarrow> kernel \<Rightarrow> kernel res" where
  "disk_wait 0 E b s = (if b_disk (bufs s b) then Inl (Block ''virtio_disk_rw'') else Inr s)"
| "disk_wait (Suc k) E b s =
     (if b_disk (bufs s b)
      then andthen (sleep E (ChBuf b) Lvdisk s) (\<lambda>s. disk_wait k E b s)
      else Inr s)"

definition virtio_disk_rw :: "env \<Rightarrow> nat \<Rightarrow> bool \<Rightarrow> kernel \<Rightarrow> kernel res" where
  "virtio_disk_rw E b write s =
     andthen (kacquire Lvdisk s) (\<lambda>s.
     andthen (alloc3_wait (patience E) E s) (\<lambda>(idx, s).
     let s = submit b write (idx ! 0) (idx ! 1) (idx ! 2) s
     in andthen (disk_wait (patience E) E b s) (\<lambda>s.
     let s = set_vd (\<lambda>v. v\<lparr>info_b := (info_b v)(idx ! 0 := None)\<rparr>) s
     in andthen (free_chain (idx ! 0) s) (\<lambda>s. krelease Lvdisk s))))"

section \<open>Interrupts\<close>

text \<open>At most \<open>2 ^ 16\<close> entries can lie between the two indices.\<close>

primrec intr_loop :: "nat \<Rightarrow> kernel \<Rightarrow> kernel res" where
  "intr_loop 0 s = (if used_idx (vd s) \<noteq> used_ridx (vd s) then Inl (Block ''virtio_disk_intr'') else Inr s)"
| "intr_loop (Suc k) s =
     (if used_idx (vd s) \<noteq> used_ridx (vd s)
      then
        let i = unat (used_ring (vd s) (unat (used_idx (vd s)) mod NUM))
        in if i \<ge> NUM then Inl (Block ''info out of range'')
        else if info_status (vd s) i \<noteq> 0 then panic ''virtio_disk_intr status''
        else case info_b (vd s) i of
          None \<Rightarrow> Inl (Block ''null buf'')
        | Some b \<Rightarrow>
            andthen (wakeup (Some (ChBuf b)) (set_buf b (b_disk_update (\<lambda>_. False)) s)) (\<lambda>s.
            intr_loop k (set_vd (\<lambda>v. v\<lparr>used_idx := used_idx v + 1\<rparr>) s))
      else Inr s)"

definition virtio_disk_intr :: "env \<Rightarrow> kernel \<Rightarrow> kernel res" where
  "virtio_disk_intr E s =
     andthen (kacquire Lvdisk s) (\<lambda>s.
     case io_read E (vreg VIRTIO_MMIO_INTERRUPT_STATUS) s of (st, s) \<Rightarrow>
     andthen (intr_loop (2 ^ 16) (io_write (vreg VIRTIO_MMIO_INTERRUPT_ACK) (st AND 3) s)) (\<lambda>s.
     krelease Lvdisk s))"

end
