(* ===== verification/Bio.thy ===== *)
theory Bio
  imports Virtio
begin

text \<open>
  \<^verbatim>\<open>bio.c\<close>: the buffer cache. The buffers are linked through \<open>b_prev\<close> and \<open>b_next\<close> in a
  ring with \<open>bcache.head\<close>, which is buffer number \<open>NBUF\<close>, from the most to the least
  recently used.
\<close>

definition BSIZE :: nat where "BSIZE = 1024"

abbreviation bhead :: nat where
  "bhead \<equiv> NBUF"

text \<open>Link buffer \<open>b\<close> behind the head, as \<open>binit\<close> and \<open>brelse\<close> do.\<close>

definition link_front :: "nat \<Rightarrow> kernel \<Rightarrow> kernel" where
  "link_front b s =
     (let s = set_buf b (b_next_update (\<lambda>_. b_next (bufs s bhead))) s;
          s = set_buf b (b_prev_update (\<lambda>_. bhead)) s;
          s = set_buf (b_next (bufs s bhead)) (b_prev_update (\<lambda>_. b)) s
      in set_buf bhead (b_next_update (\<lambda>_. b)) s)"

definition unlink_buf :: "nat \<Rightarrow> kernel \<Rightarrow> kernel" where
  "unlink_buf b s =
     (let s = set_buf (b_next (bufs s b)) (b_prev_update (\<lambda>_. b_prev (bufs s b))) s
      in set_buf (b_prev (bufs s b)) (b_next_update (\<lambda>_. b_next (bufs s b))) s)"

primrec binit_loop :: "nat list \<Rightarrow> kernel \<Rightarrow> kernel" where
  "binit_loop [] s = s"
| "binit_loop (b # bs) s = binit_loop bs (initsleeplock (SBuf b) (link_front b s))"

definition binit :: "kernel \<Rightarrow> kernel" where
  "binit s = binit_loop [0..<NBUF] (set_buf bhead (\<lambda>h. h\<lparr>b_prev := bhead, b_next := bhead\<rparr>) s)"

text \<open>The two searches of \<open>bget\<close>, along \<open>next\<close> for the block and along \<open>prev\<close> for an unused
  buffer.\<close>

primrec find_block :: "nat \<Rightarrow> u32 \<Rightarrow> u32 \<Rightarrow> nat \<Rightarrow> kernel \<Rightarrow> nat option res" where
  "find_block 0 dev bno b s = Inl (Block ''bget'')"
| "find_block (Suc k) dev bno b s =
     (if b = bhead then Inr None
      else if b_dev (bufs s b) = dev \<and> blockno (bufs s b) = bno then Inr (Some b)
      else find_block k dev bno (b_next (bufs s b)) s)"

primrec find_unused :: "nat \<Rightarrow> nat \<Rightarrow> kernel \<Rightarrow> nat option res" where
  "find_unused 0 b s = Inl (Block ''bget'')"
| "find_unused (Suc k) b s =
     (if b = bhead then Inr None
      else if refcnt (bufs s b) = 0 then Inr (Some b)
      else find_unused k (b_prev (bufs s b)) s)"

definition bget :: "env \<Rightarrow> u32 \<Rightarrow> u32 \<Rightarrow> kernel \<Rightarrow> (nat \<times> kernel) res" where
  "bget E dev bno s =
     andthen (kacquire Lbcache s) (\<lambda>s.
     andthen (find_block (NBUF + 1) dev bno (b_next (bufs s bhead)) s) (\<lambda>r.
     case r of
       Some b \<Rightarrow>
         andthen (krelease Lbcache (set_buf b (\<lambda>x. x\<lparr>refcnt := refcnt x + 1\<rparr>) s)) (\<lambda>s.
         andthen (acquiresleep E (SBuf b) s) (\<lambda>s. Inr (b, s)))
     | None \<Rightarrow>
         andthen (find_unused (NBUF + 1) (b_prev (bufs s bhead)) s) (\<lambda>r.
         case r of
           Some b \<Rightarrow>
             andthen (krelease Lbcache
               (set_buf b (\<lambda>x. x\<lparr>b_dev := dev, blockno := bno, valid := False, refcnt := 1\<rparr>) s)) (\<lambda>s.
             andthen (acquiresleep E (SBuf b) s) (\<lambda>s. Inr (b, s)))
         | None \<Rightarrow> panic ''bget: no buffers'')))"

definition bread :: "env \<Rightarrow> u32 \<Rightarrow> u32 \<Rightarrow> kernel \<Rightarrow> (nat \<times> kernel) res" where
  "bread E dev bno s =
     andthen (bget E dev bno s) (\<lambda>(b, s).
     if \<not> valid (bufs s b)
     then andthen (virtio_disk_rw E b False s) (\<lambda>s. Inr (b, set_buf b (valid_update (\<lambda>_. True)) s))
     else Inr (b, s))"

definition bwrite :: "env \<Rightarrow> nat \<Rightarrow> kernel \<Rightarrow> kernel res" where
  "bwrite E b s =
     andthen (holdingsleep (SBuf b) s) (\<lambda>(h, s).
     if \<not> h then panic ''bwrite'' else virtio_disk_rw E b True s)"

definition brelse :: "nat \<Rightarrow> kernel \<Rightarrow> kernel res" where
  "brelse b s =
     andthen (holdingsleep (SBuf b) s) (\<lambda>(h, s).
     if \<not> h then panic ''brelse''
     else andthen (releasesleep (SBuf b) s) (\<lambda>s.
          andthen (kacquire Lbcache s) (\<lambda>s.
          let s = set_buf b (\<lambda>x. x\<lparr>refcnt := refcnt x - 1\<rparr>) s;
              s = (if refcnt (bufs s b) = 0 then link_front b (unlink_buf b s) else s)
          in krelease Lbcache s)))"

definition bpin :: "nat \<Rightarrow> kernel \<Rightarrow> kernel res" where
  "bpin b s =
     andthen (kacquire Lbcache s) (\<lambda>s. krelease Lbcache (set_buf b (\<lambda>x. x\<lparr>refcnt := refcnt x + 1\<rparr>) s))"

definition bunpin :: "nat \<Rightarrow> kernel \<Rightarrow> kernel res" where
  "bunpin b s =
     andthen (kacquire Lbcache s) (\<lambda>s. krelease Lbcache (set_buf b (\<lambda>x. x\<lparr>refcnt := refcnt x - 1\<rparr>) s))"

end
