(* ===== verification/Log.thy ===== *)
theory Log
  imports Bio
begin

text \<open>
  \<^verbatim>\<open>log.c\<close>: the write-ahead log. The in-memory header is \<open>lh_n\<close> and \<open>lh_block\<close>; on disk
  it is the block \<open>lg_start\<close> and the logged blocks follow it. \<^verbatim>\<open>struct logheader\<close> has
  \<open>LOGBLOCKS\<close> entries: an access beyond them leaves the array, which the model reports
  as a stop.
\<close>

definition set_data :: "nat \<Rightarrow> u8 list \<Rightarrow> kernel \<Rightarrow> kernel" where
  "set_data b d s = set_buf b (bdata_update (\<lambda>_. d)) s"

definition lblock :: "int \<Rightarrow> u32" where
  "lblock i = word_of_int i"

text \<open>\<open>LOGBLOCKS + 1\<close> rounds are enough for the loops over the header: the next one would
  leave the array.\<close>

primrec install_loop :: "nat \<Rightarrow> env \<Rightarrow> bool \<Rightarrow> nat \<Rightarrow> kernel \<Rightarrow> kernel res" where
  "install_loop 0 E recovering t s = Inl (Block ''install_trans'')"
| "install_loop (Suc k) E recovering t s =
     (if \<not> int t < lh_n (lg s) then Inr s
      else if t \<ge> LOGBLOCKS then Inl (Block ''lh.block'')
      else andthen
        (if recovering
         then printf E (''recovering tail %d dst %d'' @ newline) [PInt (int t), PInt (sint (lh_block (lg s) t))] s
         else Inr s) (\<lambda>s.
      andthen (bread E (lg_dev (lg s)) (lblock (lg_start (lg s) + int t + 1)) s) (\<lambda>(lbuf, s).
      andthen (bread E (lg_dev (lg s)) (lh_block (lg s) t) s) (\<lambda>(dbuf, s).
      andthen (bwrite E dbuf (set_data dbuf (bdata (bufs s lbuf)) s)) (\<lambda>s.
      andthen (if recovering then Inr s else bunpin dbuf s) (\<lambda>s.
      andthen (brelse lbuf s) (\<lambda>s.
      andthen (brelse dbuf s) (\<lambda>s.
      install_loop k E recovering (t + 1) s))))))))"

definition install_trans :: "env \<Rightarrow> bool \<Rightarrow> kernel \<Rightarrow> kernel res" where
  "install_trans E recovering s = install_loop (LOGBLOCKS + 1) E recovering 0 s"

text \<open>The header block: the count, then the block numbers.\<close>

primrec read_head_loop :: "u8 list \<Rightarrow> nat list \<Rightarrow> kernel \<Rightarrow> kernel res" where
  "read_head_loop d [] s = Inr s"
| "read_head_loop d (i # ns) s =
     (if i \<ge> LOGBLOCKS then Inl (Block ''lh.block'')
      else read_head_loop d ns (set_lg (\<lambda>l. l\<lparr>lh_block := (lh_block l)(i := get32 d (4 + 4 * i))\<rparr>) s))"

definition read_head :: "env \<Rightarrow> kernel \<Rightarrow> kernel res" where
  "read_head E s =
     andthen (bread E (lg_dev (lg s)) (lblock (lg_start (lg s))) s) (\<lambda>(b, s).
     let d = bdata (bufs s b);
         s = set_lg (lh_n_update (\<lambda>_. sint (get32 d 0))) s
     in andthen (read_head_loop d [0..<nat (lh_n (lg s))] s) (\<lambda>s. brelse b s))"

primrec write_head_loop :: "nat \<Rightarrow> nat list \<Rightarrow> kernel \<Rightarrow> kernel res" where
  "write_head_loop b [] s = Inr s"
| "write_head_loop b (i # ns) s =
     (if i \<ge> LOGBLOCKS then Inl (Block ''lh.block'')
      else write_head_loop b ns (set_data b (put32 (bdata (bufs s b)) (4 + 4 * i) (lh_block (lg s) i)) s))"

definition write_head :: "env \<Rightarrow> kernel \<Rightarrow> kernel res" where
  "write_head E s =
     andthen (bread E (lg_dev (lg s)) (lblock (lg_start (lg s))) s) (\<lambda>(b, s).
     let s = set_data b (put32 (bdata (bufs s b)) 0 (word_of_int (lh_n (lg s)))) s
     in andthen (write_head_loop b [0..<nat (lh_n (lg s))] s) (\<lambda>s.
        andthen (bwrite E b s) (\<lambda>s. brelse b s)))"

definition recover_from_log :: "env \<Rightarrow> kernel \<Rightarrow> kernel res" where
  "recover_from_log E s =
     andthen (read_head E s) (\<lambda>s.
     andthen (install_trans E True s) (\<lambda>s.
     write_head E (set_lg (lh_n_update (\<lambda>_. 0)) s)))"

definition initlog :: "env \<Rightarrow> u32 \<Rightarrow> superblock \<Rightarrow> kernel \<Rightarrow> kernel res" where
  "initlog E dev sbk s =
     (if 4 + 4 * LOGBLOCKS \<ge> BSIZE then panic ''initlog: too big logheader''
      else recover_from_log E (set_lg (\<lambda>l. l\<lparr>lg_start := sint (sb_logstart sbk), lg_dev := dev\<rparr>) s))"

section \<open>Operations\<close>

primrec begin_op_loop :: "nat \<Rightarrow> env \<Rightarrow> kernel \<Rightarrow> kernel res" where
  "begin_op_loop 0 E s = Inl (Block ''begin_op'')"
| "begin_op_loop (Suc k) E s =
     (if committing (lg s) then andthen (sleep E ChLog Llog s) (\<lambda>s. begin_op_loop k E s)
      else if lh_n (lg s) + (outstanding (lg s) + 1) * int MAXOPBLOCKS > int LOGBLOCKS
      then andthen (sleep E ChLog Llog s) (\<lambda>s. begin_op_loop k E s)
      else krelease Llog (set_lg (\<lambda>l. l\<lparr>outstanding := outstanding l + 1\<rparr>) s))"

definition begin_op :: "env \<Rightarrow> kernel \<Rightarrow> kernel res" where
  "begin_op E s = andthen (kacquire Llog s) (\<lambda>s. begin_op_loop (patience E) E s)"

primrec write_log_loop :: "nat \<Rightarrow> env \<Rightarrow> nat \<Rightarrow> kernel \<Rightarrow> kernel res" where
  "write_log_loop 0 E t s = Inl (Block ''write_log'')"
| "write_log_loop (Suc k) E t s =
     (if \<not> int t < lh_n (lg s) then Inr s
      else if t \<ge> LOGBLOCKS then Inl (Block ''lh.block'')
      else
      andthen (bread E (lg_dev (lg s)) (lblock (lg_start (lg s) + int t + 1)) s) (\<lambda>(to, s).
      andthen (bread E (lg_dev (lg s)) (lh_block (lg s) t) s) (\<lambda>(fr, s).
      andthen (bwrite E to (set_data to (bdata (bufs s fr)) s)) (\<lambda>s.
      andthen (brelse fr s) (\<lambda>s.
      andthen (brelse to s) (\<lambda>s.
      write_log_loop k E (t + 1) s))))))"

definition write_log :: "env \<Rightarrow> kernel \<Rightarrow> kernel res" where
  "write_log E s = write_log_loop (LOGBLOCKS + 1) E 0 s"

definition commit :: "env \<Rightarrow> kernel \<Rightarrow> kernel res" where
  "commit E s =
     (if lh_n (lg s) > 0
      then andthen (write_log E s) (\<lambda>s.
           andthen (write_head E s) (\<lambda>s.
           andthen (install_trans E False s) (\<lambda>s.
           write_head E (set_lg (lh_n_update (\<lambda>_. 0)) s))))
      else Inr s)"

definition end_op :: "env \<Rightarrow> kernel \<Rightarrow> kernel res" where
  "end_op E s =
     andthen (kacquire Llog s) (\<lambda>s.
     let s = set_lg (\<lambda>l. l\<lparr>outstanding := outstanding l - 1\<rparr>) s
     in if committing (lg s) then panic ''log.committing''
        else if outstanding (lg s) = 0
        then andthen (krelease Llog (set_lg (committing_update (\<lambda>_. True)) s)) (\<lambda>s.
             andthen (commit E s) (\<lambda>s.
             andthen (kacquire Llog s) (\<lambda>s.
             andthen (wakeup (Some ChLog) (set_lg (committing_update (\<lambda>_. False)) s)) (\<lambda>s.
             krelease Llog s))))
        else andthen (wakeup (Some ChLog) s) (\<lambda>s. krelease Llog s))"

text \<open>The slot of a block in the header: where it already is, or the first free one.\<close>

primrec log_slot :: "nat list \<Rightarrow> nat \<Rightarrow> u32 \<Rightarrow> logst \<Rightarrow> nat" where
  "log_slot [] n bno l = n"
| "log_slot (i # ns) n bno l = (if lh_block l i = bno then i else log_slot ns n bno l)"

definition log_write :: "nat \<Rightarrow> kernel \<Rightarrow> kernel res" where
  "log_write b s =
     andthen (kacquire Llog s) (\<lambda>s.
     if lh_n (lg s) \<ge> int LOGBLOCKS then panic ''too big a transaction''
     else if outstanding (lg s) < 1 then panic ''log_write outside of trans''
     else
       let n = nat (lh_n (lg s));
           i = log_slot [0..<n] n (blockno (bufs s b)) (lg s);
           s = set_lg (\<lambda>l. l\<lparr>lh_block := (lh_block l)(i := blockno (bufs s b))\<rparr>) s
       in andthen (if int i = lh_n (lg s)
                   then andthen (bpin b s) (\<lambda>s. Inr (set_lg (\<lambda>l. l\<lparr>lh_n := lh_n l + 1\<rparr>) s))
                   else Inr s) (\<lambda>s. krelease Llog s))"

end
