(* ===== verification/Fs.thy ===== *)
theory Fs
  imports Log
begin

unbundle bit_operations_syntax

text \<open>
  \<^verbatim>\<open>fs.c\<close>: blocks, inodes, directories and path names, on top of the log. An inode is
  named by its index in the inode table. Structs on disk are byte lists; a path is the
  byte list before its nul.
\<close>

section \<open>fs.h and stat.h\<close>

definition ROOTINO :: u32 where "ROOTINO = 1"
definition FSMAGIC :: u32 where "FSMAGIC = 0x10203040"
definition NDIRECT :: nat where "NDIRECT = 12"
definition NINDIRECT :: nat where "NINDIRECT = BSIZE div 4"
definition MAXFILE :: nat where "MAXFILE = NDIRECT + NINDIRECT"
definition IPB :: nat where "IPB = BSIZE div 64"
definition BPB :: nat where "BPB = BSIZE * 8"
definition DIRSIZ :: nat where "DIRSIZ = 14"
definition T_DIR :: u16 where "T_DIR = 1"
definition T_FILE :: u16 where "T_FILE = 2"
definition T_DEVICE :: u16 where "T_DEVICE = 3"

definition IBLOCK :: "u32 \<Rightarrow> superblock \<Rightarrow> u32" where
  "IBLOCK i sbk = i div of_nat IPB + sb_inodestart sbk"

definition BBLOCK :: "u32 \<Rightarrow> superblock \<Rightarrow> u32" where
  "BBLOCK b sbk = b div of_nat BPB + sb_bmapstart sbk"

text \<open>The structs of the disk as bytes.\<close>

definition get_superblock :: "u8 list \<Rightarrow> superblock" where
  "get_superblock d =
     \<lparr>sb_magic = get32 d 0, sb_size = get32 d 4, sb_nblocks = get32 d 8, sb_ninodes = get32 d 12,
      sb_nlog = get32 d 16, sb_logstart = get32 d 20, sb_inodestart = get32 d 24, sb_bmapstart = get32 d 28\<rparr>"

definition get_dinode :: "u8 list \<Rightarrow> nat \<Rightarrow> dinode" where
  "get_dinode d off =
     \<lparr>d_type = get16 d off, d_major = get16 d (off + 2), d_minor = get16 d (off + 4),
      d_nlink = get16 d (off + 6), d_size = get32 d (off + 8),
      d_addrs = map (\<lambda>i. get32 d (off + 12 + 4 * i)) [0..<NDIRECT + 1]\<rparr>"

definition dinode_bytes :: "dinode \<Rightarrow> u8 list" where
  "dinode_bytes di =
     word_bytes 2 (d_type di) @ word_bytes 2 (d_major di) @ word_bytes 2 (d_minor di) @
     word_bytes 2 (d_nlink di) @ word_bytes 4 (d_size di) @ concat (map (word_bytes 4) (d_addrs di))"

definition dirent_bytes :: "u16 \<Rightarrow> u8 list \<Rightarrow> u8 list" where
  "dirent_bytes i nm = word_bytes 2 i @ nm"

text \<open>A byte list as a C string: what follows it is zero.\<close>

definition cstr :: "u8 list \<Rightarrow> nat \<Rightarrow> u8" where
  "cstr bs i = (if i < length bs then bs ! i else 0)"

section \<open>Blocks\<close>

definition readsb :: "env \<Rightarrow> u32 \<Rightarrow> kernel \<Rightarrow> kernel res" where
  "readsb E dev s =
     andthen (bread E dev 1 s) (\<lambda>(b, s).
     brelse b (s\<lparr>sb := get_superblock (bdata (bufs s b))\<rparr>))"

definition bzero :: "env \<Rightarrow> u32 \<Rightarrow> u32 \<Rightarrow> kernel \<Rightarrow> kernel res" where
  "bzero E dev bno s =
     andthen (bread E dev bno s) (\<lambda>(b, s).
     andthen (log_write b (set_data b (replicate BSIZE 0) s)) (\<lambda>s. brelse b s))"

definition bitmask :: "nat \<Rightarrow> u8" where
  "bitmask bi = push_bit (bi mod 8) 1"

text \<open>The first free bit of a bitmap block, for blocks below \<open>n\<close>.\<close>

primrec bit_scan :: "nat \<Rightarrow> nat \<Rightarrow> nat \<Rightarrow> nat \<Rightarrow> u8 list \<Rightarrow> nat option" where
  "bit_scan 0 bi b n d = None"
| "bit_scan (Suc k) bi b n d =
     (if b + bi < n
      then if d ! (bi div 8) AND bitmask bi = 0 then Some bi else bit_scan k (bi + 1) b n d
      else None)"

primrec balloc_loop :: "nat \<Rightarrow> env \<Rightarrow> u32 \<Rightarrow> nat \<Rightarrow> kernel \<Rightarrow> (u32 \<times> kernel) res" where
  "balloc_loop 0 E dev b s = Inl (Block ''balloc'')"
| "balloc_loop (Suc k) E dev b s =
     (if b < unat (sb_size (sb s))
      then andthen (bread E dev (BBLOCK (of_nat b) (sb s)) s) (\<lambda>(bp, s).
           case bit_scan BPB 0 b (unat (sb_size (sb s))) (bdata (bufs s bp)) of
             Some bi \<Rightarrow>
               let d = bdata (bufs s bp);
                   s = set_data bp (d[bi div 8 := d ! (bi div 8) OR bitmask bi]) s
               in andthen (log_write bp s) (\<lambda>s.
                  andthen (brelse bp s) (\<lambda>s.
                  andthen (bzero E dev (of_nat (b + bi)) s) (\<lambda>s.
                  Inr (of_nat (b + bi), s))))
           | None \<Rightarrow> andthen (brelse bp s) (\<lambda>s. balloc_loop k E dev (b + BPB) s))
      else andthen (printf E (''balloc: out of blocks'' @ newline) [] s) (\<lambda>s. Inr (0, s)))"

definition balloc :: "env \<Rightarrow> u32 \<Rightarrow> kernel \<Rightarrow> (u32 \<times> kernel) res" where
  "balloc E dev s = balloc_loop (unat (sb_size (sb s)) div BPB + 2) E dev 0 s"

definition bfree :: "env \<Rightarrow> u32 \<Rightarrow> u32 \<Rightarrow> kernel \<Rightarrow> kernel res" where
  "bfree E dev b s =
     andthen (bread E dev (BBLOCK b (sb s)) s) (\<lambda>(bp, s).
     let bi = unat b mod BPB; d = bdata (bufs s bp)
     in if d ! (bi div 8) AND bitmask bi = 0 then panic ''freeing free block''
        else andthen (log_write bp (set_data bp (d[bi div 8 := d ! (bi div 8) AND NOT (bitmask bi)]) s)) (\<lambda>s.
             brelse bp s))"

section \<open>Inodes\<close>

primrec iinit_loop :: "nat list \<Rightarrow> kernel \<Rightarrow> kernel" where
  "iinit_loop [] s = s"
| "iinit_loop (i # ns) s = iinit_loop ns (initsleeplock (SInode i) s)"

definition iinit :: "kernel \<Rightarrow> kernel" where
  "iinit s = iinit_loop [0..<NINODE] s"

text \<open>The search of \<open>iget\<close>: the entry of the inode, or the first unused entry.\<close>

primrec iget_scan :: "nat list \<Rightarrow> u32 \<Rightarrow> u32 \<Rightarrow> nat option \<Rightarrow> kernel \<Rightarrow> nat option \<times> nat option" where
  "iget_scan [] dev i emp s = (None, emp)"
| "iget_scan (ip # ns) dev i emp s =
     (if i_ref (inodes s ip) > 0 \<and> i_dev (inodes s ip) = dev \<and> inum (inodes s ip) = i then (Some ip, emp)
      else iget_scan ns dev i
        (if emp = None \<and> i_ref (inodes s ip) = 0 then Some ip else emp) s)"

definition iget :: "u32 \<Rightarrow> u32 \<Rightarrow> kernel \<Rightarrow> (nat \<times> kernel) res" where
  "iget dev i s =
     andthen (kacquire Litable s) (\<lambda>s.
     case iget_scan [0..<NINODE] dev i None s of
       (Some ip, _) \<Rightarrow>
         andthen (krelease Litable (set_inode ip (\<lambda>x. x\<lparr>i_ref := i_ref x + 1\<rparr>) s)) (\<lambda>s. Inr (ip, s))
     | (None, None) \<Rightarrow> panic ''iget: no inodes''
     | (None, Some ip) \<Rightarrow>
         andthen (krelease Litable
           (set_inode ip (\<lambda>x. x\<lparr>i_dev := dev, inum := i, i_ref := 1, i_valid := False\<rparr>) s)) (\<lambda>s. Inr (ip, s)))"

definition dinode_off :: "u32 \<Rightarrow> nat" where
  "dinode_off i = 64 * (unat i mod IPB)"

primrec ialloc_loop :: "nat \<Rightarrow> env \<Rightarrow> u32 \<Rightarrow> u16 \<Rightarrow> nat \<Rightarrow> kernel \<Rightarrow> (nat option \<times> kernel) res" where
  "ialloc_loop 0 E dev ty i s = Inl (Block ''ialloc'')"
| "ialloc_loop (Suc k) E dev ty i s =
     (if i < unat (sb_ninodes (sb s))
      then andthen (bread E dev (IBLOCK (of_nat i) (sb s)) s) (\<lambda>(bp, s).
           let d = bdata (bufs s bp); off = dinode_off (of_nat i)
           in if d_type (get_dinode d off) = 0
              then andthen (log_write bp (set_data bp (put_at d off (word_bytes 2 ty @ replicate 62 0)) s)) (\<lambda>s.
                   andthen (brelse bp s) (\<lambda>s.
                   andthen (iget dev (of_nat i) s) (\<lambda>(ip, s). Inr (Some ip, s))))
              else andthen (brelse bp s) (\<lambda>s. ialloc_loop k E dev ty (i + 1) s))
      else andthen (printf E (''ialloc: no inodes'' @ newline) [] s) (\<lambda>s. Inr (None, s)))"

definition ialloc :: "env \<Rightarrow> u32 \<Rightarrow> u16 \<Rightarrow> kernel \<Rightarrow> (nat option \<times> kernel) res" where
  "ialloc E dev ty s = ialloc_loop (unat (sb_ninodes (sb s)) + 1) E dev ty 1 s"

definition inode_dinode :: "inode \<Rightarrow> dinode" where
  "inode_dinode ip =
     \<lparr>d_type = i_type ip, d_major = i_major ip, d_minor = i_minor ip, d_nlink = nlink ip,
      d_size = i_size ip, d_addrs = addrs ip\<rparr>"

definition iupdate :: "env \<Rightarrow> nat \<Rightarrow> kernel \<Rightarrow> kernel res" where
  "iupdate E ip s =
     (let i = inodes s ip
      in andthen (bread E (i_dev i) (IBLOCK (inum i) (sb s)) s) (\<lambda>(bp, s).
         let i = inodes s ip;
             d = put_at (bdata (bufs s bp)) (dinode_off (inum i)) (dinode_bytes (inode_dinode i))
         in andthen (log_write bp (set_data bp d s)) (\<lambda>s. brelse bp s)))"

definition idup :: "nat \<Rightarrow> kernel \<Rightarrow> (nat \<times> kernel) res" where
  "idup ip s =
     andthen (kacquire Litable s) (\<lambda>s.
     andthen (krelease Litable (set_inode ip (\<lambda>x. x\<lparr>i_ref := i_ref x + 1\<rparr>) s)) (\<lambda>s. Inr (ip, s)))"

definition load_inode :: "dinode \<Rightarrow> inode \<Rightarrow> inode" where
  "load_inode di x =
     x\<lparr>i_type := d_type di, i_major := d_major di, i_minor := d_minor di, nlink := d_nlink di,
       i_size := d_size di, addrs := d_addrs di\<rparr>"

definition ilock :: "env \<Rightarrow> nat \<Rightarrow> kernel \<Rightarrow> kernel res" where
  "ilock E ip s =
     (if i_ref (inodes s ip) < 1 then panic ''ilock''
      else andthen (acquiresleep E (SInode ip) s) (\<lambda>s.
        if i_valid (inodes s ip) then Inr s
        else andthen (bread E (i_dev (inodes s ip)) (IBLOCK (inum (inodes s ip)) (sb s)) s) (\<lambda>(bp, s).
          let di = get_dinode (bdata (bufs s bp)) (dinode_off (inum (inodes s ip)));
              s = set_inode ip (load_inode di) s
          in andthen (brelse bp s) (\<lambda>s.
             let s = set_inode ip (i_valid_update (\<lambda>_. True)) s
             in if i_type (inodes s ip) = 0 then panic ''ilock: no type'' else Inr s))))"

definition iunlock :: "nat \<Rightarrow> kernel \<Rightarrow> kernel res" where
  "iunlock ip s =
     andthen (holdingsleep (SInode ip) s) (\<lambda>(h, s).
     if \<not> h \<or> i_ref (inodes s ip) < 1 then panic ''iunlock'' else releasesleep (SInode ip) s)"

section \<open>Truncation and release\<close>

primrec trunc_direct :: "env \<Rightarrow> nat \<Rightarrow> nat list \<Rightarrow> kernel \<Rightarrow> kernel res" where
  "trunc_direct E ip [] s = Inr s"
| "trunc_direct E ip (i # ns) s =
     (if addrs (inodes s ip) ! i \<noteq> 0
      then andthen (bfree E (i_dev (inodes s ip)) (addrs (inodes s ip) ! i) s) (\<lambda>s.
           trunc_direct E ip ns (set_inode ip (\<lambda>x. x\<lparr>addrs := (addrs x)[i := 0]\<rparr>) s))
      else trunc_direct E ip ns s)"

primrec trunc_indirect :: "env \<Rightarrow> nat \<Rightarrow> nat \<Rightarrow> nat list \<Rightarrow> kernel \<Rightarrow> kernel res" where
  "trunc_indirect E ip bp [] s = Inr s"
| "trunc_indirect E ip bp (j # js) s =
     (let a = get32 (bdata (bufs s bp)) (4 * j)
      in if a \<noteq> 0
         then andthen (bfree E (i_dev (inodes s ip)) a s) (\<lambda>s. trunc_indirect E ip bp js s)
         else trunc_indirect E ip bp js s)"

definition itrunc :: "env \<Rightarrow> nat \<Rightarrow> kernel \<Rightarrow> kernel res" where
  "itrunc E ip s =
     andthen (trunc_direct E ip [0..<NDIRECT] s) (\<lambda>s.
     andthen
       (let a = addrs (inodes s ip) ! NDIRECT
        in if a \<noteq> 0
           then andthen (bread E (i_dev (inodes s ip)) a s) (\<lambda>(bp, s).
                andthen (trunc_indirect E ip bp [0..<NINDIRECT] s) (\<lambda>s.
                andthen (brelse bp s) (\<lambda>s.
                andthen (bfree E (i_dev (inodes s ip)) (addrs (inodes s ip) ! NDIRECT) s) (\<lambda>s.
                Inr (set_inode ip (\<lambda>x. x\<lparr>addrs := (addrs x)[NDIRECT := 0]\<rparr>) s)))))
           else Inr s) (\<lambda>s.
     iupdate E ip (set_inode ip (i_size_update (\<lambda>_. 0)) s)))"

definition iput :: "env \<Rightarrow> nat \<Rightarrow> kernel \<Rightarrow> kernel res" where
  "iput E ip s =
     andthen (kacquire Litable s) (\<lambda>s.
     andthen
       (if i_ref (inodes s ip) = 1 \<and> i_valid (inodes s ip) \<and> nlink (inodes s ip) = 0
        then andthen (acquiresleep E (SInode ip) s) (\<lambda>s.
             andthen (krelease Litable s) (\<lambda>s.
             andthen (itrunc E ip s) (\<lambda>s.
             andthen (iupdate E ip (set_inode ip (i_type_update (\<lambda>_. 0)) s)) (\<lambda>s.
             andthen (releasesleep (SInode ip) (set_inode ip (i_valid_update (\<lambda>_. False)) s)) (\<lambda>s.
             kacquire Litable s)))))
        else Inr s) (\<lambda>s.
     krelease Litable (set_inode ip (\<lambda>x. x\<lparr>i_ref := i_ref x - 1\<rparr>) s)))"

definition iunlockput :: "env \<Rightarrow> nat \<Rightarrow> kernel \<Rightarrow> kernel res" where
  "iunlockput E ip s = andthen (iunlock ip s) (\<lambda>s. iput E ip s)"

primrec ireclaim_loop :: "nat \<Rightarrow> env \<Rightarrow> u32 \<Rightarrow> nat \<Rightarrow> kernel \<Rightarrow> kernel res" where
  "ireclaim_loop 0 E dev i s = Inl (Block ''ireclaim'')"
| "ireclaim_loop (Suc k) E dev i s =
     (if i < unat (sb_ninodes (sb s))
      then andthen (bread E dev (IBLOCK (of_nat i) (sb s)) s) (\<lambda>(bp, s).
           let di = get_dinode (bdata (bufs s bp)) (dinode_off (of_nat i))
           in andthen
                (if d_type di \<noteq> 0 \<and> d_nlink di = 0
                 then andthen (printf E (''ireclaim: orphaned inode %d'' @ newline) [PInt (int i)] s) (\<lambda>s.
                      andthen (iget dev (of_nat i) s) (\<lambda>(ip, s). Inr (Some ip, s)))
                 else Inr (None, s)) (\<lambda>(r, s).
              andthen (brelse bp s) (\<lambda>s.
              andthen
                (case r of
                   None \<Rightarrow> Inr s
                 | Some ip \<Rightarrow>
                     andthen (begin_op E s) (\<lambda>s.
                     andthen (ilock E ip s) (\<lambda>s.
                     andthen (iunlock ip s) (\<lambda>s.
                     andthen (iput E ip s) (\<lambda>s.
                     end_op E s))))) (\<lambda>s.
              ireclaim_loop k E dev (i + 1) s))))
      else Inr s)"

definition ireclaim :: "env \<Rightarrow> u32 \<Rightarrow> kernel \<Rightarrow> kernel res" where
  "ireclaim E dev s = ireclaim_loop (unat (sb_ninodes (sb s)) + 1) E dev 1 s"

definition fsinit :: "env \<Rightarrow> u32 \<Rightarrow> kernel \<Rightarrow> kernel res" where
  "fsinit E dev s =
     andthen (readsb E dev s) (\<lambda>s.
     if sb_magic (sb s) \<noteq> FSMAGIC then panic ''invalid file system''
     else andthen (initlog E dev (sb s) s) (\<lambda>s. ireclaim E dev s))"

section \<open>Contents of an inode\<close>

definition bmap :: "env \<Rightarrow> nat \<Rightarrow> nat \<Rightarrow> kernel \<Rightarrow> (u32 \<times> kernel) res" where
  "bmap E ip bn s =
     (if bn < NDIRECT
      then
        let addr = addrs (inodes s ip) ! bn
        in if addr \<noteq> 0 then Inr (addr, s)
           else andthen (balloc E (i_dev (inodes s ip)) s) (\<lambda>(addr, s).
             if addr = 0 then Inr (0, s)
             else Inr (addr, set_inode ip (\<lambda>x. x\<lparr>addrs := (addrs x)[bn := addr]\<rparr>) s))
      else if bn - NDIRECT < NINDIRECT
      then
        let bn = bn - NDIRECT; addr = addrs (inodes s ip) ! NDIRECT
        in andthen
             (if addr \<noteq> 0 then Inr (addr, s)
              else andthen (balloc E (i_dev (inodes s ip)) s) (\<lambda>(addr, s).
                if addr = 0 then Inr (0, s)
                else Inr (addr, set_inode ip (\<lambda>x. x\<lparr>addrs := (addrs x)[NDIRECT := addr]\<rparr>) s))) (\<lambda>(addr, s).
           if addr = 0 then Inr (0, s)
           else andthen (bread E (i_dev (inodes s ip)) addr s) (\<lambda>(bp, s).
             let addr = get32 (bdata (bufs s bp)) (4 * bn)
             in andthen
                  (if addr \<noteq> 0 then Inr (addr, s)
                   else andthen (balloc E (i_dev (inodes s ip)) s) (\<lambda>(addr, s).
                     if addr \<noteq> 0
                     then andthen (log_write bp (set_data bp (put32 (bdata (bufs s bp)) (4 * bn) addr) s))
                            (\<lambda>s. Inr (addr, s))
                     else Inr (0, s))) (\<lambda>(addr, s).
                andthen (brelse bp s) (\<lambda>s. Inr (addr, s)))))
      else panic ''bmap: out of range'')"

record stat =
  st_dev :: u32
  st_ino :: u32
  st_type :: u16
  st_nlink :: u16
  st_size :: u64

definition stati :: "nat \<Rightarrow> kernel \<Rightarrow> stat" where
  "stati ip s =
     \<lparr>st_dev = i_dev (inodes s ip), st_ino = inum (inodes s ip), st_type = i_type (inodes s ip),
      st_nlink = nlink (inodes s ip), st_size = ucast (i_size (inodes s ip))\<rparr>"

text \<open>The bytes of one iteration of \<open>readi\<close> or \<open>writei\<close>: up to the end of the block.\<close>

definition blk_part :: "u32 \<Rightarrow> u32 \<Rightarrow> u32" where
  "blk_part rest off = min rest (of_nat BSIZE - off mod of_nat BSIZE)"

primrec readi_loop ::
  "nat \<Rightarrow> env \<Rightarrow> nat \<Rightarrow> kaddr \<Rightarrow> u32 \<Rightarrow> u32 \<Rightarrow> u32 \<Rightarrow> kernel \<Rightarrow> (u32 \<times> kaddr \<times> kernel) res" where
  "readi_loop 0 E ip dst off n tot s = Inl (Block ''readi'')"
| "readi_loop (Suc k) E ip dst off n tot s =
     (if \<not> tot < n then Inr (tot, dst, s)
      else andthen (bmap E ip (unat (off div of_nat BSIZE)) s) (\<lambda>(addr, s).
        if addr = 0 then Inr (tot, dst, s)
        else andthen (bread E (i_dev (inodes s ip)) addr s) (\<lambda>(bp, s).
          let m = blk_part (n - tot) off
          in andthen (either_copyout dst (take (unat m) (drop (unat (off mod of_nat BSIZE)) (bdata (bufs s bp)))) s)
               (\<lambda>(r, dst, s).
             if r = -1 then andthen (brelse bp s) (\<lambda>s. Inr (-1, dst, s))
             else andthen (brelse bp s) (\<lambda>s. readi_loop k E ip dst (off + m) n (tot + m) s)))))"

definition readi :: "env \<Rightarrow> nat \<Rightarrow> kaddr \<Rightarrow> u32 \<Rightarrow> u32 \<Rightarrow> kernel \<Rightarrow> (int \<times> kaddr \<times> kernel) res" where
  "readi E ip dst off n s =
     (let lim = i_size (inodes s ip)
      in if off > lim \<or> off + n < off then Inr (0, dst, s)
         else
           let n = (if off + n > lim then lim - off else n)
           in andthen (readi_loop (unat n div BSIZE + 3) E ip dst off n 0 s) (\<lambda>(tot, dst, s).
              Inr (sint tot, dst, s)))"

primrec writei_loop ::
  "nat \<Rightarrow> env \<Rightarrow> nat \<Rightarrow> kaddr \<Rightarrow> u32 \<Rightarrow> u32 \<Rightarrow> u32 \<Rightarrow> kernel \<Rightarrow> (u32 \<times> u32 \<times> kernel) res" where
  "writei_loop 0 E ip src off n tot s = Inl (Block ''writei'')"
| "writei_loop (Suc k) E ip src off n tot s =
     (if \<not> tot < n then Inr (tot, off, s)
      else andthen (bmap E ip (unat (off div of_nat BSIZE)) s) (\<lambda>(addr, s).
        if addr = 0 then Inr (tot, off, s)
        else andthen (bread E (i_dev (inodes s ip)) addr s) (\<lambda>(bp, s).
          let m = blk_part (n - tot) off
          in andthen (either_copyin src (unat m) s) (\<lambda>(r, bs, src, s).
             let s = set_data bp (put_at (bdata (bufs s bp)) (unat (off mod of_nat BSIZE)) bs) s
             in if r = -1 then andthen (brelse bp s) (\<lambda>s. Inr (tot, off, s))
             else andthen (log_write bp s) (\<lambda>s.
                  andthen (brelse bp s) (\<lambda>s. writei_loop k E ip src (off + m) n (tot + m) s))))))"

definition writei :: "env \<Rightarrow> nat \<Rightarrow> kaddr \<Rightarrow> u32 \<Rightarrow> u32 \<Rightarrow> kernel \<Rightarrow> (int \<times> kernel) res" where
  "writei E ip src off n s =
     (if off > i_size (inodes s ip) \<or> off + n < off then Inr (-1, s)
      else if off + n > of_nat (MAXFILE * BSIZE) then Inr (-1, s)
      else andthen (writei_loop (unat n div BSIZE + 3) E ip src off n 0 s) (\<lambda>(tot, off, s).
        let s = (if off > i_size (inodes s ip) then set_inode ip (i_size_update (\<lambda>_. off)) s else s)
        in andthen (iupdate E ip s) (\<lambda>s. Inr (sint tot, s))))"

section \<open>Directories\<close>

definition namecmp :: "u8 list \<Rightarrow> u8 list \<Rightarrow> int" where
  "namecmp a b = strncmp (cstr a) (cstr b) DIRSIZ"

definition local_bytes :: "kaddr \<Rightarrow> u8 list" where
  "local_bytes a = (case a of Local bs \<Rightarrow> bs | _ \<Rightarrow> [])"

definition de_inum :: "u8 list \<Rightarrow> u16" where
  "de_inum de = get16 de 0"

definition de_name :: "u8 list \<Rightarrow> u8 list" where
  "de_name de = take DIRSIZ (drop 2 de)"

text \<open>One directory entry read into a local variable; a short read is a panic with the
  caller's message.\<close>

definition read_dirent :: "env \<Rightarrow> string \<Rightarrow> nat \<Rightarrow> u32 \<Rightarrow> kernel \<Rightarrow> (u8 list \<times> kernel) res" where
  "read_dirent E msg dp off s =
     andthen (readi E dp (Local []) off 16 s) (\<lambda>(r, dst, s).
     if r \<noteq> 16 then panic msg else Inr (local_bytes dst, s))"

primrec dirlookup_loop ::
  "nat \<Rightarrow> env \<Rightarrow> nat \<Rightarrow> u8 list \<Rightarrow> u32 \<Rightarrow> kernel \<Rightarrow> ((nat \<times> u32) option \<times> kernel) res" where
  "dirlookup_loop 0 E dp name off s = Inl (Block ''dirlookup'')"
| "dirlookup_loop (Suc k) E dp name off s =
     (if \<not> off < i_size (inodes s dp) then Inr (None, s)
      else andthen (read_dirent E ''dirlookup read'' dp off s) (\<lambda>(de, s).
        if de_inum de = 0 then dirlookup_loop k E dp name (off + 16) s
        else if namecmp name (de_name de) = 0
        then andthen (iget (i_dev (inodes s dp)) (ucast (de_inum de)) s) (\<lambda>(ip, s). Inr (Some (ip, off), s))
        else dirlookup_loop k E dp name (off + 16) s))"

definition dirlookup :: "env \<Rightarrow> nat \<Rightarrow> u8 list \<Rightarrow> kernel \<Rightarrow> ((nat \<times> u32) option \<times> kernel) res" where
  "dirlookup E dp name s =
     (if i_type (inodes s dp) \<noteq> T_DIR then panic ''dirlookup not DIR''
      else dirlookup_loop (unat (i_size (inodes s dp)) div 16 + 2) E dp name 0 s)"

primrec empty_dirent :: "nat \<Rightarrow> env \<Rightarrow> nat \<Rightarrow> u32 \<Rightarrow> kernel \<Rightarrow> (u32 \<times> kernel) res" where
  "empty_dirent 0 E dp off s = Inl (Block ''dirlink'')"
| "empty_dirent (Suc k) E dp off s =
     (if \<not> off < i_size (inodes s dp) then Inr (off, s)
      else andthen (read_dirent E ''dirlink read'' dp off s) (\<lambda>(de, s).
        if de_inum de = 0 then Inr (off, s) else empty_dirent k E dp (off + 16) s))"

definition dirlink :: "env \<Rightarrow> nat \<Rightarrow> u8 list \<Rightarrow> u32 \<Rightarrow> kernel \<Rightarrow> (int \<times> kernel) res" where
  "dirlink E dp name i s =
     andthen (dirlookup E dp name s) (\<lambda>(r, s).
     case r of
       Some (ip, _) \<Rightarrow> andthen (iput E ip s) (\<lambda>s. Inr (-1, s))
     | None \<Rightarrow>
         andthen (empty_dirent (unat (i_size (inodes s dp)) div 16 + 2) E dp 0 s) (\<lambda>(off, s).
         let de = dirent_bytes (ucast i) (strncpy (cstr name) (int DIRSIZ))
         in andthen (writei E dp (Local de) off 16 s) (\<lambda>(r, s).
            if r \<noteq> 16 then Inr (-1, s) else Inr (0, s))))"

section \<open>Path names\<close>

text \<open>\<open>skipelem path name\<close>: the rest of the path and the new contents of the buffer
  \<open>name\<close>.\<close>

definition skipelem :: "u8 list \<Rightarrow> u8 list \<Rightarrow> (u8 list \<times> u8 list) option" where
  "skipelem path name =
     (let path = dropWhile (\<lambda>c. c = 47) path
      in if path = [] then None
         else
           let elem = takeWhile (\<lambda>c. c \<noteq> 47) path;
               rest = dropWhile (\<lambda>c. c \<noteq> 47) path;
               name = (if length elem \<ge> DIRSIZ then take DIRSIZ elem
                       else elem @ [0] @ drop (length elem + 1) name)
           in Some (dropWhile (\<lambda>c. c = 47) rest, name))"

primrec namex_loop ::
  "nat \<Rightarrow> env \<Rightarrow> nat \<Rightarrow> u8 list \<Rightarrow> bool \<Rightarrow> u8 list \<Rightarrow> kernel \<Rightarrow> (nat option \<times> u8 list \<times> kernel) res" where
  "namex_loop 0 E ip path par name s = Inl (Block ''namex'')"
| "namex_loop (Suc k) E ip path par name s =
     (case skipelem path name of
        None \<Rightarrow>
          if par then andthen (iput E ip s) (\<lambda>s. Inr (None, name, s)) else Inr (Some ip, name, s)
      | Some (path, name) \<Rightarrow>
          andthen (ilock E ip s) (\<lambda>s.
          if i_type (inodes s ip) \<noteq> T_DIR then andthen (iunlockput E ip s) (\<lambda>s. Inr (None, name, s))
          else if par \<and> path = [] then andthen (iunlock ip s) (\<lambda>s. Inr (Some ip, name, s))
          else andthen (dirlookup E ip name s) (\<lambda>(r, s).
            case r of
              None \<Rightarrow> andthen (iunlockput E ip s) (\<lambda>s. Inr (None, name, s))
            | Some (nxt, _) \<Rightarrow> andthen (iunlockput E ip s) (\<lambda>s. namex_loop k E nxt path par name s))))"

definition namex :: "env \<Rightarrow> u8 list \<Rightarrow> bool \<Rightarrow> u8 list \<Rightarrow> kernel \<Rightarrow> (nat option \<times> u8 list \<times> kernel) res" where
  "namex E path par name s =
     andthen
       (if cstr path 0 = 47 then iget ROOTDEV ROOTINO s
        else andthen (my s) (\<lambda>p.
          case cwd (procs s p) of None \<Rightarrow> Inl (Block ''null inode'') | Some c \<Rightarrow> idup c s)) (\<lambda>(ip, s).
     namex_loop (length path + 1) E ip path par name s)"

definition namei :: "env \<Rightarrow> u8 list \<Rightarrow> kernel \<Rightarrow> (nat option \<times> kernel) res" where
  "namei E path s =
     andthen (namex E path False (replicate DIRSIZ 0) s) (\<lambda>(r, _, s). Inr (r, s))"

definition nameiparent :: "env \<Rightarrow> u8 list \<Rightarrow> u8 list \<Rightarrow> kernel \<Rightarrow> (nat option \<times> u8 list \<times> kernel) res" where
  "nameiparent E path name s = namex E path True name s"

end
