(* ===== verification/Console.thy ===== *)
theory Console
  imports Printf
begin

unbundle bit_operations_syntax

text \<open>
  \<^verbatim>\<open>uart.c\<close> with interrupts and \<^verbatim>\<open>console.c\<close>: the input line with its read, write and
  edit indices, which count up and wrap at \<open>2 ^ 32\<close>, over a ring of \<open>INPUT_BUF_SIZE\<close>
  bytes. \<open>char\<close> is unsigned on RISC-V.
\<close>

section \<open>The UART, with interrupts\<close>

definition uartinit :: "kernel \<Rightarrow> kernel" where
  "uartinit s =
     (let s = io_write IER 0 s;
          s = io_write LCR LCR_BAUD_LATCH s;
          s = io_write (UART0 + 0) 3 s;
          s = io_write (UART0 + 1) 0 s;
          s = io_write LCR LCR_EIGHT_BITS s;
          s = io_write FCR (FCR_FIFO_ENABLE OR FCR_FIFO_CLEAR) s
      in io_write IER (IER_TX_ENABLE OR IER_RX_ENABLE) s)"

primrec tx_busy_wait :: "nat \<Rightarrow> env \<Rightarrow> kernel \<Rightarrow> kernel res" where
  "tx_busy_wait 0 E s = (if tx_busy s then Inl (Block ''uartwrite'') else Inr s)"
| "tx_busy_wait (Suc k) E s =
     (if tx_busy s then andthen (sleep E ChTx Ltx s) (\<lambda>s. tx_busy_wait k E s) else Inr s)"

primrec uartwrite_loop :: "env \<Rightarrow> u8 list \<Rightarrow> kernel \<Rightarrow> kernel res" where
  "uartwrite_loop E [] s = Inr s"
| "uartwrite_loop E (c # cs) s =
     andthen (tx_busy_wait (patience E) E s) (\<lambda>s.
     uartwrite_loop E cs ((write_thr c s)\<lparr>tx_busy := True\<rparr>))"

definition uartwrite :: "env \<Rightarrow> u8 list \<Rightarrow> kernel \<Rightarrow> kernel res" where
  "uartwrite E buf s =
     andthen (kacquire Ltx s) (\<lambda>s. andthen (uartwrite_loop E buf s) (\<lambda>s. krelease Ltx s))"

definition uartgetc :: "env \<Rightarrow> kernel \<Rightarrow> int \<times> kernel" where
  "uartgetc E s =
     (case io_read E LSR s of (v, s) \<Rightarrow>
      if v AND LSR_RX_READY \<noteq> 0
      then case io_read E RHR s of (c, s) \<Rightarrow> (uint (ucast c :: u8), s)
      else (-1, s))"

section \<open>console.c\<close>

definition INPUT_BUF_SIZE :: nat where "INPUT_BUF_SIZE = 128"
definition CONSOLE :: u16 where "CONSOLE = 1"

definition ctrl :: "u8 \<Rightarrow> int" where
  "ctrl x = uint x - 64"

definition set_cons :: "(cons \<Rightarrow> cons) \<Rightarrow> kernel \<Rightarrow> kernel" where
  "set_cons f s = s\<lparr>cons := f (cons s)\<rparr>"

primrec consolewrite_loop :: "nat \<Rightarrow> env \<Rightarrow> kaddr \<Rightarrow> int \<Rightarrow> int \<Rightarrow> kernel \<Rightarrow> (int \<times> kernel) res" where
  "consolewrite_loop 0 E src n i s = Inl (Block ''consolewrite'')"
| "consolewrite_loop (Suc k) E src n i s =
     (if \<not> i < n then Inr (i, s)
      else
        let nn = (if 32 > n - i then n - i else 32)
        in andthen (either_copyin src (nat nn) s) (\<lambda>(r, bs, src, s).
           if r = -1 then Inr (i, s)
           else andthen (uartwrite E bs s) (\<lambda>s. consolewrite_loop k E src n (i + nn) s)))"

definition consolewrite :: "env \<Rightarrow> kaddr \<Rightarrow> int \<Rightarrow> kernel \<Rightarrow> (int \<times> kernel) res" where
  "consolewrite E src n s = consolewrite_loop (nat n div 32 + 2) E src n 0 s"

text \<open>Waiting for a line; the flag says whether the process was killed meanwhile (the lock
  is then released).\<close>

primrec cons_wait :: "nat \<Rightarrow> env \<Rightarrow> kernel \<Rightarrow> (bool \<times> kernel) res" where
  "cons_wait 0 E s = Inl (Block ''consoleread'')"
| "cons_wait (Suc k) E s =
     (if c_r (cons s) = c_w (cons s)
      then andthen (my s) (\<lambda>p.
           andthen (killed p s) (\<lambda>(kl, s).
           if kl then andthen (krelease Lcons s) (\<lambda>s. Inr (True, s))
           else andthen (sleep E ChCons Lcons s) (\<lambda>s. cons_wait k E s)))
      else Inr (False, s))"

primrec consoleread_loop ::
  "nat \<Rightarrow> env \<Rightarrow> kaddr \<Rightarrow> int \<Rightarrow> int \<Rightarrow> kernel \<Rightarrow> (int \<times> kaddr \<times> kernel) res" where
  "consoleread_loop 0 E dst target n s = Inl (Block ''consoleread'')"
| "consoleread_loop (Suc k) E dst target n s =
     (if \<not> n > 0 then andthen (krelease Lcons s) (\<lambda>s. Inr (target - n, dst, s))
      else andthen (cons_wait (patience E) E s) (\<lambda>(kl, s).
        if kl then Inr (-1, dst, s)
        else
          let c = c_buf (cons s) (unat (c_r (cons s)) mod INPUT_BUF_SIZE);
              s = set_cons (\<lambda>x. x\<lparr>c_r := c_r x + 1\<rparr>) s
          in if uint c = ctrl 68
             then andthen (krelease Lcons (if n < target then set_cons (\<lambda>x. x\<lparr>c_r := c_r x - 1\<rparr>) s else s)) (\<lambda>s.
                  Inr (target - n, dst, s))
             else andthen (either_copyout dst [c] s) (\<lambda>(r, dst, s).
                  if r = -1 then andthen (krelease Lcons s) (\<lambda>s. Inr (target - n, dst, s))
                  else if c = 10 then andthen (krelease Lcons s) (\<lambda>s. Inr (target - (n - 1), dst, s))
                  else consoleread_loop k E dst target (n - 1) s)))"

definition consoleread :: "env \<Rightarrow> kaddr \<Rightarrow> int \<Rightarrow> kernel \<Rightarrow> (int \<times> kaddr \<times> kernel) res" where
  "consoleread E dst n s =
     andthen (kacquire Lcons s) (\<lambda>s. consoleread_loop (nat n + 1) E dst n n s)"

text \<open>\<open>C('U')\<close>: erase the line that is being edited, at most \<open>e - w\<close> characters.\<close>

primrec kill_line :: "nat \<Rightarrow> env \<Rightarrow> kernel \<Rightarrow> kernel res" where
  "kill_line 0 E s = Inl (Block ''consoleintr'')"
| "kill_line (Suc k) E s =
     (if c_e (cons s) \<noteq> c_w (cons s) \<and>
         c_buf (cons s) (unat (c_e (cons s) - 1) mod INPUT_BUF_SIZE) \<noteq> 10
      then andthen (consputc E BACKSPACE (set_cons (\<lambda>x. x\<lparr>c_e := c_e x - 1\<rparr>) s)) (\<lambda>s. kill_line k E s)
      else Inr s)"

definition consoleintr_char :: "env \<Rightarrow> int \<Rightarrow> kernel \<Rightarrow> kernel res" where
  "consoleintr_char E c s =
     (if c \<noteq> 0 \<and> unat (c_e (cons s) - c_r (cons s)) < INPUT_BUF_SIZE
      then
        let c = (if c = 13 then 10 else c)
        in andthen (consputc E c s) (\<lambda>s.
           let s = set_cons (\<lambda>x. x\<lparr>c_buf := (c_buf x)(unat (c_e x) mod INPUT_BUF_SIZE := word_of_int c),
                                   c_e := c_e x + 1\<rparr>) s
           in if c = 10 \<or> c = ctrl 68 \<or> unat (c_e (cons s) - c_r (cons s)) = INPUT_BUF_SIZE
              then wakeup (Some ChCons) (set_cons (\<lambda>x. x\<lparr>c_w := c_e x\<rparr>) s)
              else Inr s)
      else Inr s)"

definition consoleintr :: "env \<Rightarrow> int \<Rightarrow> kernel \<Rightarrow> kernel res" where
  "consoleintr E c s =
     andthen (kacquire Lcons s) (\<lambda>s.
     andthen
       (if c = ctrl 80 then procdump E s
        else if c = ctrl 85 then kill_line (unat (c_e (cons s) - c_w (cons s)) + 1) E s
        else if c = ctrl 72 \<or> c = 127
        then if c_e (cons s) \<noteq> c_w (cons s)
             then consputc E BACKSPACE (set_cons (\<lambda>x. x\<lparr>c_e := c_e x - 1\<rparr>) s)
             else Inr s
        else consoleintr_char E c s) (\<lambda>s.
     krelease Lcons s))"

primrec uartintr_loop :: "nat \<Rightarrow> env \<Rightarrow> kernel \<Rightarrow> kernel res" where
  "uartintr_loop 0 E s = Inl (Block ''uartintr'')"
| "uartintr_loop (Suc k) E s =
     (case uartgetc E s of (c, s) \<Rightarrow>
      if c = -1 then Inr s else andthen (consoleintr E c s) (\<lambda>s. uartintr_loop k E s))"

definition uartintr :: "env \<Rightarrow> kernel \<Rightarrow> kernel res" where
  "uartintr E s =
     (case io_read E ISR s of (_, s) \<Rightarrow>
      andthen (kacquire Ltx s) (\<lambda>s.
      case io_read E LSR s of (v, s) \<Rightarrow>
      andthen (if v AND LSR_TX_IDLE \<noteq> 0 then wakeup (Some ChTx) (s\<lparr>tx_busy := False\<rparr>) else Inr s) (\<lambda>s.
      andthen (krelease Ltx s) (\<lambda>s. uartintr_loop (patience E) E s))))"

text \<open>\<open>consoleinit\<close> also connects the console to the read and write system calls: device
  \<open>CONSOLE\<close> is the only one with functions in \<^verbatim>\<open>devsw\<close>.\<close>

definition devsw :: "u16 \<Rightarrow> bool" where
  "devsw major \<longleftrightarrow> major = CONSOLE"

definition consoleinit :: "kernel \<Rightarrow> kernel" where
  "consoleinit s = uartinit s"

end
