(* ===== verification/File.thy ===== *)
theory File
  imports Fs Console
begin

unbundle bit_operations_syntax

text \<open>
  \<^verbatim>\<open>file.c\<close> and \<^verbatim>\<open>pipe.c\<close>: the file table, pipes, and the operations on an open file.
  A pipe is a struct in a page of \<open>kalloc\<close>; its index counters wrap at \<open>2 ^ 32\<close>.
\<close>

section \<open>The file table\<close>

primrec filealloc_scan :: "nat list \<Rightarrow> kernel \<Rightarrow> nat option" where
  "filealloc_scan [] s = None"
| "filealloc_scan (f # fs) s = (if f_ref (files s f) = 0 then Some f else filealloc_scan fs s)"

definition filealloc :: "kernel \<Rightarrow> (nat option \<times> kernel) res" where
  "filealloc s =
     andthen (kacquire Lftable s) (\<lambda>s.
     case filealloc_scan [0..<NFILE] s of
       Some f \<Rightarrow> andthen (krelease Lftable (set_file f (f_ref_update (\<lambda>_. 1)) s)) (\<lambda>s. Inr (Some f, s))
     | None \<Rightarrow> andthen (krelease Lftable s) (\<lambda>s. Inr (None, s)))"

definition filedup :: "nat \<Rightarrow> kernel \<Rightarrow> (nat \<times> kernel) res" where
  "filedup f s =
     andthen (kacquire Lftable s) (\<lambda>s.
     if f_ref (files s f) < 1 then panic ''filedup''
     else andthen (krelease Lftable (set_file f (\<lambda>x. x\<lparr>f_ref := f_ref x + 1\<rparr>) s)) (\<lambda>s. Inr (f, s)))"

section \<open>Pipes\<close>

definition PIPESIZE :: nat where "PIPESIZE = 512"

definition pipeclose :: "u64 \<Rightarrow> bool \<Rightarrow> kernel \<Rightarrow> kernel res" where
  "pipeclose pi wr s =
     andthen (kacquire (Lpipe pi) s) (\<lambda>s.
     andthen
       (if wr then wakeup (Some (ChPipeR pi)) (set_pipe pi (writeopen_update (\<lambda>_. False)) s)
        else wakeup (Some (ChPipeW pi)) (set_pipe pi (readopen_update (\<lambda>_. False)) s)) (\<lambda>s.
     if \<not> readopen (pipes s pi) \<and> \<not> writeopen (pipes s pi)
     then andthen (krelease (Lpipe pi) s) (\<lambda>s. kfree pi s)
     else krelease (Lpipe pi) s))"

text \<open>Each round of the write loop stores a byte or sleeps once.\<close>

primrec pipewrite_loop :: "nat \<Rightarrow> env \<Rightarrow> u64 \<Rightarrow> u64 \<Rightarrow> int \<Rightarrow> int \<Rightarrow> kernel \<Rightarrow> (int \<times> kernel) res" where
  "pipewrite_loop 0 E pi addr n i s = Inl (Block ''pipewrite'')"
| "pipewrite_loop (Suc k) E pi addr n i s =
     (if \<not> i < n
      then andthen (wakeup (Some (ChPipeR pi)) s) (\<lambda>s. andthen (krelease (Lpipe pi) s) (\<lambda>s. Inr (i, s)))
      else andthen (my s) (\<lambda>p.
        andthen (if \<not> readopen (pipes s pi) then Inr (True, s) else killed p s) (\<lambda>(kl, s).
        if kl then andthen (krelease (Lpipe pi) s) (\<lambda>s. Inr (-1, s))
        else if nwrite (pipes s pi) = nread (pipes s pi) + of_nat PIPESIZE
        then andthen (wakeup (Some (ChPipeR pi)) s) (\<lambda>s.
             andthen (sleep E (ChPipeW pi) (Lpipe pi) s) (\<lambda>s. pipewrite_loop k E pi addr n i s))
        else andthen (copyin (pagetable (procs s p)) (addr + word_of_int i) 1 s) (\<lambda>(r, bs, s).
             if r = -1
             then andthen (wakeup (Some (ChPipeR pi)) s) (\<lambda>s. andthen (krelease (Lpipe pi) s) (\<lambda>s. Inr (i, s)))
             else pipewrite_loop k E pi addr n (i + 1)
               (set_pipe pi (\<lambda>x. x\<lparr>p_data := (p_data x)(unat (nwrite x) mod PIPESIZE := bs ! 0),
                                   nwrite := nwrite x + 1\<rparr>) s)))))"

definition pipewrite :: "env \<Rightarrow> u64 \<Rightarrow> u64 \<Rightarrow> int \<Rightarrow> kernel \<Rightarrow> (int \<times> kernel) res" where
  "pipewrite E pi addr n s =
     andthen (kacquire (Lpipe pi) s) (\<lambda>s. pipewrite_loop (nat n + patience E + 1) E pi addr n 0 s)"

text \<open>Waiting for data; the flag says whether the process was killed meanwhile (the lock is
  then released).\<close>

primrec pipe_wait :: "nat \<Rightarrow> env \<Rightarrow> u64 \<Rightarrow> kernel \<Rightarrow> (bool \<times> kernel) res" where
  "pipe_wait 0 E pi s = Inl (Block ''piperead'')"
| "pipe_wait (Suc k) E pi s =
     (if nread (pipes s pi) = nwrite (pipes s pi) \<and> writeopen (pipes s pi)
      then andthen (my s) (\<lambda>p.
           andthen (killed p s) (\<lambda>(kl, s).
           if kl then andthen (krelease (Lpipe pi) s) (\<lambda>s. Inr (True, s))
           else andthen (sleep E (ChPipeR pi) (Lpipe pi) s) (\<lambda>s. pipe_wait k E pi s)))
      else Inr (False, s))"

primrec piperead_copy :: "nat \<Rightarrow> u64 \<Rightarrow> u64 \<Rightarrow> int \<Rightarrow> int \<Rightarrow> kernel \<Rightarrow> (int \<times> kernel) res" where
  "piperead_copy 0 pi addr n i s = Inl (Block ''piperead'')"
| "piperead_copy (Suc k) pi addr n i s =
     (if \<not> i < n then Inr (i, s)
      else if nread (pipes s pi) = nwrite (pipes s pi) then Inr (i, s)
      else andthen (my s) (\<lambda>p.
        let ch = p_data (pipes s pi) (unat (nread (pipes s pi)) mod PIPESIZE)
        in andthen (copyout (pagetable (procs s p)) (addr + word_of_int i) [ch] 1 s) (\<lambda>(r, s).
           if r = -1 then Inr (if i = 0 then -1 else i, s)
           else piperead_copy k pi addr n (i + 1) (set_pipe pi (\<lambda>x. x\<lparr>nread := nread x + 1\<rparr>) s))))"

definition piperead :: "env \<Rightarrow> u64 \<Rightarrow> u64 \<Rightarrow> int \<Rightarrow> kernel \<Rightarrow> (int \<times> kernel) res" where
  "piperead E pi addr n s =
     andthen (kacquire (Lpipe pi) s) (\<lambda>s.
     andthen (pipe_wait (patience E + 1) E pi s) (\<lambda>(kl, s).
     if kl then Inr (-1, s)
     else andthen (piperead_copy (nat n + 1) pi addr n 0 s) (\<lambda>(i, s).
          andthen (wakeup (Some (ChPipeW pi)) s) (\<lambda>s.
          andthen (krelease (Lpipe pi) s) (\<lambda>s. Inr (i, s))))))"

section \<open>Open files\<close>

definition fileclose :: "env \<Rightarrow> nat \<Rightarrow> kernel \<Rightarrow> kernel res" where
  "fileclose E f s =
     andthen (kacquire Lftable s) (\<lambda>s.
     if f_ref (files s f) < 1 then panic ''fileclose''
     else
       let s = set_file f (\<lambda>x. x\<lparr>f_ref := f_ref x - 1\<rparr>) s
       in if f_ref (files s f) > 0 then krelease Lftable s
          else
            let ff = files s f
            in andthen (krelease Lftable (set_file f (\<lambda>x. x\<lparr>f_ref := 0, ftype := FD_NONE\<rparr>) s)) (\<lambda>s.
               if ftype ff = FD_PIPE then pipeclose (f_pipe ff) (writable ff) s
               else if ftype ff = FD_INODE \<or> ftype ff = FD_DEVICE
               then andthen (begin_op E s) (\<lambda>s. andthen (iput E (f_ip ff) s) (\<lambda>s. end_op E s))
               else Inr s))"

definition close_opt :: "env \<Rightarrow> nat option \<Rightarrow> kernel \<Rightarrow> kernel res" where
  "close_opt E f s = (case f of None \<Rightarrow> Inr s | Some f \<Rightarrow> fileclose E f s)"

definition pipealloc_bad ::
  "env \<Rightarrow> nat option \<Rightarrow> nat option \<Rightarrow> kernel \<Rightarrow> ((nat \<times> nat) option \<times> kernel) res" where
  "pipealloc_bad E f0 f1 s =
     andthen (close_opt E f0 s) (\<lambda>s. andthen (close_opt E f1 s) (\<lambda>s. Inr (None, s)))"

text \<open>\<open>pi\<close> is still 0 whenever the code jumps to \<open>bad\<close>, so its \<open>kfree\<close> is never reached.\<close>

definition pipealloc :: "env \<Rightarrow> kernel \<Rightarrow> ((nat \<times> nat) option \<times> kernel) res" where
  "pipealloc E s =
     andthen (filealloc s) (\<lambda>(f0, s).
     case f0 of
       None \<Rightarrow> pipealloc_bad E None None s
     | Some f0 \<Rightarrow>
         andthen (filealloc s) (\<lambda>(f1, s).
         case f1 of
           None \<Rightarrow> pipealloc_bad E (Some f0) None s
         | Some f1 \<Rightarrow>
             andthen (kalloc s) (\<lambda>(pi, s).
             if pi = 0 then pipealloc_bad E (Some f0) (Some f1) s
             else
               let s = set_pipe pi (\<lambda>x. x\<lparr>readopen := True, writeopen := True, nwrite := 0, nread := 0\<rparr>) s;
                   s = set_file f0 (\<lambda>x. x\<lparr>ftype := FD_PIPE, readable := True, writable := False, f_pipe := pi\<rparr>) s;
                   s = set_file f1 (\<lambda>x. x\<lparr>ftype := FD_PIPE, readable := False, writable := True, f_pipe := pi\<rparr>) s
               in Inr (Some (f0, f1), s))))"

text \<open>\<^verbatim>\<open>struct stat\<close> in memory; the four padding bytes before the size are never set.\<close>

definition stat_bytes :: "env \<Rightarrow> stat \<Rightarrow> u8 list" where
  "stat_bytes E st =
     word_bytes 4 (st_dev st) @ word_bytes 4 (st_ino st) @ word_bytes 2 (st_type st) @
     word_bytes 2 (st_nlink st) @ map (garbage E) [12..<16] @ word_bytes 8 (st_size st)"

definition filestat :: "env \<Rightarrow> nat \<Rightarrow> u64 \<Rightarrow> kernel \<Rightarrow> (int \<times> kernel) res" where
  "filestat E f addr s =
     (let ff = files s f
      in if ftype ff = FD_INODE \<or> ftype ff = FD_DEVICE
         then andthen (my s) (\<lambda>p.
              andthen (ilock E (f_ip ff) s) (\<lambda>s.
              let st = stati (f_ip ff) s
              in andthen (iunlock (f_ip ff) s) (\<lambda>s.
                 andthen (copyout (pagetable (procs s p)) addr (stat_bytes E st) 24 s) (\<lambda>(r, s).
                 Inr (if r < 0 then -1 else 0, s)))))
         else Inr (-1, s))"

definition fileread :: "env \<Rightarrow> nat \<Rightarrow> u64 \<Rightarrow> int \<Rightarrow> kernel \<Rightarrow> (int \<times> kernel) res" where
  "fileread E f addr n s =
     (let ff = files s f
      in if \<not> readable ff then Inr (-1, s)
         else case ftype ff of
           FD_PIPE \<Rightarrow> piperead E (f_pipe ff) addr n s
         | FD_DEVICE \<Rightarrow>
             if sint (f_major ff) < 0 \<or> sint (f_major ff) \<ge> int NDEV \<or> \<not> devsw (f_major ff) then Inr (-1, s)
             else andthen (consoleread E (UAddr addr) n s) (\<lambda>(r, _, s). Inr (r, s))
         | FD_INODE \<Rightarrow>
             andthen (ilock E (f_ip ff) s) (\<lambda>s.
             andthen (readi E (f_ip ff) (UAddr addr) (f_off (files s f)) (word_of_int n) s) (\<lambda>(r, _, s).
             let s = (if r > 0 then set_file f (\<lambda>x. x\<lparr>f_off := f_off x + word_of_int r\<rparr>) s else s)
             in andthen (iunlock (f_ip ff) s) (\<lambda>s. Inr (r, s))))
         | FD_NONE \<Rightarrow> panic ''fileread'')"

text \<open>A write is split so that each part fits one log transaction.\<close>

definition write_max :: int where
  "write_max = ((int MAXOPBLOCKS - 1 - 1 - 2) div 2) * int BSIZE"

primrec filewrite_loop :: "nat \<Rightarrow> env \<Rightarrow> nat \<Rightarrow> u64 \<Rightarrow> int \<Rightarrow> int \<Rightarrow> kernel \<Rightarrow> (int \<times> kernel) res" where
  "filewrite_loop 0 E f addr n i s = Inl (Block ''filewrite'')"
| "filewrite_loop (Suc k) E f addr n i s =
     (if \<not> i < n then Inr (i, s)
      else
        let n1 = (if n - i > write_max then write_max else n - i); ip = f_ip (files s f)
        in andthen (begin_op E s) (\<lambda>s.
           andthen (ilock E ip s) (\<lambda>s.
           andthen (writei E ip (UAddr (addr + word_of_int i)) (f_off (files s f)) (word_of_int n1) s) (\<lambda>(r, s).
           let s = (if r > 0 then set_file f (\<lambda>x. x\<lparr>f_off := f_off x + word_of_int r\<rparr>) s else s)
           in andthen (iunlock ip s) (\<lambda>s.
              andthen (end_op E s) (\<lambda>s.
              if r \<noteq> n1 then Inr (i, s) else filewrite_loop k E f addr n (i + r) s))))))"

definition filewrite :: "env \<Rightarrow> nat \<Rightarrow> u64 \<Rightarrow> int \<Rightarrow> kernel \<Rightarrow> (int \<times> kernel) res" where
  "filewrite E f addr n s =
     (let ff = files s f
      in if \<not> writable ff then Inr (-1, s)
         else case ftype ff of
           FD_PIPE \<Rightarrow> pipewrite E (f_pipe ff) addr n s
         | FD_DEVICE \<Rightarrow>
             if sint (f_major ff) < 0 \<or> sint (f_major ff) \<ge> int NDEV \<or> \<not> devsw (f_major ff) then Inr (-1, s)
             else consolewrite E (UAddr addr) n s
         | FD_INODE \<Rightarrow>
             andthen (filewrite_loop (nat (n div write_max) + 2) E f addr n 0 s) (\<lambda>(i, s).
             Inr (if i = n then n else -1, s))
         | FD_NONE \<Rightarrow> panic ''filewrite'')"

end
