(* ===== verification/Exec.thy ===== *)
theory Exec
  imports File
begin

unbundle bit_operations_syntax

text \<open>
  \<^verbatim>\<open>exec.c\<close>: replacing the memory image of a process. The two cleanup paths of the code
  (\<open>goto bad\<close> before and after the executable is released) are \<open>exec_bad\<close> and
  \<open>exec_bad_late\<close>. Argument strings are byte lists without the nul.
\<close>

section \<open>elf.h\<close>

definition ELF_MAGIC :: u32 where "ELF_MAGIC = 0x464C457F"
definition ELF_PROG_LOAD :: u32 where "ELF_PROG_LOAD = 1"

record elfhdr =
  e_magic :: u32
  e_entry :: u64
  e_phoff :: u64
  e_phnum :: u16

record proghdr =
  ph_type :: u32
  ph_flags :: u32
  ph_off :: u64
  ph_vaddr :: u64
  ph_filesz :: u64
  ph_memsz :: u64

definition get_elfhdr :: "u8 list \<Rightarrow> elfhdr" where
  "get_elfhdr d = \<lparr>e_magic = get32 d 0, e_entry = get64 d 24, e_phoff = get64 d 32, e_phnum = get16 d 56\<rparr>"

definition get_proghdr :: "u8 list \<Rightarrow> proghdr" where
  "get_proghdr d =
     \<lparr>ph_type = get32 d 0, ph_flags = get32 d 4, ph_off = get64 d 8, ph_vaddr = get64 d 16,
      ph_filesz = get64 d 32, ph_memsz = get64 d 40\<rparr>"

section \<open>Loading\<close>

definition flags2perm :: "u32 \<Rightarrow> u64" where
  "flags2perm flags =
     (let perm = (if flags AND 1 \<noteq> 0 then PTE_X else 0)
      in if flags AND 2 \<noteq> 0 then perm OR PTE_W else perm)"

primrec loadseg_loop ::
  "nat \<Rightarrow> env \<Rightarrow> u64 \<Rightarrow> u64 \<Rightarrow> nat \<Rightarrow> u32 \<Rightarrow> u32 \<Rightarrow> u32 \<Rightarrow> kernel \<Rightarrow> (int \<times> kernel) res" where
  "loadseg_loop 0 E pt va ip off lim i s = Inl (Block ''loadseg'')"
| "loadseg_loop (Suc k) E pt va ip off lim i s =
     (if \<not> i < lim then Inr (0, s)
      else andthen (walkaddr pt (va + ucast i) s) (\<lambda>(pa, s).
        if pa = 0 then panic ''loadseg: address should exist''
        else
          let n = (if lim - i < 4096 then lim - i else 4096)
          in andthen (readi E ip (PAddr pa) (off + i) n s) (\<lambda>(r, _, s).
             if r \<noteq> sint n then Inr (-1, s)
             else loadseg_loop k E pt va ip off lim (i + 4096) s)))"

definition loadseg :: "env \<Rightarrow> u64 \<Rightarrow> u64 \<Rightarrow> nat \<Rightarrow> u32 \<Rightarrow> u32 \<Rightarrow> kernel \<Rightarrow> (int \<times> kernel) res" where
  "loadseg E pt va ip off lim s = loadseg_loop (unat lim div 4096 + 2) E pt va ip off lim 0 s"

text \<open>The loop over the program headers: the flag says whether every segment was loaded,
  the number is the size of the image so far.\<close>

primrec load_phdrs ::
  "nat \<Rightarrow> env \<Rightarrow> u64 \<Rightarrow> nat \<Rightarrow> u32 \<Rightarrow> u64 \<Rightarrow> kernel \<Rightarrow> (bool \<times> u64 \<times> kernel) res" where
  "load_phdrs 0 E pt ip off lim s = Inr (True, lim, s)"
| "load_phdrs (Suc k) E pt ip off lim s =
     andthen (readi E ip (Local []) off 56 s) (\<lambda>(r, dst, s).
     let ph = get_proghdr (local_bytes dst)
     in if r \<noteq> 56 then Inr (False, lim, s)
        else if ph_type ph \<noteq> ELF_PROG_LOAD then load_phdrs k E pt ip (off + 56) lim s
        else if ph_memsz ph < ph_filesz ph then Inr (False, lim, s)
        else if ph_vaddr ph + ph_memsz ph < ph_vaddr ph then Inr (False, lim, s)
        else if ph_vaddr ph mod PGSIZE \<noteq> 0 then Inr (False, lim, s)
        else andthen (uvmalloc pt lim (ph_vaddr ph + ph_memsz ph) (flags2perm (ph_flags ph)) s) (\<lambda>(sz1, s).
          if sz1 = 0 then Inr (False, lim, s)
          else andthen (loadseg E pt (ph_vaddr ph) ip (ucast (ph_off ph)) (ucast (ph_filesz ph)) s) (\<lambda>(r, s).
            if r < 0 then Inr (False, sz1, s)
            else load_phdrs k E pt ip (off + 56) sz1 s)))"

section \<open>Arguments\<close>

text \<open>Copying the argument strings to the new stack, from \<open>sp\<close> down; the result is the stack
  pointer and the addresses of the strings, or \<open>None\<close> for \<open>goto bad\<close>.\<close>

primrec push_args ::
  "u8 list list \<Rightarrow> u64 \<Rightarrow> u64 \<Rightarrow> u64 \<Rightarrow> u64 list \<Rightarrow> kernel \<Rightarrow> ((u64 \<times> u64 list) option \<times> kernel) res" where
  "push_args [] pt base sp ustack s = Inr (Some (sp, ustack), s)"
| "push_args (a # as) pt base sp ustack s =
     (if length ustack \<ge> MAXARG then Inr (None, s)
      else
        let sp = sp - of_nat (length a + 1);
            sp = sp - sp mod 16
        in if sp < base then Inr (None, s)
           else andthen (copyout pt sp (a @ [0]) (of_nat (length a + 1)) s) (\<lambda>(r, s).
             if r < 0 then Inr (None, s) else push_args as pt base sp (ustack @ [sp]) s))"

primrec last_elem :: "u8 list \<Rightarrow> u8 list \<Rightarrow> u8 list" where
  "last_elem [] lst = lst"
| "last_elem (c # cs) lst = last_elem cs (if c = 47 then cs else lst)"

section \<open>kexec\<close>

definition exec_bad :: "env \<Rightarrow> u64 \<Rightarrow> u64 \<Rightarrow> nat \<Rightarrow> kernel \<Rightarrow> (int \<times> kernel) res" where
  "exec_bad E pt lim ip s =
     andthen (if pt \<noteq> 0 then proc_freepagetable pt lim s else Inr s) (\<lambda>s.
     andthen (iunlockput E ip s) (\<lambda>s.
     andthen (end_op E s) (\<lambda>s. Inr (-1, s))))"

definition exec_bad_late :: "u64 \<Rightarrow> u64 \<Rightarrow> kernel \<Rightarrow> (int \<times> kernel) res" where
  "exec_bad_late pt lim s = andthen (proc_freepagetable pt lim s) (\<lambda>s. Inr (-1, s))"

text \<open>From the committed image on: registers, name, page table, and the old image freed.\<close>

definition exec_commit ::
  "nat \<Rightarrow> u8 list \<Rightarrow> u64 \<Rightarrow> u64 \<Rightarrow> u64 \<Rightarrow> u64 \<Rightarrow> u64 \<Rightarrow> int \<Rightarrow> kernel \<Rightarrow> (int \<times> kernel) res" where
  "exec_commit p path pt lim oldsz entr sp argc s =
     (let s = tf_set p (tf_a 1) sp s;
          nm = safestrcpy (cstr (last_elem path path)) 16;
          s = set_proc p (\<lambda>x. x\<lparr>p_name := put_at (p_name x) 0 nm\<rparr>) s;
          oldpt = pagetable (procs s p);
          s = set_proc p (\<lambda>x. x\<lparr>pagetable := pt, sz := lim\<rparr>) s;
          s = tf_set p tf_epc entr s;
          s = tf_set p tf_sp sp s
      in andthen (proc_freepagetable oldpt oldsz s) (\<lambda>s. Inr (argc, s)))"

definition exec_stack ::
  "nat \<Rightarrow> u8 list \<Rightarrow> u8 list list \<Rightarrow> u64 \<Rightarrow> u64 \<Rightarrow> u64 \<Rightarrow> kernel \<Rightarrow> (int \<times> kernel) res" where
  "exec_stack p path argv pt lim entr s =
     (let oldsz = sz (procs s p);
          lim = PGROUNDUP lim;
          guard_page_va = lim;
          lim = lim + PGSIZE
      in andthen (uvmalloc pt lim (lim + USERSTACK * PGSIZE) PTE_W s) (\<lambda>(sz1, s).
         if sz1 = 0 then exec_bad_late pt lim s
         else andthen (uvmclear pt guard_page_va s) (\<lambda>s.
           let sp = sz1; stackbase = sp - USERSTACK * PGSIZE
           in andthen (push_args argv pt stackbase sp [] s) (\<lambda>(r, s).
              case r of
                None \<Rightarrow> exec_bad_late pt sz1 s
              | Some (sp, ustack) \<Rightarrow>
                  if length ustack \<ge> MAXARG then Inl (Block ''ustack'')
                  else
                    let argc = length ustack;
                        sp = sp - of_nat (argc + 1) * 8;
                        sp = sp - sp mod 16
                    in if sp < stackbase then exec_bad_late pt sz1 s
                       else andthen (copyout pt sp (concat (map (word_bytes 8) (ustack @ [0])))
                              (of_nat (argc + 1) * 8) s) (\<lambda>(r, s).
                         if r < 0 then exec_bad_late pt sz1 s
                         else exec_commit p path pt sz1 oldsz entr sp (int argc) s)))))"

definition kexec :: "env \<Rightarrow> u8 list \<Rightarrow> u8 list list \<Rightarrow> kernel \<Rightarrow> (int \<times> kernel) res" where
  "kexec E path argv s =
     andthen (my s) (\<lambda>p.
     andthen (begin_op E s) (\<lambda>s.
     andthen (namei E path s) (\<lambda>(r, s).
     case r of
       None \<Rightarrow> andthen (end_op E s) (\<lambda>s. Inr (-1, s))
     | Some ip \<Rightarrow>
         andthen (ilock E ip s) (\<lambda>s.
         andthen (readi E ip (Local []) 0 64 s) (\<lambda>(r, dst, s).
         let elf = get_elfhdr (local_bytes dst)
         in if r \<noteq> 64 then exec_bad E 0 0 ip s
            else if e_magic elf \<noteq> ELF_MAGIC then exec_bad E 0 0 ip s
            else andthen (proc_pagetable p s) (\<lambda>(pt, s).
              if pt = 0 then exec_bad E 0 0 ip s
              else andthen (load_phdrs (unat (e_phnum elf)) E pt ip (ucast (e_phoff elf)) 0 s) (\<lambda>(ok, lim, s).
                if \<not> ok then exec_bad E pt lim ip s
                else andthen (iunlockput E ip s) (\<lambda>s.
                     andthen (end_op E s) (\<lambda>s.
                     exec_stack p path argv pt lim (e_entry elf) s)))))))))"

end
