(* ===== verification/Fork.thy ===== *)
theory Fork
  imports Exec
begin

unbundle bit_operations_syntax

text \<open>
  The second half of \<^verbatim>\<open>proc.c\<close>: the first process, \<open>fork\<close>, \<open>exit\<close> and \<open>wait\<close>.
\<close>

definition userinit :: "env \<Rightarrow> kernel \<Rightarrow> kernel res" where
  "userinit E s =
     andthen (allocproc s) (\<lambda>(r, s).
     case r of
       None \<Rightarrow> Inl (Block ''null process'')
     | Some p \<Rightarrow>
         let s = s\<lparr>initproc := Some p\<rparr>
         in andthen (namei E (bytes_of ''/'') s) (\<lambda>(ip, s).
            krelease (Lproc p) (set_proc p (\<lambda>x. x\<lparr>cwd := ip, state := RUNNABLE\<rparr>) s)))"

text \<open>The copy of the file descriptors.\<close>

primrec dup_files :: "nat \<Rightarrow> nat \<Rightarrow> nat list \<Rightarrow> kernel \<Rightarrow> kernel res" where
  "dup_files p np [] s = Inr s"
| "dup_files p np (i # ns) s =
     (case ofile (procs s p) i of
        None \<Rightarrow> dup_files p np ns s
      | Some f \<Rightarrow>
          andthen (filedup f s) (\<lambda>(f, s).
          dup_files p np ns (set_proc np (\<lambda>x. x\<lparr>ofile := (ofile x)(i := Some f)\<rparr>) s)))"

definition kfork :: "kernel \<Rightarrow> (int \<times> kernel) res" where
  "kfork s =
     andthen (my s) (\<lambda>p.
     andthen (allocproc s) (\<lambda>(r, s).
     case r of
       None \<Rightarrow> Inr (-1, s)
     | Some np \<Rightarrow>
         andthen (uvmcopy (pagetable (procs s p)) (pagetable (procs s np)) (sz (procs s p)) s) (\<lambda>(r, s).
         if r < 0
         then andthen (freeproc np s) (\<lambda>s. andthen (krelease (Lproc np) s) (\<lambda>s. Inr (-1, s)))
         else
           let s = set_proc np (\<lambda>x. x\<lparr>sz := sz (procs s p)\<rparr>) s;
               s = s\<lparr>mem := put_bytes (mem s) (trapframe (procs s np)) (get_bytes (mem s) (trapframe (procs s p)) tf_size)\<rparr>;
               s = tf_set np (tf_a 0) 0 s
           in andthen (dup_files p np [0..<NOFILE] s) (\<lambda>s.
              case cwd (procs s p) of
                None \<Rightarrow> Inl (Block ''null inode'')
              | Some c \<Rightarrow>
                  andthen (idup c s) (\<lambda>(c, s).
                  let s = set_proc np (\<lambda>x. x\<lparr>cwd := Some c,
                            p_name := put_at (p_name x) 0 (safestrcpy (cstr (p_name (procs s p))) 16)\<rparr>) s;
                      i = pid (procs s np)
                  in andthen (krelease (Lproc np) s) (\<lambda>s.
                     andthen (kacquire Lwait s) (\<lambda>s.
                     andthen (krelease Lwait (set_proc np (parent_update (\<lambda>_. Some p)) s)) (\<lambda>s.
                     andthen (kacquire (Lproc np) s) (\<lambda>s.
                     andthen (krelease (Lproc np) (set_proc np (state_update (\<lambda>_. RUNNABLE)) s)) (\<lambda>s.
                     Inr (i, s)))))))))))"

primrec close_files :: "env \<Rightarrow> nat \<Rightarrow> nat list \<Rightarrow> kernel \<Rightarrow> kernel res" where
  "close_files E p [] s = Inr s"
| "close_files E p (fd # ns) s =
     (case ofile (procs s p) fd of
        None \<Rightarrow> close_files E p ns s
      | Some f \<Rightarrow>
          andthen (fileclose E f s) (\<lambda>s.
          close_files E p ns (set_proc p (\<lambda>x. x\<lparr>ofile := (ofile x)(fd := None)\<rparr>) s)))"

text \<open>\<open>kexit\<close> up to the switch to the scheduler, and with it; the second does not return.\<close>

definition kexit_zombie :: "env \<Rightarrow> int \<Rightarrow> kernel \<Rightarrow> kernel res" where
  "kexit_zombie E status s =
     andthen (my s) (\<lambda>p.
     if initproc s = Some p then panic ''init exiting''
     else andthen (close_files E p [0..<NOFILE] s) (\<lambda>s.
       andthen (begin_op E s) (\<lambda>s.
       case cwd (procs s p) of
         None \<Rightarrow> Inl (Block ''null inode'')
       | Some c \<Rightarrow>
           andthen (iput E c s) (\<lambda>s.
           andthen (end_op E s) (\<lambda>s.
           andthen (kacquire Lwait (set_proc p (cwd_update (\<lambda>_. None)) s)) (\<lambda>s.
           andthen (reparent p s) (\<lambda>s.
           andthen (wakeup (map_option ChProc (parent (procs s p))) s) (\<lambda>s.
           andthen (kacquire (Lproc p) s) (\<lambda>s.
           krelease Lwait (set_proc p (\<lambda>x. x\<lparr>xstate := status, state := ZOMBIE\<rparr>) s)))))))))) "

definition kexit :: "env \<Rightarrow> int \<Rightarrow> kernel \<Rightarrow> kernel res" where
  "kexit E status s =
     andthen (kexit_zombie E status s) (\<lambda>s.
     andthen (sched E s) (\<lambda>s. panic ''zombie exit''))"

text \<open>One scan of \<open>kwait\<close>: the result of the call, with the locks released, or whether the
  process has children.\<close>

primrec kwait_scan ::
  "nat \<Rightarrow> u64 \<Rightarrow> nat list \<Rightarrow> bool \<Rightarrow> kernel \<Rightarrow> ((int + bool) \<times> kernel) res" where
  "kwait_scan p addr [] havekids s = Inr (Inr havekids, s)"
| "kwait_scan p addr (pp # ps) havekids s =
     (if parent (procs s pp) = Some p
      then andthen (kacquire (Lproc pp) s) (\<lambda>s.
        if state (procs s pp) = ZOMBIE
        then
          let i = pid (procs s pp)
          in andthen
               (if addr \<noteq> 0
                then copyout (pagetable (procs s p)) addr (word_bytes 4 (word_of_int (xstate (procs s pp)) :: u32)) 4 s
                else Inr (0, s)) (\<lambda>(r, s).
             if r < 0
             then andthen (krelease (Lproc pp) s) (\<lambda>s.
                  andthen (krelease Lwait s) (\<lambda>s. Inr (Inl (-1), s)))
             else andthen (freeproc pp s) (\<lambda>s.
                  andthen (krelease (Lproc pp) s) (\<lambda>s.
                  andthen (krelease Lwait s) (\<lambda>s. Inr (Inl i, s)))))
        else andthen (krelease (Lproc pp) s) (\<lambda>s. kwait_scan p addr ps True s))
      else kwait_scan p addr ps havekids s)"

primrec kwait_loop :: "nat \<Rightarrow> env \<Rightarrow> nat \<Rightarrow> u64 \<Rightarrow> kernel \<Rightarrow> (int \<times> kernel) res" where
  "kwait_loop 0 E p addr s = Inl (Block ''kwait'')"
| "kwait_loop (Suc k) E p addr s =
     andthen (kwait_scan p addr [0..<NPROC] False s) (\<lambda>(r, s).
     case r of
       Inl i \<Rightarrow> Inr (i, s)
     | Inr havekids \<Rightarrow>
         andthen (if \<not> havekids then Inr (True, s) else killed p s) (\<lambda>(stop, s).
         if stop then andthen (krelease Lwait s) (\<lambda>s. Inr (-1, s))
         else andthen (sleep E (ChProc p) Lwait s) (\<lambda>s. kwait_loop k E p addr s)))"

definition kwait :: "env \<Rightarrow> u64 \<Rightarrow> kernel \<Rightarrow> (int \<times> kernel) res" where
  "kwait E addr s =
     andthen (my s) (\<lambda>p.
     andthen (kacquire Lwait s) (\<lambda>s. kwait_loop (patience E + 1) E p addr s))"

end
