(* ===== verification/Sysfile.thy ===== *)
theory Sysfile
  imports Fork
begin

unbundle bit_operations_syntax

text \<open>
  The argument functions of \<^verbatim>\<open>syscall.c\<close> and the file system calls of \<^verbatim>\<open>sysfile.c\<close>.
  A call returns the integer the code returns and the new state.
\<close>

section \<open>System call arguments\<close>

definition fetchaddr :: "u64 \<Rightarrow> 'z kst_scheme \<Rightarrow> (u64 option \<times> 'z kst_scheme) res" where
  "fetchaddr addr s =
     andthen (my s) (\<lambda>p.
     if addr \<ge> sz (procs s p) \<or> addr + 8 > sz (procs s p) then Inr (None, s)
     else andthen (copyin (pagetable (procs s p)) addr 8 s) (\<lambda>(r, bs, s).
       if r \<noteq> 0 then Inr (None, s) else Inr (Some (get64 bs 0), s)))"

text \<open>\<open>fetchstr\<close> returns the string without its nul; its length is the value the code
  returns.\<close>

definition fetchstr :: "u64 \<Rightarrow> nat \<Rightarrow> 'z kst_scheme \<Rightarrow> (u8 list option \<times> 'z kst_scheme) res" where
  "fetchstr addr mx s =
     andthen (my s) (\<lambda>p.
     andthen (copyinstr (pagetable (procs s p)) addr (of_nat mx) s) (\<lambda>(r, bs, s).
     if r < 0 then Inr (None, s) else Inr (Some (takeWhile (\<lambda>b. b \<noteq> 0) bs), s)))"

definition argraw :: "nat \<Rightarrow> 'z kst_scheme \<Rightarrow> u64 res" where
  "argraw n s = andthen (my s) (\<lambda>p. if n \<le> 5 then Inr (tf_get s p (tf_a n)) else panic ''argraw'')"

definition argint :: "nat \<Rightarrow> 'z kst_scheme \<Rightarrow> int res" where
  "argint n s = andthen (argraw n s) (\<lambda>v. Inr (sint (ucast v :: u32)))"

definition argaddr :: "nat \<Rightarrow> 'z kst_scheme \<Rightarrow> u64 res" where
  "argaddr n s = argraw n s"

definition argstr :: "nat \<Rightarrow> nat \<Rightarrow> 'z kst_scheme \<Rightarrow> (u8 list option \<times> 'z kst_scheme) res" where
  "argstr n mx s = andthen (argaddr n s) (\<lambda>addr. fetchstr addr mx s)"

section \<open>File descriptors\<close>

definition argfd :: "nat \<Rightarrow> kernel \<Rightarrow> (nat \<times> nat) option res" where
  "argfd n s =
     andthen (argint n s) (\<lambda>fd.
     andthen (my s) (\<lambda>p.
     if fd < 0 \<or> fd \<ge> int NOFILE then Inr None
     else case ofile (procs s p) (nat fd) of None \<Rightarrow> Inr None | Some f \<Rightarrow> Inr (Some (nat fd, f))))"

primrec fdalloc_scan :: "nat list \<Rightarrow> nat \<Rightarrow> nat \<Rightarrow> kernel \<Rightarrow> int \<times> kernel" where
  "fdalloc_scan [] p f s = (-1, s)"
| "fdalloc_scan (fd # ns) p f s =
     (if ofile (procs s p) fd = None
      then (int fd, set_proc p (\<lambda>x. x\<lparr>ofile := (ofile x)(fd := Some f)\<rparr>) s)
      else fdalloc_scan ns p f s)"

definition fdalloc :: "nat \<Rightarrow> kernel \<Rightarrow> (int \<times> kernel) res" where
  "fdalloc f s = andthen (my s) (\<lambda>p. Inr (fdalloc_scan [0..<NOFILE] p f s))"

definition clear_fd :: "int \<Rightarrow> kernel \<Rightarrow> kernel res" where
  "clear_fd fd s = andthen (my s) (\<lambda>p. Inr (set_proc p (\<lambda>x. x\<lparr>ofile := (ofile x)(nat fd := None)\<rparr>) s))"

definition sys_dup :: "kernel \<Rightarrow> (int \<times> kernel) res" where
  "sys_dup s =
     andthen (argfd 0 s) (\<lambda>r.
     case r of
       None \<Rightarrow> Inr (-1, s)
     | Some (_, f) \<Rightarrow>
         andthen (fdalloc f s) (\<lambda>(fd, s).
         if fd < 0 then Inr (-1, s)
         else andthen (filedup f s) (\<lambda>(_, s). Inr (fd, s))))"

definition sys_read :: "env \<Rightarrow> kernel \<Rightarrow> (int \<times> kernel) res" where
  "sys_read E s =
     andthen (argaddr 1 s) (\<lambda>a.
     andthen (argint 2 s) (\<lambda>n.
     andthen (argfd 0 s) (\<lambda>r.
     case r of None \<Rightarrow> Inr (-1, s) | Some (_, f) \<Rightarrow> fileread E f a n s)))"

definition sys_write :: "env \<Rightarrow> kernel \<Rightarrow> (int \<times> kernel) res" where
  "sys_write E s =
     andthen (argaddr 1 s) (\<lambda>a.
     andthen (argint 2 s) (\<lambda>n.
     andthen (argfd 0 s) (\<lambda>r.
     case r of None \<Rightarrow> Inr (-1, s) | Some (_, f) \<Rightarrow> filewrite E f a n s)))"

definition sys_close :: "env \<Rightarrow> kernel \<Rightarrow> (int \<times> kernel) res" where
  "sys_close E s =
     andthen (argfd 0 s) (\<lambda>r.
     case r of
       None \<Rightarrow> Inr (-1, s)
     | Some (fd, f) \<Rightarrow>
         andthen (clear_fd (int fd) s) (\<lambda>s. andthen (fileclose E f s) (\<lambda>s. Inr (0, s))))"

definition sys_fstat :: "env \<Rightarrow> kernel \<Rightarrow> (int \<times> kernel) res" where
  "sys_fstat E s =
     andthen (argaddr 1 s) (\<lambda>a.
     andthen (argfd 0 s) (\<lambda>r.
     case r of None \<Rightarrow> Inr (-1, s) | Some (_, f) \<Rightarrow> filestat E f a s))"

section \<open>Names\<close>

definition sys_link_bad :: "env \<Rightarrow> nat \<Rightarrow> kernel \<Rightarrow> (int \<times> kernel) res" where
  "sys_link_bad E ip s =
     andthen (ilock E ip s) (\<lambda>s.
     andthen (iupdate E ip (set_inode ip (\<lambda>x. x\<lparr>nlink := nlink x - 1\<rparr>) s)) (\<lambda>s.
     andthen (iunlockput E ip s) (\<lambda>s.
     andthen (end_op E s) (\<lambda>s. Inr (-1, s)))))"

definition sys_link :: "env \<Rightarrow> kernel \<Rightarrow> (int \<times> kernel) res" where
  "sys_link E s =
     andthen (argstr 0 MAXPATH s) (\<lambda>(old, s).
     case old of None \<Rightarrow> Inr (-1, s) | Some old \<Rightarrow>
     andthen (argstr 1 MAXPATH s) (\<lambda>(new, s).
     case new of None \<Rightarrow> Inr (-1, s) | Some new \<Rightarrow>
     andthen (begin_op E s) (\<lambda>s.
     andthen (namei E old s) (\<lambda>(r, s).
     case r of None \<Rightarrow> andthen (end_op E s) (\<lambda>s. Inr (-1, s)) | Some ip \<Rightarrow>
     andthen (ilock E ip s) (\<lambda>s.
     if i_type (inodes s ip) = T_DIR
     then andthen (iunlockput E ip s) (\<lambda>s. andthen (end_op E s) (\<lambda>s. Inr (-1, s)))
     else
       andthen (iupdate E ip (set_inode ip (\<lambda>x. x\<lparr>nlink := nlink x + 1\<rparr>) s)) (\<lambda>s.
       andthen (iunlock ip s) (\<lambda>s.
       andthen (nameiparent E new (replicate DIRSIZ 0) s) (\<lambda>(r, name, s).
       case r of None \<Rightarrow> sys_link_bad E ip s | Some dp \<Rightarrow>
       andthen (ilock E dp s) (\<lambda>s.
       andthen (if i_dev (inodes s dp) \<noteq> i_dev (inodes s ip) then Inr (-1, s)
                else dirlink E dp name (inum (inodes s ip)) s) (\<lambda>(r, s).
       if r < 0 then andthen (iunlockput E dp s) (\<lambda>s. sys_link_bad E ip s)
       else andthen (iunlockput E dp s) (\<lambda>s.
            andthen (iput E ip s) (\<lambda>s.
            andthen (end_op E s) (\<lambda>s. Inr (0, s))))))))))))))"

primrec isdirempty_loop :: "nat \<Rightarrow> env \<Rightarrow> nat \<Rightarrow> u32 \<Rightarrow> kernel \<Rightarrow> (bool \<times> kernel) res" where
  "isdirempty_loop 0 E dp off s = Inl (Block ''isdirempty'')"
| "isdirempty_loop (Suc k) E dp off s =
     (if \<not> off < i_size (inodes s dp) then Inr (True, s)
      else andthen (read_dirent E ''isdirempty: readi'' dp off s) (\<lambda>(de, s).
        if de_inum de \<noteq> 0 then Inr (False, s) else isdirempty_loop k E dp (off + 16) s))"

definition isdirempty :: "env \<Rightarrow> nat \<Rightarrow> kernel \<Rightarrow> (bool \<times> kernel) res" where
  "isdirempty E dp s = isdirempty_loop (unat (i_size (inodes s dp)) div 16 + 2) E dp 32 s"

definition sys_unlink_bad :: "env \<Rightarrow> nat \<Rightarrow> kernel \<Rightarrow> (int \<times> kernel) res" where
  "sys_unlink_bad E dp s =
     andthen (iunlockput E dp s) (\<lambda>s. andthen (end_op E s) (\<lambda>s. Inr (-1, s)))"

definition sys_unlink :: "env \<Rightarrow> kernel \<Rightarrow> (int \<times> kernel) res" where
  "sys_unlink E s =
     andthen (argstr 0 MAXPATH s) (\<lambda>(path, s).
     case path of None \<Rightarrow> Inr (-1, s) | Some path \<Rightarrow>
     andthen (begin_op E s) (\<lambda>s.
     andthen (nameiparent E path (replicate DIRSIZ 0) s) (\<lambda>(r, name, s).
     case r of None \<Rightarrow> andthen (end_op E s) (\<lambda>s. Inr (-1, s)) | Some dp \<Rightarrow>
     andthen (ilock E dp s) (\<lambda>s.
     if namecmp name (bytes_of ''.'') = 0 \<or> namecmp name (bytes_of ''..'') = 0 then sys_unlink_bad E dp s
     else andthen (dirlookup E dp name s) (\<lambda>(r, s).
     case r of None \<Rightarrow> sys_unlink_bad E dp s | Some (ip, off) \<Rightarrow>
     andthen (ilock E ip s) (\<lambda>s.
     if sint (nlink (inodes s ip)) < 1 then panic ''unlink: nlink < 1''
     else andthen (if i_type (inodes s ip) = T_DIR then isdirempty E ip s else Inr (True, s)) (\<lambda>(e, s).
     if \<not> e then andthen (iunlockput E ip s) (\<lambda>s. sys_unlink_bad E dp s)
     else andthen (writei E dp (Local (replicate 16 0)) off 16 s) (\<lambda>(r, s).
     if r \<noteq> 16 then panic ''unlink: writei''
     else andthen (if i_type (inodes s ip) = T_DIR
                   then iupdate E dp (set_inode dp (\<lambda>x. x\<lparr>nlink := nlink x - 1\<rparr>) s) else Inr s) (\<lambda>s.
     andthen (iunlockput E dp s) (\<lambda>s.
     andthen (iupdate E ip (set_inode ip (\<lambda>x. x\<lparr>nlink := nlink x - 1\<rparr>) s)) (\<lambda>s.
     andthen (iunlockput E ip s) (\<lambda>s.
     andthen (end_op E s) (\<lambda>s. Inr (0, s))))))))))))))"

definition create_fail :: "env \<Rightarrow> nat \<Rightarrow> nat \<Rightarrow> kernel \<Rightarrow> (nat option \<times> kernel) res" where
  "create_fail E ip dp s =
     andthen (iupdate E ip (set_inode ip (nlink_update (\<lambda>_. 0)) s)) (\<lambda>s.
     andthen (iunlockput E ip s) (\<lambda>s.
     andthen (iunlockput E dp s) (\<lambda>s. Inr (None, s))))"

definition create :: "env \<Rightarrow> u8 list \<Rightarrow> u16 \<Rightarrow> u16 \<Rightarrow> u16 \<Rightarrow> kernel \<Rightarrow> (nat option \<times> kernel) res" where
  "create E path ty major minor s =
     andthen (nameiparent E path (replicate DIRSIZ 0) s) (\<lambda>(r, name, s).
     case r of None \<Rightarrow> Inr (None, s) | Some dp \<Rightarrow>
     andthen (ilock E dp s) (\<lambda>s.
     andthen (dirlookup E dp name s) (\<lambda>(r, s).
     case r of
       Some (ip, _) \<Rightarrow>
         andthen (iunlockput E dp s) (\<lambda>s.
         andthen (ilock E ip s) (\<lambda>s.
         if ty = T_FILE \<and> (i_type (inodes s ip) = T_FILE \<or> i_type (inodes s ip) = T_DEVICE)
         then Inr (Some ip, s)
         else andthen (iunlockput E ip s) (\<lambda>s. Inr (None, s))))
     | None \<Rightarrow>
         andthen (ialloc E (i_dev (inodes s dp)) ty s) (\<lambda>(r, s).
         case r of
           None \<Rightarrow> andthen (iunlockput E dp s) (\<lambda>s. Inr (None, s))
         | Some ip \<Rightarrow>
             andthen (ilock E ip s) (\<lambda>s.
             andthen (iupdate E ip
               (set_inode ip (\<lambda>x. x\<lparr>i_major := major, i_minor := minor, nlink := 1\<rparr>) s)) (\<lambda>s.
             andthen
               (if ty = T_DIR
                then andthen (dirlink E ip (bytes_of ''.'') (inum (inodes s ip)) s) (\<lambda>(r, s).
                     if r < 0 then Inr (-1, s)
                     else dirlink E ip (bytes_of ''..'') (inum (inodes s dp)) s)
                else Inr (0, s)) (\<lambda>(r, s).
             if r < 0 then create_fail E ip dp s
             else andthen (dirlink E dp name (inum (inodes s ip)) s) (\<lambda>(r, s).
             if r < 0 then create_fail E ip dp s
             else andthen (if ty = T_DIR
                           then iupdate E dp (set_inode dp (\<lambda>x. x\<lparr>nlink := nlink x + 1\<rparr>) s)
                           else Inr s) (\<lambda>s.
             andthen (iunlockput E dp s) (\<lambda>s. Inr (Some ip, s)))))))))))"

section \<open>open\<close>

definition O_RDONLY :: u32 where "O_RDONLY = 0"
definition O_WRONLY :: u32 where "O_WRONLY = 1"
definition O_RDWR :: u32 where "O_RDWR = 2"
definition O_CREATE :: u32 where "O_CREATE = 0x200"
definition O_TRUNC :: u32 where "O_TRUNC = 0x400"

definition open_fail :: "env \<Rightarrow> nat \<Rightarrow> kernel \<Rightarrow> (int \<times> kernel) res" where
  "open_fail E ip s =
     andthen (iunlockput E ip s) (\<lambda>s. andthen (end_op E s) (\<lambda>s. Inr (-1, s)))"

definition open_inode :: "env \<Rightarrow> u8 list \<Rightarrow> u32 \<Rightarrow> kernel \<Rightarrow> (nat option \<times> kernel) res" where
  "open_inode E path omode s =
     (if omode AND O_CREATE \<noteq> 0
      then andthen (create E path T_FILE 0 0 s) (\<lambda>(r, s).
        case r of None \<Rightarrow> andthen (end_op E s) (\<lambda>s. Inr (None, s)) | Some ip \<Rightarrow> Inr (Some ip, s))
      else andthen (namei E path s) (\<lambda>(r, s).
        case r of None \<Rightarrow> andthen (end_op E s) (\<lambda>s. Inr (None, s)) | Some ip \<Rightarrow>
        andthen (ilock E ip s) (\<lambda>s.
        if i_type (inodes s ip) = T_DIR \<and> omode \<noteq> O_RDONLY
        then andthen (open_fail E ip s) (\<lambda>(_, s). Inr (None, s))
        else Inr (Some ip, s))))"

definition open_file :: "env \<Rightarrow> nat \<Rightarrow> nat \<Rightarrow> int \<Rightarrow> u32 \<Rightarrow> kernel \<Rightarrow> (int \<times> kernel) res" where
  "open_file E ip f fd omode s =
     (let s = (if i_type (inodes s ip) = T_DEVICE
               then set_file f (\<lambda>x. x\<lparr>ftype := FD_DEVICE, f_major := i_major (inodes s ip)\<rparr>) s
               else set_file f (\<lambda>x. x\<lparr>ftype := FD_INODE, f_off := 0\<rparr>) s);
          s = set_file f (\<lambda>x. x\<lparr>f_ip := ip, readable := (omode AND O_WRONLY = 0),
                writable := (omode AND O_WRONLY \<noteq> 0 \<or> omode AND O_RDWR \<noteq> 0)\<rparr>) s
      in andthen (if omode AND O_TRUNC \<noteq> 0 \<and> i_type (inodes s ip) = T_FILE then itrunc E ip s else Inr s) (\<lambda>s.
         andthen (iunlock ip s) (\<lambda>s.
         andthen (end_op E s) (\<lambda>s. Inr (fd, s)))))"

definition sys_open :: "env \<Rightarrow> kernel \<Rightarrow> (int \<times> kernel) res" where
  "sys_open E s =
     andthen (argint 1 s) (\<lambda>omode.
     let omode = (word_of_int omode :: u32)
     in andthen (argstr 0 MAXPATH s) (\<lambda>(path, s).
     case path of None \<Rightarrow> Inr (-1, s) | Some path \<Rightarrow>
     andthen (begin_op E s) (\<lambda>s.
     andthen (open_inode E path omode s) (\<lambda>(r, s).
     case r of None \<Rightarrow> Inr (-1, s) | Some ip \<Rightarrow>
     if i_type (inodes s ip) = T_DEVICE \<and>
        (sint (i_major (inodes s ip)) < 0 \<or> sint (i_major (inodes s ip)) \<ge> int NDEV)
     then open_fail E ip s
     else andthen (filealloc s) (\<lambda>(f, s).
       case f of None \<Rightarrow> open_fail E ip s | Some f \<Rightarrow>
       andthen (fdalloc f s) (\<lambda>(fd, s).
       if fd < 0 then andthen (fileclose E f s) (\<lambda>s. open_fail E ip s)
       else open_file E ip f fd omode s))))))"

definition sys_mkdir :: "env \<Rightarrow> kernel \<Rightarrow> (int \<times> kernel) res" where
  "sys_mkdir E s =
     andthen (begin_op E s) (\<lambda>s.
     andthen (argstr 0 MAXPATH s) (\<lambda>(path, s).
     andthen (case path of None \<Rightarrow> Inr (None, s) | Some path \<Rightarrow> create E path T_DIR 0 0 s) (\<lambda>(r, s).
     case r of
       None \<Rightarrow> andthen (end_op E s) (\<lambda>s. Inr (-1, s))
     | Some ip \<Rightarrow> andthen (iunlockput E ip s) (\<lambda>s. andthen (end_op E s) (\<lambda>s. Inr (0, s))))))"

definition sys_mknod :: "env \<Rightarrow> kernel \<Rightarrow> (int \<times> kernel) res" where
  "sys_mknod E s =
     andthen (begin_op E s) (\<lambda>s.
     andthen (argint 1 s) (\<lambda>major.
     andthen (argint 2 s) (\<lambda>minor.
     andthen (argstr 0 MAXPATH s) (\<lambda>(path, s).
     andthen (case path of None \<Rightarrow> Inr (None, s)
              | Some path \<Rightarrow> create E path T_DEVICE (word_of_int major) (word_of_int minor) s) (\<lambda>(r, s).
     case r of
       None \<Rightarrow> andthen (end_op E s) (\<lambda>s. Inr (-1, s))
     | Some ip \<Rightarrow> andthen (iunlockput E ip s) (\<lambda>s. andthen (end_op E s) (\<lambda>s. Inr (0, s))))))))"

definition sys_chdir :: "env \<Rightarrow> kernel \<Rightarrow> (int \<times> kernel) res" where
  "sys_chdir E s =
     andthen (my s) (\<lambda>p.
     andthen (begin_op E s) (\<lambda>s.
     andthen (argstr 0 MAXPATH s) (\<lambda>(path, s).
     andthen (case path of None \<Rightarrow> Inr (None, s) | Some path \<Rightarrow> namei E path s) (\<lambda>(r, s).
     case r of
       None \<Rightarrow> andthen (end_op E s) (\<lambda>s. Inr (-1, s))
     | Some ip \<Rightarrow>
         andthen (ilock E ip s) (\<lambda>s.
         if i_type (inodes s ip) \<noteq> T_DIR
         then andthen (iunlockput E ip s) (\<lambda>s. andthen (end_op E s) (\<lambda>s. Inr (-1, s)))
         else andthen (iunlock ip s) (\<lambda>s.
           case cwd (procs s p) of
             None \<Rightarrow> Inl (Block ''null inode'')
           | Some c \<Rightarrow>
               andthen (iput E c s) (\<lambda>s.
               andthen (end_op E s) (\<lambda>s.
               Inr (0, set_proc p (cwd_update (\<lambda>_. Some ip)) s)))))))))"

section \<open>exec and pipe\<close>

text \<open>The arguments of \<open>exec\<close> are fetched into pages of their own; \<open>argv\<close> lists the pages with
  the strings in them, and the flag says whether all of them were fetched.\<close>

primrec fetch_args ::
  "nat \<Rightarrow> u64 \<Rightarrow> nat \<Rightarrow> (u64 \<times> u8 list) list \<Rightarrow> kernel \<Rightarrow> (bool \<times> (u64 \<times> u8 list) list \<times> kernel) res" where
  "fetch_args 0 uargv i argv s = Inr (False, argv, s)"
| "fetch_args (Suc k) uargv i argv s =
     andthen (fetchaddr (uargv + 8 * of_nat i) s) (\<lambda>(uarg, s).
     case uarg of
       None \<Rightarrow> Inr (False, argv, s)
     | Some uarg \<Rightarrow>
         if uarg = 0 then Inr (True, argv, s)
         else andthen (kalloc s) (\<lambda>(pg, s).
           if pg = 0 then Inr (False, argv, s)
           else andthen (fetchstr uarg 4096 s) (\<lambda>(a, s).
             case a of
               None \<Rightarrow> Inr (False, argv @ [(pg, [])], s)
             | Some a \<Rightarrow>
                 fetch_args k uargv (i + 1) (argv @ [(pg, a)])
                   (s\<lparr>mem := put_bytes (mem s) pg (a @ [0])\<rparr>))))"

primrec free_args :: "(u64 \<times> u8 list) list \<Rightarrow> kernel \<Rightarrow> kernel res" where
  "free_args [] s = Inr s"
| "free_args (a # as) s = andthen (kfree (fst a) s) (\<lambda>s. free_args as s)"

definition sys_exec :: "env \<Rightarrow> kernel \<Rightarrow> (int \<times> kernel) res" where
  "sys_exec E s =
     andthen (argaddr 1 s) (\<lambda>uargv.
     andthen (argstr 0 MAXPATH s) (\<lambda>(path, s).
     case path of None \<Rightarrow> Inr (-1, s) | Some path \<Rightarrow>
     andthen (fetch_args MAXARG uargv 0 [] s) (\<lambda>(ok, argv, s).
     if \<not> ok then andthen (free_args argv s) (\<lambda>s. Inr (-1, s))
     else andthen (kexec E path (map snd argv) s) (\<lambda>(r, s).
       andthen (free_args argv s) (\<lambda>s. Inr (r, s))))))"

definition sys_pipe_close :: "env \<Rightarrow> nat \<Rightarrow> nat \<Rightarrow> kernel \<Rightarrow> (int \<times> kernel) res" where
  "sys_pipe_close E rf wrf s =
     andthen (fileclose E rf s) (\<lambda>s. andthen (fileclose E wrf s) (\<lambda>s. Inr (-1, s)))"

definition int_bytes :: "int \<Rightarrow> u8 list" where
  "int_bytes i = word_bytes 4 (word_of_int i :: u32)"

definition sys_pipe :: "env \<Rightarrow> kernel \<Rightarrow> (int \<times> kernel) res" where
  "sys_pipe E s =
     andthen (my s) (\<lambda>p.
     andthen (argaddr 0 s) (\<lambda>fdarray.
     andthen (pipealloc E s) (\<lambda>(r, s).
     case r of None \<Rightarrow> Inr (-1, s) | Some (rf, wrf) \<Rightarrow>
     andthen (fdalloc rf s) (\<lambda>(fd0, s).
     if fd0 < 0 then sys_pipe_close E rf wrf s
     else andthen (fdalloc wrf s) (\<lambda>(fd1, s).
     if fd1 < 0 then andthen (clear_fd fd0 s) (\<lambda>s. sys_pipe_close E rf wrf s)
     else
       let pt = pagetable (procs s p)
       in andthen (copyout pt fdarray (int_bytes fd0) 4 s) (\<lambda>(r, s).
          andthen (if r < 0 then Inr (r, s) else copyout pt (fdarray + 4) (int_bytes fd1) 4 s) (\<lambda>(r, s).
          if r < 0
          then andthen (clear_fd fd0 s) (\<lambda>s.
               andthen (clear_fd fd1 s) (\<lambda>s. sys_pipe_close E rf wrf s))
          else Inr (0, s))))))))"

end
