(* ===== verification/Syscall.thy ===== *)
theory Syscall
  imports Sysfile
begin

unbundle bit_operations_syntax

text \<open>
  \<^verbatim>\<open>sysproc.c\<close> and the dispatcher of \<^verbatim>\<open>syscall.c\<close>, with the system call filter of a
  process.
\<close>

section \<open>sysproc.c\<close>

definition sys_exit :: "env \<Rightarrow> kernel \<Rightarrow> (u64 \<times> kernel) res" where
  "sys_exit E s =
     andthen (argint 0 s) (\<lambda>n. andthen (kexit E n s) (\<lambda>s. Inr (0, s)))"

definition ret_int :: "int \<times> kernel \<Rightarrow> u64 \<times> kernel" where
  "ret_int = (\<lambda>(r, s). (word_of_int r, s))"

definition sys_getpid :: "kernel \<Rightarrow> (u64 \<times> kernel) res" where
  "sys_getpid s = andthen (my s) (\<lambda>p. Inr (word_of_int (pid (procs s p)), s))"

definition sys_fork :: "kernel \<Rightarrow> (u64 \<times> kernel) res" where
  "sys_fork s = andthen (kfork s) (\<lambda>r. Inr (ret_int r))"

definition sys_wait :: "env \<Rightarrow> kernel \<Rightarrow> (u64 \<times> kernel) res" where
  "sys_wait E s =
     andthen (argaddr 0 s) (\<lambda>a. andthen (kwait E a s) (\<lambda>r. Inr (ret_int r)))"

definition SBRK_EAGER :: int where "SBRK_EAGER = 1"
definition SBRK_LAZY :: int where "SBRK_LAZY = 2"

definition sys_sbrk :: "kernel \<Rightarrow> (u64 \<times> kernel) res" where
  "sys_sbrk s =
     andthen (argint 0 s) (\<lambda>n.
     andthen (argint 1 s) (\<lambda>t.
     andthen (my s) (\<lambda>p.
     let addr = sz (procs s p)
     in if t = SBRK_EAGER \<or> n < 0
        then andthen (growproc n s) (\<lambda>(r, s). if r < 0 then Inr (-1, s) else Inr (addr, s))
        else if addr + word_of_int n < addr then Inr (-1, s)
        else if addr + word_of_int n > TRAPFRAME then Inr (-1, s)
        else Inr (addr, set_proc p (\<lambda>x. x\<lparr>sz := sz x + word_of_int n\<rparr>) s))))"

primrec pause_loop :: "nat \<Rightarrow> env \<Rightarrow> u32 \<Rightarrow> u32 \<Rightarrow> kernel \<Rightarrow> (u64 \<times> kernel) res" where
  "pause_loop 0 E ticks0 n s = Inl (Block ''sys_pause'')"
| "pause_loop (Suc k) E ticks0 n s =
     (if ticks s - ticks0 < n
      then andthen (my s) (\<lambda>p.
           andthen (killed p s) (\<lambda>(kl, s).
           if kl then andthen (krelease Ltick s) (\<lambda>s. Inr (-1, s))
           else andthen (sleep E ChTicks Ltick s) (\<lambda>s. pause_loop k E ticks0 n s)))
      else andthen (krelease Ltick s) (\<lambda>s. Inr (0, s)))"

definition sys_pause :: "env \<Rightarrow> kernel \<Rightarrow> (u64 \<times> kernel) res" where
  "sys_pause E s =
     andthen (argint 0 s) (\<lambda>n.
     let n = (if n < 0 then 0 else n)
     in andthen (kacquire Ltick s) (\<lambda>s. pause_loop (patience E + 1) E (ticks s) (word_of_int n) s))"

definition sys_kill :: "kernel \<Rightarrow> (u64 \<times> kernel) res" where
  "sys_kill s = andthen (argint 0 s) (\<lambda>i. andthen (kkill i s) (\<lambda>r. Inr (ret_int r)))"

definition sys_uptime :: "kernel \<Rightarrow> (u64 \<times> kernel) res" where
  "sys_uptime s =
     andthen (kacquire Ltick s) (\<lambda>s.
     let x = ticks s in andthen (krelease Ltick s) (\<lambda>s. Inr (ucast x, s)))"

definition sys_hello :: "env \<Rightarrow> kernel \<Rightarrow> (u64 \<times> kernel) res" where
  "sys_hello E s =
     andthen (printf E (''kernel: hello() dang chay trong kernel!'' @ newline) [] s) (\<lambda>s. Inr (0, s))"

definition ps_state :: "procstate \<Rightarrow> string" where
  "ps_state st =
     (case st of SLEEPING \<Rightarrow> ''sleep'' | RUNNABLE \<Rightarrow> ''runble'' | RUNNING \<Rightarrow> ''run''
      | ZOMBIE \<Rightarrow> ''zombie'' | _ \<Rightarrow> ''???'')"

primrec ps_loop :: "env \<Rightarrow> nat list \<Rightarrow> kernel \<Rightarrow> kernel res" where
  "ps_loop E [] s = Inr s"
| "ps_loop E (p # ps) s =
     (if state (procs s p) = UNUSED then ps_loop E ps s
      else andthen (printf E (''%d'' @ tab @ ''%s'' @ tab @ ''%s'' @ newline)
             [PInt (pid (procs s p)), PStr (Some (bytes_of (ps_state (state (procs s p))))),
              PStr (Some (p_name (procs s p)))] s) (\<lambda>s. ps_loop E ps s))"

definition sys_ps :: "env \<Rightarrow> kernel \<Rightarrow> (u64 \<times> kernel) res" where
  "sys_ps E s =
     andthen (printf E (newline @ ''PID'' @ tab @ ''STATE'' @ tab @ tab @ ''NAME'' @ newline) [] s) (\<lambda>s.
     andthen (ps_loop E [0..<NPROC] s) (\<lambda>s. Inr (0, s)))"

definition sys_memtest :: "env \<Rightarrow> kernel \<Rightarrow> (u64 \<times> kernel) res" where
  "sys_memtest E s =
     andthen (kalloc s) (\<lambda>(pg, s).
     if pg = 0
     then andthen (printf E (''Kernel: Cap phat bo nho THAT BAI!'' @ newline) [] s) (\<lambda>s. Inr (-1, s))
     else andthen (printf E (''Kernel: Da cap phat 4KB tai dia chi vat ly: %p'' @ newline) [PInt (uint pg)] s) (\<lambda>s.
       let s = s\<lparr>mem := (mem s)(pg := 88)\<rparr>
       in andthen (printf E (''Kernel: Ghi thu du lieu vao o nho dau tien: %c'' @ newline) [PInt (uint (mem s pg))] s) (\<lambda>s.
          andthen (kfree pg s) (\<lambda>s.
          andthen (printf E (''Kernel: Da giai phong bo nho.'' @ newline) [] s) (\<lambda>s. Inr (0, s))))))"

definition pte_update_nolock :: "kernel \<Rightarrow> kernel" where
  "pte_update_nolock s = (let temp = shared_pte s in s\<lparr>shared_pte := int32 (temp + 1)\<rparr>)"

definition pte_update_lock :: "kernel \<Rightarrow> kernel res" where
  "pte_update_lock s =
     andthen (kacquire Lpt s) (\<lambda>s.
     let temp = shared_pte s in krelease Lpt (s\<lparr>shared_pte := int32 (temp + 1)\<rparr>))"

definition sys_testnolock :: "kernel \<Rightarrow> (u64 \<times> kernel) res" where
  "sys_testnolock s = (let s = pte_update_nolock s in Inr (word_of_int (shared_pte s), s))"

definition sys_testlock :: "kernel \<Rightarrow> (u64 \<times> kernel) res" where
  "sys_testlock s = andthen (pte_update_lock s) (\<lambda>s. Inr (word_of_int (shared_pte s), s))"

definition sys_getcycles :: "kernel \<Rightarrow> (u64 \<times> kernel) res" where
  "sys_getcycles s =
     andthen (kacquire Ltick s) (\<lambda>s.
     let x = ticks s in andthen (krelease Ltick s) (\<lambda>s. Inr (ucast x, s)))"

definition sys_nullcall :: "kernel \<Rightarrow> (u64 \<times> kernel) res" where
  "sys_nullcall s = Inr (0, s)"

definition sys_set_filter :: "kernel \<Rightarrow> (u64 \<times> kernel) res" where
  "sys_set_filter s =
     andthen (argaddr 0 s) (\<lambda>mk.
     andthen (my s) (\<lambda>p. Inr (0, set_proc p (sc_filter_update (\<lambda>_. mk)) s)))"

section \<open>Dispatch\<close>

definition SYS_fork :: int where "SYS_fork = 1"
definition SYS_exit :: int where "SYS_exit = 2"
definition SYS_wait :: int where "SYS_wait = 3"
definition SYS_pipe :: int where "SYS_pipe = 4"
definition SYS_read :: int where "SYS_read = 5"
definition SYS_kill :: int where "SYS_kill = 6"
definition SYS_exec :: int where "SYS_exec = 7"
definition SYS_fstat :: int where "SYS_fstat = 8"
definition SYS_chdir :: int where "SYS_chdir = 9"
definition SYS_dup :: int where "SYS_dup = 10"
definition SYS_getpid :: int where "SYS_getpid = 11"
definition SYS_sbrk :: int where "SYS_sbrk = 12"
definition SYS_pause :: int where "SYS_pause = 13"
definition SYS_uptime :: int where "SYS_uptime = 14"
definition SYS_open :: int where "SYS_open = 15"
definition SYS_write :: int where "SYS_write = 16"
definition SYS_mknod :: int where "SYS_mknod = 17"
definition SYS_unlink :: int where "SYS_unlink = 18"
definition SYS_link :: int where "SYS_link = 19"
definition SYS_mkdir :: int where "SYS_mkdir = 20"
definition SYS_close :: int where "SYS_close = 21"
definition SYS_hello :: int where "SYS_hello = 22"
definition SYS_ps :: int where "SYS_ps = 23"
definition SYS_memtest :: int where "SYS_memtest = 24"
definition SYS_testnolock :: int where "SYS_testnolock = 25"
definition SYS_testlock :: int where "SYS_testlock = 26"
definition SYS_nullcall :: int where "SYS_nullcall = 27"
definition SYS_getcycles :: int where "SYS_getcycles = 28"
definition SYS_set_filter :: int where "SYS_set_filter = 29"

definition as_u64 :: "(int \<times> kernel) res \<Rightarrow> (u64 \<times> kernel) res" where
  "as_u64 m = andthen m (\<lambda>r. Inr (ret_int r))"

text \<open>The table \<^verbatim>\<open>syscalls[]\<close>: the function of a number, if there is one.\<close>

definition syscalls :: "env \<Rightarrow> int \<Rightarrow> (kernel \<Rightarrow> (u64 \<times> kernel) res) option" where
  "syscalls E num =
     (if num = SYS_fork then Some sys_fork
      else if num = SYS_exit then Some (sys_exit E)
      else if num = SYS_wait then Some (sys_wait E)
      else if num = SYS_pipe then Some (\<lambda>s. as_u64 (sys_pipe E s))
      else if num = SYS_read then Some (\<lambda>s. as_u64 (sys_read E s))
      else if num = SYS_kill then Some sys_kill
      else if num = SYS_exec then Some (\<lambda>s. as_u64 (sys_exec E s))
      else if num = SYS_fstat then Some (\<lambda>s. as_u64 (sys_fstat E s))
      else if num = SYS_chdir then Some (\<lambda>s. as_u64 (sys_chdir E s))
      else if num = SYS_dup then Some (\<lambda>s. as_u64 (sys_dup s))
      else if num = SYS_getpid then Some sys_getpid
      else if num = SYS_sbrk then Some sys_sbrk
      else if num = SYS_pause then Some (sys_pause E)
      else if num = SYS_uptime then Some sys_uptime
      else if num = SYS_open then Some (\<lambda>s. as_u64 (sys_open E s))
      else if num = SYS_write then Some (\<lambda>s. as_u64 (sys_write E s))
      else if num = SYS_mknod then Some (\<lambda>s. as_u64 (sys_mknod E s))
      else if num = SYS_unlink then Some (\<lambda>s. as_u64 (sys_unlink E s))
      else if num = SYS_link then Some (\<lambda>s. as_u64 (sys_link E s))
      else if num = SYS_mkdir then Some (\<lambda>s. as_u64 (sys_mkdir E s))
      else if num = SYS_close then Some (\<lambda>s. as_u64 (sys_close E s))
      else if num = SYS_hello then Some (sys_hello E)
      else if num = SYS_ps then Some (sys_ps E)
      else if num = SYS_memtest then Some (sys_memtest E)
      else if num = SYS_testnolock then Some sys_testnolock
      else if num = SYS_testlock then Some sys_testlock
      else if num = SYS_nullcall then Some sys_nullcall
      else if num = SYS_getcycles then Some sys_getcycles
      else if num = SYS_set_filter then Some sys_set_filter
      else None)"

text \<open>The filter: a process without one may call everything; otherwise bit \<open>num\<close> decides.\<close>

definition filtered :: "proc \<Rightarrow> int \<Rightarrow> bool" where
  "filtered p num \<longleftrightarrow> sc_filter p \<noteq> 0 \<and> drop_bit (nat num) (sc_filter p) AND 1 = 0"

definition syscall :: "env \<Rightarrow> kernel \<Rightarrow> kernel res" where
  "syscall E s =
     andthen (my s) (\<lambda>p.
     let num = sint (ucast (tf_get s p (tf_a 7)) :: u32)
     in case (if num > 0 then syscalls E num else None) of
          Some f \<Rightarrow>
            if filtered (procs s p) num
            then andthen (printf E (''[FILTER KLOGGER] DETECTED VIOLATION! pid=%d (%s) tried to call illegal syscall num=%d''
                     @ newline) [PInt (pid (procs s p)), PStr (Some (p_name (procs s p))), PInt num] s) (\<lambda>s.
                 andthen (setkilled p s) (\<lambda>s. Inr (tf_set p (tf_a 0) (-1) s)))
            else andthen (f s) (\<lambda>(r, s). Inr (tf_set p (tf_a 0) r s))
        | None \<Rightarrow>
            andthen (printf E (''%d %s: unknown sys call %d'' @ newline)
              [PInt (pid (procs s p)), PStr (Some (p_name (procs s p))), PInt num] s) (\<lambda>s.
            Inr (tf_set p (tf_a 0) (-1) s)))"

end
