(* ===== verification/Trap.thy ===== *)
theory Trap
  imports Syscall
begin

unbundle bit_operations_syntax

text \<open>
  \<^verbatim>\<open>trap.c\<close> and \<^verbatim>\<open>plic.c\<close>: traps from user space and from the kernel, page faults
  (copy-on-write and lazy allocation), device interrupts and the clock, and the return to
  user space; and \<open>forkret\<close> of \<^verbatim>\<open>proc.c\<close>, which uses it. The control registers are the
  field \<open>csr\<close>; interrupts are on iff no lock is held and \<open>ien\<close>.
\<close>

section \<open>The interrupt controller\<close>

definition UART0_IRQ :: int where "UART0_IRQ = 10"
definition VIRTIO0_IRQ :: int where "VIRTIO0_IRQ = 1"
definition PLIC_SENABLE :: "nat \<Rightarrow> u64" where "PLIC_SENABLE h = PLIC + 0x2080 + of_nat h * 0x100"
definition PLIC_SPRIORITY :: "nat \<Rightarrow> u64" where "PLIC_SPRIORITY h = PLIC + 0x201000 + of_nat h * 0x2000"
definition PLIC_SCLAIM :: "nat \<Rightarrow> u64" where "PLIC_SCLAIM h = PLIC + 0x201004 + of_nat h * 0x2000"

definition plicinit :: "kernel \<Rightarrow> kernel" where
  "plicinit s =
     io_write (PLIC + word_of_int VIRTIO0_IRQ * 4) 1 (io_write (PLIC + word_of_int UART0_IRQ * 4) 1 s)"

definition plicinithart :: "kernel \<Rightarrow> kernel" where
  "plicinithart s =
     (let h = cpuid s;
          s = io_write (PLIC_SENABLE h) (push_bit (nat UART0_IRQ) 1 OR push_bit (nat VIRTIO0_IRQ) 1) s
      in io_write (PLIC_SPRIORITY h) 0 s)"

definition plic_claim :: "env \<Rightarrow> kernel \<Rightarrow> int \<times> kernel" where
  "plic_claim E s = (case io_read E (PLIC_SCLAIM (cpuid s)) s of (irq, s) \<Rightarrow> (sint irq, s))"

definition plic_complete :: "int \<Rightarrow> kernel \<Rightarrow> kernel" where
  "plic_complete irq s = io_write (PLIC_SCLAIM (cpuid s)) (word_of_int irq) s"

section \<open>Device interrupts\<close>

definition trapinithart :: "'z kst_scheme \<Rightarrow> 'z kst_scheme" where
  "trapinithart s = s\<lparr>csr := (csr s)\<lparr>stvec := sym_kernelvec (syms s)\<rparr>\<rparr>"

definition clockintr :: "env \<Rightarrow> kernel \<Rightarrow> kernel res" where
  "clockintr E s =
     andthen
       (if cpuid s = 0
        then andthen (kacquire Ltick s) (\<lambda>s.
             andthen (wakeup (Some ChTicks) (s\<lparr>ticks := ticks s + 1\<rparr>)) (\<lambda>s. krelease Ltick s))
        else Inr s) (\<lambda>s.
     Inr (s\<lparr>csr := (csr s)\<lparr>stimecmp := clock E s + 1000000\<rparr>\<rparr>))"

definition devintr :: "env \<Rightarrow> kernel \<Rightarrow> (int \<times> kernel) res" where
  "devintr E s =
     (let cause = scause (csr s)
      in if cause = 0x8000000000000009
         then case plic_claim E s of (irq, s) \<Rightarrow>
           andthen
             (if irq = UART0_IRQ then uartintr E s
              else if irq = VIRTIO0_IRQ then virtio_disk_intr E s
              else if irq \<noteq> 0 then printf E (''unexpected interrupt irq=%d'' @ newline) [PInt irq] s
              else Inr s) (\<lambda>s.
           Inr (1, if irq \<noteq> 0 then plic_complete irq s else s))
         else if cause = 0x8000000000000005
         then andthen (clockintr E s) (\<lambda>s. Inr (2, s))
         else Inr (0, s))"

section \<open>Return to user space\<close>

definition SSTATUS_SPP :: u64 where "SSTATUS_SPP = push_bit 8 1"
definition SSTATUS_SPIE :: u64 where "SSTATUS_SPIE = push_bit 5 1"

definition prepare_return :: "'z kst_scheme \<Rightarrow> 'z kst_scheme res" where
  "prepare_return s =
     andthen (my s) (\<lambda>p.
     let s = s\<lparr>ien := False\<rparr>;
         s = s\<lparr>csr := (csr s)\<lparr>stvec := TRAMPOLINE + (sym_uservec (syms s) - sym_trampoline (syms s))\<rparr>\<rparr>;
         s = tf_set p tf_kernel_satp (satp (csr s)) s;
         s = tf_set p tf_kernel_sp (kstack (procs s p) + PGSIZE) s;
         s = tf_set p tf_kernel_trap (sym_usertrap (syms s)) s;
         s = tf_set p tf_kernel_hartid (of_nat (hart s)) s;
         x = sstatus (csr s);
         x = x AND NOT SSTATUS_SPP;
         x = x OR SSTATUS_SPIE
     in Inr (s\<lparr>csr := (csr s)\<lparr>sstatus := x, sepc := tf_get s p tf_epc\<rparr>\<rparr>))"

text \<open>The result of \<open>forkret\<close> is the page table register the trampoline is called with.\<close>

definition forkret :: "env \<Rightarrow> kernel \<Rightarrow> (u64 \<times> kernel) res" where
  "forkret E s =
     andthen (my s) (\<lambda>p.
     andthen (krelease (Lproc p) s) (\<lambda>s.
     andthen
       (if first_ret s
        then andthen (fsinit E ROOTDEV s) (\<lambda>s.
             let s = s\<lparr>first_ret := False\<rparr>
             in andthen (kexec E (bytes_of ''/init'') [bytes_of ''/init''] s) (\<lambda>(r, s).
                let s = tf_set p (tf_a 0) (word_of_int r) s
                in if tf_get s p (tf_a 0) = -1 then panic ''exec'' else Inr s))
        else Inr s) (\<lambda>s.
     andthen (prepare_return s) (\<lambda>s. Inr (MAKE_SATP (pagetable (procs s p)), s)))))"

section \<open>Traps from user space\<close>

definition quote :: string where "quote = [char_of (39 :: nat)]"

text \<open>The branch for an access to the kernel's addresses.\<close>

definition klogger :: "env \<Rightarrow> nat \<Rightarrow> kernel \<Rightarrow> kernel res" where
  "klogger E p s =
     (let va = stval (csr s); cause = scause (csr s);
          nm = PStr (Some (p_name (procs s p))); i = PInt (pid (procs s p));
          kind = (if cause = 15 then ''Store Page Fault'' else ''Load Page Fault'')
      in andthen (printf E (newline @ ''[KLOGGER ALERT] !!! PHAT HIEN HANH VI TAN CONG HE THONG !!!'' @ newline) [] s) (\<lambda>s.
         andthen (printf E (''[KLOGGER LOG] Tien trinh vi pham: '' @ quote @ ''%s'' @ quote @ '' (PID: %d)'' @ newline) [nm, i] s) (\<lambda>s.
         andthen (printf E (''[KLOGGER LOG] Dia chi Kernel bi nham toi: 0x%lx'' @ newline) [PInt (uint va)] s) (\<lambda>s.
         andthen (printf E (''[KLOGGER LOG] Ma loi phan cung (scause): %ld (%s)'' @ newline)
                    [PInt (uint cause), PStr (Some (bytes_of kind))] s) (\<lambda>s.
         andthen (printf E (''[KLOGGER ACTION] Kich hoat co che bao ve bang trang, HANH QUYET TIEN TRINH LAP TUC!''
                    @ newline @ newline) [] s) (\<lambda>s.
         setkilled p s))))))"

definition pagefault :: "env \<Rightarrow> nat \<Rightarrow> kernel \<Rightarrow> kernel res" where
  "pagefault E p s =
     (let va = stval (csr s); cause = scause (csr s); pt = pagetable (procs s p);
          nm = PStr (Some (p_name (procs s p))); i = PInt (pid (procs s p))
      in if va \<ge> sz (procs s p) \<or> PGROUNDDOWN va = 0
         then
           let s = s\<lparr>stride_faults := int32 (stride_faults s + 1)\<rparr>
           in andthen (printf E (newline @ ''[CANH BAO STRIDE] Tien trinh '' @ quote @ ''%s'' @ quote @ '' (PID: %d) vi pham truy cap bo nho! (VA: 0x%lx)''
                         @ newline) [nm, i, PInt (uint va)] s) (\<lambda>s.
              andthen (printf E (''[STRIDE LOG] He thong ghi nhan dot vi pham lien tiep thu: %d/3'' @ newline)
                         [PInt (stride_faults s)] s) (\<lambda>s.
              andthen
                (if stride_faults s \<ge> 3
                 then andthen (printf E (''[KILL ON SIGHT] Kich hoat co che hanh quyet tu dong de bao ve toan ven he thong!''
                                 @ newline) [] s) (\<lambda>s. Inr (s\<lparr>stride_faults := 0\<rparr>))
                 else Inr s) (\<lambda>s.
              setkilled p s)))
         else andthen (if cause = 15 then cow_handler pt va s else Inr (-1, s)) (\<lambda>(r, s).
           if r = 0 then Inr s
           else andthen (vmfault pt va s) (\<lambda>(pg, s).
             if pg \<noteq> 0 then Inr s
             else andthen (printf E (newline @ ''[HE THONG] Page Fault khong the cuu van tren '' @ quote @ ''%s'' @ quote @ '' (PID: %d)'' @ newline)
                             [nm, i] s) (\<lambda>s. setkilled p s))))"

text \<open>What \<open>usertrap\<close> does between saving the program counter and the check for a killed
  process; the number is the kind of device interrupt.\<close>

definition trap_cause :: "env \<Rightarrow> nat \<Rightarrow> kernel \<Rightarrow> (int \<times> kernel) res" where
  "trap_cause E p s =
     (if scause (csr s) = 8
      then andthen (killed p s) (\<lambda>(kl, s).
           andthen (if kl then kexit E (-1) s else Inr s) (\<lambda>s.
           let s = tf_set p tf_epc (tf_get s p tf_epc + 4) s;
               s = s\<lparr>ien := True\<rparr>
           in andthen (syscall E s) (\<lambda>s. Inr (0, s))))
      else andthen (devintr E s) (\<lambda>(which_dev, s).
        if which_dev \<noteq> 0 then Inr (which_dev, s)
        else if (scause (csr s) = 15 \<or> scause (csr s) = 13) \<and> stval (csr s) \<ge> 0x80000000
        then andthen (klogger E p s) (\<lambda>s. Inr (0, s))
        else if scause (csr s) = 15 \<or> scause (csr s) = 13
        then andthen (pagefault E p s) (\<lambda>s. Inr (0, s))
        else andthen (printf E (''usertrap(): unexpected scause 0x%lx pid=%d'' @ newline)
                        [PInt (uint (scause (csr s))), PInt (pid (procs s p))] s) (\<lambda>s.
             andthen (printf E (''            sepc=0x%lx stval=0x%lx'' @ newline)
                        [PInt (uint (sepc (csr s))), PInt (uint (stval (csr s)))] s) (\<lambda>s.
             andthen (setkilled p s) (\<lambda>s. Inr (0, s))))))"

definition usertrap :: "env \<Rightarrow> kernel \<Rightarrow> (u64 \<times> kernel) res" where
  "usertrap E s =
     (if sstatus (csr s) AND SSTATUS_SPP \<noteq> 0 then panic ''usertrap: not from user mode''
      else
        let s = s\<lparr>csr := (csr s)\<lparr>stvec := sym_kernelvec (syms s)\<rparr>\<rparr>
        in andthen (my s) (\<lambda>p.
           andthen (trap_cause E p (tf_set p tf_epc (sepc (csr s)) s)) (\<lambda>(which_dev, s).
           andthen (killed p s) (\<lambda>(kl, s).
           andthen (if kl then kexit E (-1) s else Inr s) (\<lambda>s.
           andthen (if which_dev = 2 then yield E s else Inr s) (\<lambda>s.
           andthen (prepare_return s) (\<lambda>s.
           Inr (MAKE_SATP (pagetable (procs s p)), s))))))))"

section \<open>Traps from the kernel\<close>

definition kerneltrap :: "env \<Rightarrow> kernel \<Rightarrow> kernel res" where
  "kerneltrap E s =
     (let epc = sepc (csr s); status = sstatus (csr s); cause = scause (csr s)
      in if status AND SSTATUS_SPP = 0 then panic ''kerneltrap: not from supervisor mode''
         else if kintr_get s then panic ''kerneltrap: interrupts enabled''
         else andthen (devintr E s) (\<lambda>(which_dev, s).
           andthen
             (if which_dev = 0
              then andthen (printf E (''scause=0x%lx sepc=0x%lx stval=0x%lx'' @ newline)
                     [PInt (uint cause), PInt (uint (sepc (csr s))), PInt (uint (stval (csr s)))] s)
                     (\<lambda>s. panic ''kerneltrap'')
              else Inr s) (\<lambda>s.
           andthen (if which_dev = 2 \<and> myproc s \<noteq> None then yield E s else Inr s) (\<lambda>s.
           Inr (s\<lparr>csr := (csr s)\<lparr>sepc := epc, sstatus := status\<rparr>\<rparr>)))))"

end
