(* ===== verification/Boot.thy ===== *)
theory Boot
  imports Trap
begin

unbundle bit_operations_syntax

text \<open>
  \<^verbatim>\<open>start.c\<close> and \<^verbatim>\<open>main.c\<close>: the machine mode setup of a hart and the initialization
  of the kernel up to the scheduler.
\<close>

section \<open>Machine mode\<close>

record mcsrs =
  mstatus :: u64
  mepc :: u64
  m_satp :: u64
  medeleg :: u64
  mideleg :: u64
  m_sie :: u64
  pmpaddr0 :: u64
  pmpcfg0 :: u64
  mie :: u64
  menvcfg :: u64
  mcounteren :: u64
  m_stimecmp :: u64
  m_tp :: u64

definition MSTATUS_MPP_MASK :: u64 where "MSTATUS_MPP_MASK = push_bit 11 3"
definition MSTATUS_MPP_S :: u64 where "MSTATUS_MPP_S = push_bit 11 1"
definition SIE_SEIE :: u64 where "SIE_SEIE = push_bit 9 1"
definition SIE_STIE :: u64 where "SIE_STIE = push_bit 5 1"
definition MIE_STIE :: u64 where "MIE_STIE = push_bit 5 1"

definition timerinit :: "u64 \<Rightarrow> mcsrs \<Rightarrow> mcsrs" where
  "timerinit now m =
     m\<lparr>mie := mie m OR MIE_STIE, menvcfg := menvcfg m OR push_bit 63 1,
       mcounteren := mcounteren m OR 2, m_stimecmp := now + 1000000\<rparr>"

text \<open>\<open>start\<close> on a hart, up to the \<open>mret\<close> that enters \<open>main\<close> in supervisor mode.\<close>

definition start :: "u64 \<Rightarrow> u64 \<Rightarrow> u64 \<Rightarrow> mcsrs \<Rightarrow> mcsrs" where
  "start main_addr hartid now m =
     (let x = mstatus m;
          x = x AND NOT MSTATUS_MPP_MASK;
          x = x OR MSTATUS_MPP_S;
          m = m\<lparr>mstatus := x, mepc := main_addr, m_satp := 0, medeleg := 0xffff, mideleg := 0xffff\<rparr>;
          m = m\<lparr>m_sie := m_sie m OR SIE_SEIE OR SIE_STIE, pmpaddr0 := 0x3fffffffffffff, pmpcfg0 := 0xf\<rparr>
      in (timerinit now m)\<lparr>m_tp := hartid\<rparr>)"

section \<open>main\<close>

text \<open>Hart 0 up to the start of the scheduler; the locks are initialized in the state the
  kernel starts with, in which no lock is held.\<close>

definition main_boot :: "env \<Rightarrow> kernel \<Rightarrow> kernel res" where
  "main_boot E s =
     andthen (printf E newline [] (consoleinit s)) (\<lambda>s.
     andthen (printf E (''xv6 kernel is booting'' @ newline) [] s) (\<lambda>s.
     andthen (printf E newline [] s) (\<lambda>s.
     andthen (kinit s) (\<lambda>s.
     andthen (kvminit s) (\<lambda>s.
     andthen (kvminithart s) (\<lambda>s.
     let s = iinit (binit (plicinithart (plicinit (trapinithart (procinit s)))))
     in andthen (virtio_disk_init E s) (\<lambda>s.
        userinit E s)))))))"

text \<open>The other harts, once hart 0 has set \<open>started\<close>.\<close>

definition main_hart :: "env \<Rightarrow> kernel \<Rightarrow> kernel res" where
  "main_hart E s =
     andthen (printf E (''hart %d starting'' @ newline) [PInt (int (cpuid s))] s) (\<lambda>s.
     andthen (kvminithart s) (\<lambda>s.
     Inr (plicinithart (trapinithart s))))"

definition main ::
  "env \<Rightarrow> nat \<Rightarrow> (nat \<Rightarrow> kernel \<Rightarrow> kernel) \<Rightarrow> (kernel \<Rightarrow> kernel) \<Rightarrow> kernel \<Rightarrow> kernel res" where
  "main E n run wfi s =
     andthen (if cpuid s = 0 then main_boot E s else main_hart E s) (\<lambda>s. scheduler n run wfi s)"

end
