(* ===== verification/Held.thy ===== *)
theory Held
  imports Trap
begin

unbundle bit_operations_syntax

text \<open>
  Lock discipline: a function of the kernel that returns has released every lock it
  acquired, and returns to the process that called it. The proofs are weakest precondition
  computations: \<open>rets m Q\<close> says that if \<open>m\<close> returns a result, \<open>Q\<close> holds of it; \<open>wp\<close>
  collects the rules for the constructs of the model and \<open>hc\<close> one rule for every function.
\<close>

section \<open>Weakest preconditions\<close>

definition rets :: "'a res \<Rightarrow> ('a \<Rightarrow> bool) \<Rightarrow> bool" where
  "rets m Q \<longleftrightarrow> (\<forall>x. m = Inr x \<longrightarrow> Q x)"

named_theorems wp
named_theorems hc

lemma rets_Inr [wp]: "Q x \<Longrightarrow> rets (Inr x) Q"
  by (simp add: rets_def)

lemma rets_Inl [wp]: "rets (Inl e) Q"
  by (simp add: rets_def)

lemma rets_andthen [wp]: "rets m (\<lambda>x. rets (f x) Q) \<Longrightarrow> rets (andthen m f) Q"
  by (auto simp: rets_def andthen_Inr_iff)

lemma rets_if [wp]: "(b \<Longrightarrow> rets m Q) \<Longrightarrow> (\<not> b \<Longrightarrow> rets n Q) \<Longrightarrow> rets (if b then m else n) Q"
  by simp

lemma rets_prod [wp]: "(\<And>a b. x = (a, b) \<Longrightarrow> rets (f a b) Q) \<Longrightarrow> rets (case x of (a, b) \<Rightarrow> f a b) Q"
  by (cases x) simp

lemma rets_option [wp]:
  "(x = None \<Longrightarrow> rets m Q) \<Longrightarrow> (\<And>y. x = Some y \<Longrightarrow> rets (f y) Q) \<Longrightarrow> rets (case x of None \<Rightarrow> m | Some y \<Rightarrow> f y) Q"
  by (cases x) simp_all

lemma rets_sum [wp]:
  "(\<And>y. x = Inl y \<Longrightarrow> rets (f y) Q) \<Longrightarrow> (\<And>y. x = Inr y \<Longrightarrow> rets (g y) Q) \<Longrightarrow>
   rets (case x of Inl y \<Rightarrow> f y | Inr y \<Rightarrow> g y) Q"
  by (cases x) simp_all

lemma rets_my [wp]: "(\<And>p. cur s = Some p \<Longrightarrow> Q p) \<Longrightarrow> rets (my s) Q"
  by (simp add: rets_def my_Inr)

lemma rets_kacquire [wp]: "(l \<notin> set (held s) \<Longrightarrow> Q (s\<lparr>held := l # held s\<rparr>)) \<Longrightarrow> rets (kacquire l s) Q"
  and rets_krelease [wp]: "(l \<in> set (held s) \<Longrightarrow> Q (s\<lparr>held := remove1 l (held s)\<rparr>)) \<Longrightarrow> rets (krelease l s) Q"
  by (auto simp: rets_def kacquire_Inr krelease_Inr)

text \<open>The locks of the hart and its process are as before; the state is the first, second or
  third component of the result.\<close>

abbreviation same_locks :: "'z kst_scheme \<Rightarrow> 'z kst_scheme \<Rightarrow> bool" where
  "same_locks s s' \<equiv> held s' = held s \<and> cur s' = cur s"

abbreviation h1 :: "'z kst_scheme \<Rightarrow> 'z kst_scheme \<Rightarrow> bool" where
  "h1 s \<equiv> \<lambda>s'. same_locks s s'"

abbreviation h2 :: "'z kst_scheme \<Rightarrow> 'a \<times> 'z kst_scheme \<Rightarrow> bool" where
  "h2 s \<equiv> \<lambda>(r, s'). same_locks s s'"

abbreviation h3 :: "'z kst_scheme \<Rightarrow> 'a \<times> 'b \<times> 'z kst_scheme \<Rightarrow> bool" where
  "h3 s \<equiv> \<lambda>(r, x, s'). same_locks s s'"

lemma rets_conseq: "rets m P \<Longrightarrow> (\<And>x. P x \<Longrightarrow> Q x) \<Longrightarrow> rets m Q"
  by (simp add: rets_def)

lemma wp1: "rets m (h1 s) \<Longrightarrow> (\<And>s'. same_locks s s' \<Longrightarrow> Q s') \<Longrightarrow> rets m Q"
  and wp2: "rets m' (h2 s) \<Longrightarrow> (\<And>r s'. same_locks s s' \<Longrightarrow> Q' (r, s')) \<Longrightarrow> rets m' Q'"
  and wp3: "rets m'' (h3 s) \<Longrightarrow> (\<And>r x s'. same_locks s s' \<Longrightarrow> Q'' (r, x, s')) \<Longrightarrow> rets m'' Q''"
  by (erule rets_conseq, simp only: split_paired_all prod.case)+

section \<open>Memory\<close>

lemma kalloc_hc [THEN wp2, hc]: "rets (kalloc s) (h2 s)"
  unfolding kalloc_def Let_def by (intro wp hc; simp)

lemma kfree_hc [THEN wp1, hc]: "rets (kfree pa s) (h1 s)"
  unfolding kfree_def Let_def by (intro wp hc; simp)

lemma kref_incr_hc [THEN wp1, hc]: "rets (kref_incr pa s) (h1 s)"
  unfolding kref_incr_def Let_def by (intro wp hc; simp)

lemma kref_get_hc [THEN wp2, hc]: "rets (kref_get pa s) (h2 s)"
  unfolding kref_get_def Let_def by (intro wp hc; simp)

lemma walk_loop_hc [THEN wp2, hc]: "rets (walk_loop n pt va a s) (h2 s)"
proof (induction n arbitrary: pt a s)
  case (Suc n)
  show ?case unfolding walk_loop.simps Let_def by (intro wp hc Suc.IH [THEN wp2]; simp)
qed (unfold walk_loop.simps Let_def, (intro wp hc; simp))

lemma walk_hc [THEN wp2, hc]: "rets (walk pt va a s) (h2 s)"
  unfolding walk_def Let_def by (intro wp hc; simp)

lemma walkaddr_hc [THEN wp2, hc]: "rets (walkaddr pt va s) (h2 s)"
  unfolding walkaddr_def Let_def by (intro wp hc; simp)

lemma mappages_loop_hc [THEN wp2, hc]: "rets (mappages_loop n pt a l pa perm s) (h2 s)"
proof (induction n arbitrary: a pa s)
  case (Suc n)
  show ?case unfolding mappages_loop.simps Let_def by (intro wp hc Suc.IH [THEN wp2]; simp)
qed (unfold mappages_loop.simps Let_def, (intro wp hc; simp))

lemma mappages_hc [THEN wp2, hc]: "rets (mappages pt va bytes pa perm s) (h2 s)"
  unfolding mappages_def Let_def by (intro wp hc; simp)

lemma kvmmap_hc [THEN wp1, hc]: "rets (kvmmap kpt va pa bytes perm s) (h1 s)"
  unfolding kvmmap_def Let_def by (intro wp hc; simp)

lemma kvm_switch_hc [THEN wp1, hc]: "rets (kvm_switch kpt s) (h1 s)"
  unfolding kvm_switch_def Let_def by (intro wp hc; simp)

lemma kvminithart_hc [THEN wp1, hc]: "rets (kvminithart s) (h1 s)"
  unfolding kvminithart_def Let_def by (intro wp hc; simp)

lemma uvmcreate_hc [THEN wp2, hc]: "rets (uvmcreate s) (h2 s)"
  unfolding uvmcreate_def Let_def by (intro wp hc; simp)

lemma uvmunmap_loop_hc [THEN wp1, hc]: "rets (uvmunmap_loop n pt a lim df s) (h1 s)"
proof (induction n arbitrary: a s)
  case (Suc n)
  show ?case unfolding uvmunmap_loop.simps Let_def by (intro wp hc Suc.IH [THEN wp1]; simp)
qed (unfold uvmunmap_loop.simps Let_def, (intro wp hc; simp))

lemma uvmunmap_hc [THEN wp1, hc]: "rets (uvmunmap pt va np df s) (h1 s)"
  unfolding uvmunmap_def Let_def by (intro wp hc; simp)

lemma uvmdealloc_hc [THEN wp2, hc]: "rets (uvmdealloc pt o1 n1 s) (h2 s)"
  unfolding uvmdealloc_def Let_def by (intro wp hc; simp)

lemma uvmalloc_loop_hc [THEN wp2, hc]: "rets (uvmalloc_loop n pt a o1 n1 x s) (h2 s)"
proof (induction n arbitrary: a s)
  case (Suc n)
  show ?case unfolding uvmalloc_loop.simps Let_def by (intro wp hc Suc.IH [THEN wp2]; simp)
qed (unfold uvmalloc_loop.simps Let_def, (intro wp hc; simp))

lemma uvmalloc_hc [THEN wp2, hc]: "rets (uvmalloc pt o1 n1 x s) (h2 s)"
  unfolding uvmalloc_def Let_def by (intro wp hc; simp)

lemma freewalk_loop_hc:
  assumes "\<And>s p. rets (child s p) (h1 s)"
  shows "rets (freewalk_loop child k pt s) (h1 s)"
proof (induction k arbitrary: s)
  case (Suc k)
  show ?case unfolding freewalk_loop.simps Let_def by (intro wp assms [THEN wp1] Suc.IH [THEN wp1]) simp_all
qed (unfold freewalk_loop.simps, intro wp, simp)

lemma freewalk_hc [THEN wp1, hc]: "rets (freewalk n s pt) (h1 s)"
proof (induction n arbitrary: s pt)
  case (Suc n)
  show ?case unfolding freewalk.simps by (intro wp hc freewalk_loop_hc [THEN wp1] Suc.IH) simp_all
qed (unfold freewalk.simps, intro wp)

lemma uvmfree_hc [THEN wp1, hc]: "rets (uvmfree pt b s) (h1 s)"
  unfolding uvmfree_def Let_def by (intro wp hc; simp)

lemma uvmcopy_loop_hc [THEN wp2, hc]: "rets (uvmcopy_loop n old new i l s) (h2 s)"
proof (induction n arbitrary: i s)
  case (Suc n)
  show ?case unfolding uvmcopy_loop.simps Let_def by (intro wp hc Suc.IH [THEN wp2]; simp)
qed (unfold uvmcopy_loop.simps Let_def, (intro wp hc; simp))

lemma uvmcopy_hc [THEN wp2, hc]: "rets (uvmcopy old new b s) (h2 s)"
  unfolding uvmcopy_def Let_def by (intro wp hc; simp)

lemma uvmclear_hc [THEN wp1, hc]: "rets (uvmclear pt va s) (h1 s)"
  unfolding uvmclear_def Let_def by (intro wp hc; simp)

lemma ismapped_hc [THEN wp2, hc]: "rets (ismapped pt va s) (h2 s)"
  unfolding ismapped_def Let_def by (intro wp hc; simp)

lemma vmfault_hc [THEN wp2, hc]: "rets (vmfault pt va s) (h2 s)"
  unfolding vmfault_def Let_def by (intro wp hc; simp)

lemma copyout_loop_hc [THEN wp2, hc]: "rets (copyout_loop n pt d src l s) (h2 s)"
proof (induction n arbitrary: d src l s)
  case (Suc n)
  show ?case unfolding copyout_loop.simps Let_def by (intro wp hc Suc.IH [THEN wp2]; simp)
qed (unfold copyout_loop.simps Let_def, (intro wp hc; simp))

lemma copyout_hc [THEN wp2, hc]: "rets (copyout pt d src l s) (h2 s)"
  unfolding copyout_def Let_def by (intro wp hc; simp)

lemma copyin_loop_hc [THEN wp3, hc]: "rets (copyin_loop n pt d src l s) (h3 s)"
proof (induction n arbitrary: d src l s)
  case (Suc n)
  show ?case unfolding copyin_loop.simps Let_def by (intro wp hc Suc.IH [THEN wp3]; simp)
qed (unfold copyin_loop.simps Let_def, (intro wp hc; simp))

lemma copyin_hc [THEN wp3, hc]: "rets (copyin pt src l s) (h3 s)"
  unfolding copyin_def Let_def by (intro wp hc; simp)

lemma copyinstr_loop_hc [THEN wp3, hc]: "rets (copyinstr_loop n pt d src l s) (h3 s)"
proof (induction n arbitrary: d src l s)
  case (Suc n)
  show ?case unfolding copyinstr_loop.simps Let_def by (intro wp hc Suc.IH [THEN wp3]; simp)
qed (unfold copyinstr_loop.simps Let_def, (intro wp hc; simp))

lemma copyinstr_hc [THEN wp3, hc]: "rets (copyinstr pt src l s) (h3 s)"
  unfolding copyinstr_def Let_def by (intro wp hc; simp)

lemma uvmmap_hc [THEN wp1, hc]: "rets (uvmmap pt va pa b perm s) (h1 s)"
  unfolding uvmmap_def Let_def by (intro wp hc; simp)

lemma proc_kpagetable_hc [THEN wp2, hc]: "rets (proc_kpagetable s) (h2 s)"
  unfolding proc_kpagetable_def Let_def by (intro wp hc; simp)

lemma proc_free_kpagetable_hc [THEN wp1, hc]: "rets (proc_free_kpagetable kpt ks s) (h1 s)"
  unfolding proc_free_kpagetable_def Let_def by (intro wp hc; simp)

lemma cow_handler_hc [THEN wp2, hc]: "rets (cow_handler pt va s) (h2 s)"
  unfolding cow_handler_def Let_def by (intro wp hc; simp)

section \<open>Processes\<close>

lemma allocpid_hc [THEN wp2, hc]: "rets (allocpid s) (h2 s)"
  unfolding allocpid_def Let_def by (intro wp hc; simp)

lemma proc_pagetable_hc [THEN wp2, hc]: "rets (proc_pagetable p s) (h2 s)"
  unfolding proc_pagetable_def Let_def by (intro wp hc; simp)

lemma proc_freepagetable_hc [THEN wp1, hc]: "rets (proc_freepagetable pt l s) (h1 s)"
  unfolding proc_freepagetable_def Let_def by (intro wp hc; simp)

lemma freeproc_hc [THEN wp1, hc]: "rets (freeproc p s) (h1 s)"
  unfolding freeproc_def Let_def by (intro wp hc; simp)

text \<open>\<open>allocproc\<close> returns with the lock of the slot it found.\<close>

abbreviation found_lock :: "'z kst_scheme \<Rightarrow> nat option \<times> 'z kst_scheme \<Rightarrow> bool" where
  "found_lock s \<equiv> \<lambda>(r, s'). cur s' = cur s \<and> held s' = (case r of None \<Rightarrow> held s | Some p \<Rightarrow> Lproc p # held s)"

lemma allocproc_scan_hc: "rets (allocproc_scan ps s) (found_lock s)"
proof (induction ps arbitrary: s)
  case (Cons p ps)
  have IH: "rets (allocproc_scan ps s') Q"
    if "\<And>r t. found_lock s' (r, t) \<Longrightarrow> Q (r, t)" for s' and Q :: "nat option \<times> 'a kst_scheme \<Rightarrow> bool"
    by (rule rets_conseq [OF Cons.IH]) (use that in auto)
  show ?case unfolding allocproc_scan.simps by (intro wp hc IH; simp split: option.splits)
qed (unfold allocproc_scan.simps, intro wp, simp)

lemma allocproc_fail_hc:
  assumes "held s = Lproc p # hs"
  shows "rets (allocproc_fail p s) (\<lambda>(r, s'). r = None \<and> cur s' = cur s \<and> held s' = hs)"
  unfolding allocproc_fail_def by (intro wp hc; simp add: assms)

lemma allocproc_found_hc:
  assumes "held s = Lproc p # hs"
  shows "rets (allocproc_found p s)
    (\<lambda>(r, s'). cur s' = cur s \<and> held s' = (case r of None \<Rightarrow> hs | Some q \<Rightarrow> Lproc q # hs))"
  unfolding allocproc_found_def Let_def
  by (intro wp hc; (rule rets_conseq [OF allocproc_fail_hc])?; auto simp: assms)

lemma allocproc_hc: "rets (allocproc s) (found_lock s)"
  unfolding allocproc_def
  by (intro wp, rule rets_conseq [OF allocproc_scan_hc], intro wp)
    (auto intro!: wp intro: rets_conseq [OF allocproc_found_hc])

lemma allocproc_wp [hc]:
  "(\<And>r s'. found_lock s (r, s') \<Longrightarrow> Q (r, s')) \<Longrightarrow> rets (allocproc s) Q"
  by (rule rets_conseq [OF allocproc_hc]) auto

lemma growproc_hc [THEN wp2, hc]: "rets (growproc n s) (h2 s)"
  unfolding growproc_def Let_def by (intro wp hc; simp)

lemma wakeup_loop_hc [THEN wp1, hc]: "rets (wakeup_loop ch ps s) (h1 s)"
proof (induction ps arbitrary: s)
  case (Cons x ps)
  show ?case unfolding wakeup_loop.simps Let_def by (intro wp hc Cons.IH [THEN wp1]; simp)
qed (unfold wakeup_loop.simps, (intro wp hc; simp))

lemma wakeup_hc [THEN wp1, hc]: "rets (wakeup ch s) (h1 s)"
  unfolding wakeup_def Let_def by (intro wp hc; simp)

lemma reparent_loop_hc [THEN wp1, hc]: "rets (reparent_loop p ps s) (h1 s)"
proof (induction ps arbitrary: s)
  case (Cons x ps)
  show ?case unfolding reparent_loop.simps Let_def by (intro wp hc Cons.IH [THEN wp1]; simp)
qed (unfold reparent_loop.simps, (intro wp hc; simp))

lemma reparent_hc [THEN wp1, hc]: "rets (reparent p s) (h1 s)"
  unfolding reparent_def Let_def by (intro wp hc; simp)

lemma kkill_loop_hc [THEN wp2, hc]: "rets (kkill_loop i ps s) (h2 s)"
proof (induction ps arbitrary: s)
  case (Cons x ps)
  show ?case unfolding kkill_loop.simps Let_def by (intro wp hc Cons.IH [THEN wp2]; simp)
qed (unfold kkill_loop.simps, (intro wp hc; simp))

lemma kkill_hc [THEN wp2, hc]: "rets (kkill i s) (h2 s)"
  unfolding kkill_def Let_def by (intro wp hc; simp)

lemma setkilled_hc [THEN wp1, hc]: "rets (setkilled p s) (h1 s)"
  unfolding setkilled_def Let_def by (intro wp hc; simp)

lemma killed_hc [THEN wp2, hc]: "rets (killed p s) (h2 s)"
  unfolding killed_def Let_def by (intro wp hc; simp)

lemma switch_in_hc [hc]:
  "(\<And>s'. held s' = held s \<Longrightarrow> cur s' = Some p \<Longrightarrow> Q s') \<Longrightarrow> rets (switch_in p s) Q"
  by (auto simp: switch_in_def kvm_switch_def Let_def rets_def)

lemma switch_out_hc [hc]:
  "(\<And>s'. held s' = held s \<Longrightarrow> cur s' = None \<Longrightarrow> Q s') \<Longrightarrow> rets (switch_out s) Q"
  by (auto simp: switch_out_def kvminithart_def kvm_switch_def Let_def rets_def)

text \<open>\<open>sched\<close> is called with the lock of the process and no other, and returns so.\<close>

lemma sched_held: "rets (sched E s) (\<lambda>s'. \<exists>p. cur s = Some p \<and> held s = [Lproc p] \<and> held s' = [Lproc p] \<and> cur s' = Some p)"
  unfolding sched_def Let_def by (intro wp hc; auto simp: kholding_def length_Suc_conv)

lemma sched_hc [THEN wp1, hc]: "rets (sched E s) (h1 s)"
  by (rule rets_conseq [OF sched_held]) auto

lemma yield_hc [THEN wp1, hc]: "rets (yield E s) (h1 s)"
  unfolding yield_def Let_def by (intro wp hc; simp)

lemma sleep_hc [THEN wp1, hc]: "rets (sleep E ch lk s) (h1 s)"
proof -
  have sch: "rets (sched E t) Q"
    if "\<And>s' p. cur t = Some p \<Longrightarrow> held t = [Lproc p] \<Longrightarrow> held s' = [Lproc p] \<Longrightarrow> cur s' = Some p \<Longrightarrow> Q s'" for t Q
    by (rule rets_conseq [OF sched_held]) (use that in blast)
  have one: "held s = [lk]" if "cur s = Some p" "Lproc p \<notin> set (held s)" "lk \<in> set (Lproc p # held s)"
      "remove1 lk (Lproc p # held s) = [Lproc p]" for p
  proof (cases "lk = Lproc p")
    case True
    then show ?thesis using that by simp
  next
    case False
    then have "remove1 lk (held s) = []" "lk \<in> set (held s)" using that by auto
    then show ?thesis by (cases "held s") (auto split: if_splits)
  qed
  show ?thesis unfolding sleep_def Let_def by (intro wp sch) (use one in auto)
qed

lemma rets_kaddr [wp]:
  "(\<And>a. x = UAddr a \<Longrightarrow> rets (f a) Q) \<Longrightarrow> (\<And>a. x = PAddr a \<Longrightarrow> rets (g a) Q) \<Longrightarrow> (\<And>b. x = Local b \<Longrightarrow> rets (h b) Q) \<Longrightarrow>
   rets (case x of UAddr a \<Rightarrow> f a | PAddr a \<Rightarrow> g a | Local b \<Rightarrow> h b) Q"
  by (cases x) simp_all

lemma either_copyout_hc [THEN wp3, hc]: "rets (either_copyout dst src s) (h3 s)"
  unfolding either_copyout_def Let_def by (intro wp hc; simp)

lemma either_copyin_hc: "rets (either_copyin src n s) (\<lambda>(r, bs, a, s'). same_locks s s')"
  unfolding either_copyin_def by (intro wp hc; simp)

lemma either_copyin_wp [hc]:
  "(\<And>r bs a s'. same_locks s s' \<Longrightarrow> Q (r, bs, a, s')) \<Longrightarrow> rets (either_copyin src n s) Q"
  by (rule rets_conseq [OF either_copyin_hc]) (simp only: split_paired_all prod.case)

section \<open>Sleep locks, output, disk driver\<close>

lemma set_slock_hc [simp]: "held (set_slock l v s) = held s" "cur (set_slock l v s) = cur s"
  by (simp_all add: set_slock_def)

lemma set_hc [simp]:
  "held (set_buf b f s) = held s" "cur (set_buf b f s) = cur s"
  "held (set_inode i g s) = held s" "cur (set_inode i g s) = cur s"
  "held (set_file i h s) = held s" "cur (set_file i h s) = cur s"
  "held (set_pipe a k s) = held s" "cur (set_pipe a k s) = cur s"
  "held (set_lg l s) = held s" "cur (set_lg l s) = cur s"
  "held (set_vd v s) = held s" "cur (set_vd v s) = cur s"
  "held (set_cons c s) = held s" "cur (set_cons c s) = cur s"
  "held (set_data b d s) = held s" "cur (set_data b d s) = cur s"
  "held (io_write a w s) = held s" "cur (io_write a w s) = cur s"
  "held (tf_set p off w64 s) = held s" "cur (tf_set p off w64 s) = cur s"
  by (simp_all add: set_buf_def set_inode_def set_file_def set_pipe_def set_lg_def set_vd_def set_cons_def
      set_data_def io_write_def tf_set_def)

lemma io_read_pair [simp]: "io_read E a s = (v, s') \<longleftrightarrow> v = mmio E a (io_time s) \<and> s' = s\<lparr>io_time := io_time s + 1\<rparr>"
  by (auto simp: io_read_def)

lemma acquiresleep_wait_hc [THEN wp1, hc]: "rets (acquiresleep_wait n E l s) (h1 s)"
proof (induction n arbitrary: s)
  case (Suc n)
  show ?case unfolding acquiresleep_wait.simps Let_def by (intro wp hc Suc.IH [THEN wp1]; simp)
qed (unfold acquiresleep_wait.simps Let_def, (intro wp hc; simp))

lemma acquiresleep_hc [THEN wp1, hc]: "rets (acquiresleep E l s) (h1 s)"
  unfolding acquiresleep_def Let_def by (intro wp hc; simp)

lemma releasesleep_hc [THEN wp1, hc]: "rets (releasesleep l s) (h1 s)"
  unfolding releasesleep_def Let_def by (intro wp hc; simp)

lemma holdingsleep_hc [THEN wp2, hc]: "rets (holdingsleep l s) (h2 s)"
  unfolding holdingsleep_def Let_def by (intro wp hc; simp)

lemma tx_wait_hc [THEN wp1, hc]: "rets (tx_wait n E s) (h1 s)"
proof (induction n arbitrary: s)
  case (Suc n)
  show ?case unfolding tx_wait.simps Let_def by (intro wp hc Suc.IH [THEN wp1]; simp)
qed (unfold tx_wait.simps Let_def, (intro wp hc; simp))

lemma write_thr_hc [simp]: "held (write_thr c s) = held s" "cur (write_thr c s) = cur s"
  by (simp_all add: write_thr_def)

lemma uartputc_sync_hc [THEN wp1, hc]: "rets (uartputc_sync E c s) (h1 s)"
  unfolding uartputc_sync_def Let_def by (intro wp hc; simp)

lemma consputc_hc [THEN wp1, hc]: "rets (consputc E c s) (h1 s)"
  unfolding consputc_def Let_def by (intro wp hc; simp)

lemma consputs_hc [THEN wp1, hc]: "rets (consputs E cs s) (h1 s)"
proof (induction cs arbitrary: s)
  case (Cons x cs)
  show ?case unfolding consputs.simps Let_def by (intro wp hc Cons.IH [THEN wp1]; simp)
qed (unfold consputs.simps, (intro wp hc; simp))

lemma printint_hc [THEN wp1, hc]: "rets (printint E xx b sg s) (h1 s)"
  unfolding printint_def Let_def by (intro wp hc; simp)

lemma printptr_loop_hc [THEN wp1, hc]: "rets (printptr_loop n E x s) (h1 s)"
proof (induction n arbitrary: x s)
  case (Suc n)
  show ?case unfolding printptr_loop.simps Let_def by (intro wp hc Suc.IH [THEN wp1]; simp)
qed (unfold printptr_loop.simps Let_def, (intro wp hc; simp))

lemma printptr_hc [THEN wp1, hc]: "rets (printptr E x s) (h1 s)"
  unfolding printptr_def Let_def by (intro wp hc; simp)

lemma print_conv_hc [THEN wp2, hc]: "rets (print_conv E c args s) (h2 s)"
proof (cases c)
qed (cases args; (cases "hd args")?; simp add: print_conv_def; (intro wp hc; simp)?)+

lemma printf_loop_hc [THEN wp1, hc]: "rets (printf_loop E fmt args s) (h1 s)"
proof (induction "length fmt" arbitrary: fmt args s rule: less_induct)
  case less
  note IH = less.hyps [THEN wp1]
  show ?case
  proof (cases fmt)
    case (Cons c cs)
    show ?thesis unfolding Cons printf_loop.simps by (intro wp hc IH; simp add: Cons)
  qed (simp add: rets_def)
qed

lemma printf_hc [THEN wp1, hc]: "rets (printf E fmt args s) (h1 s)"
  unfolding printf_def Let_def by (intro wp hc; simp)

lemma procdump_loop_hc [THEN wp1, hc]: "rets (procdump_loop E ps s) (h1 s)"
proof (induction ps arbitrary: s)
  case (Cons x ps)
  show ?case unfolding procdump_loop.simps Let_def by (intro wp hc Cons.IH [THEN wp1]; simp)
qed (unfold procdump_loop.simps, (intro wp hc; simp))

lemma procdump_hc [THEN wp1, hc]: "rets (procdump E s) (h1 s)"
  unfolding procdump_def Let_def by (intro wp hc; simp)

lemma alloc_desc_hc: "alloc_desc_scan is' s = (r, s') \<Longrightarrow> same_locks s s'"
  by (induction is') (auto split: if_splits)

lemma alloc_desc_pair [simp]: "alloc_desc s = (r, s') \<Longrightarrow> held s' = held s" "alloc_desc s = (r, s') \<Longrightarrow> cur s' = cur s"
  by (simp_all add: alloc_desc_def alloc_desc_hc)

lemma rets_alloc_desc [wp]:
  "(\<And>s'. same_locks s s' \<Longrightarrow> rets (f s') Q) \<Longrightarrow> (\<And>i s'. same_locks s s' \<Longrightarrow> rets (g i s') Q) \<Longrightarrow>
   rets (case alloc_desc s of (None, s') \<Rightarrow> f s' | (Some i, s') \<Rightarrow> g i s') Q"
  by (cases "alloc_desc s") (auto simp: alloc_desc_def split: option.splits dest!: alloc_desc_hc)

lemma free_desc_hc [THEN wp1, hc]: "rets (free_desc i s) (h1 s)"
  unfolding free_desc_def Let_def by (intro wp hc; simp)

lemma free_chain_loop_hc [THEN wp1, hc]: "rets (free_chain_loop n i s) (h1 s)"
proof (induction n arbitrary: i s)
  case (Suc n)
  show ?case unfolding free_chain_loop.simps Let_def by (intro wp hc Suc.IH [THEN wp1]; simp)
qed (unfold free_chain_loop.simps Let_def, (intro wp hc; simp))

lemma free_chain_hc [THEN wp1, hc]: "rets (free_chain i s) (h1 s)"
  unfolding free_chain_def Let_def by (intro wp hc; simp)

lemma free_descs_hc [THEN wp1, hc]: "rets (free_descs js s) (h1 s)"
proof (induction js arbitrary: s)
  case (Cons x js)
  show ?case unfolding free_descs.simps Let_def by (intro wp hc Cons.IH [THEN wp1]; simp)
qed (unfold free_descs.simps, (intro wp hc; simp))

lemma alloc3_loop_hc [THEN wp2, hc]: "rets (alloc3_loop n idx s) (h2 s)"
proof (induction n arbitrary: idx s)
  case (Suc n)
  note IH = Suc.IH [THEN wp2]
  obtain r s1 where a: "alloc_desc s = (r, s1)" by (cases "alloc_desc s")
  note e = alloc_desc_pair [OF a]
  show ?case unfolding alloc3_loop.simps a prod.case by (intro wp hc IH; simp add: e)
qed (simp add: rets_def)

lemma alloc3_desc_hc [THEN wp2, hc]: "rets (alloc3_desc s) (h2 s)"
  unfolding alloc3_desc_def Let_def by (intro wp hc; simp)

lemma alloc3_wait_hc [THEN wp2, hc]: "rets (alloc3_wait n E s) (h2 s)"
proof (induction n arbitrary: s)
  case (Suc n)
  show ?case unfolding alloc3_wait.simps Let_def by (intro wp hc Suc.IH [THEN wp2]; simp)
qed (unfold alloc3_wait.simps Let_def, (intro wp hc; simp))

lemma submit_hc [simp]: "held (submit b w i0 i1 i2 s) = held s" "cur (submit b w i0 i1 i2 s) = cur s"
  by (simp_all add: submit_def Let_def)

lemma disk_wait_hc [THEN wp1, hc]: "rets (disk_wait n E b s) (h1 s)"
proof (induction n arbitrary: s)
  case (Suc n)
  show ?case unfolding disk_wait.simps Let_def by (intro wp hc Suc.IH [THEN wp1]; simp)
qed (unfold disk_wait.simps Let_def, (intro wp hc; simp))

lemma virtio_disk_rw_hc [THEN wp1, hc]: "rets (virtio_disk_rw E b w s) (h1 s)"
  unfolding virtio_disk_rw_def Let_def by (intro wp hc; simp)

lemma intr_loop_hc [THEN wp1, hc]: "rets (intr_loop n s) (h1 s)"
proof (induction n arbitrary: s)
  case (Suc n)
  show ?case unfolding intr_loop.simps Let_def by (intro wp hc Suc.IH [THEN wp1]; simp)
qed (unfold intr_loop.simps Let_def, (intro wp hc; simp))

lemma virtio_disk_intr_hc [THEN wp1, hc]: "rets (virtio_disk_intr E s) (h1 s)"
  unfolding virtio_disk_intr_def Let_def by (intro wp hc; simp)

section \<open>Buffer cache and log\<close>

lemma link_hc [simp]:
  "held (link_front b s) = held s" "cur (link_front b s) = cur s"
  "held (unlink_buf b s) = held s" "cur (unlink_buf b s) = cur s"
  by (simp_all add: link_front_def unlink_buf_def Let_def)

lemma find_hc [wp]: "(\<And>r. Q r) \<Longrightarrow> rets (find_block n dev bno b s) Q" "(\<And>r. Q r) \<Longrightarrow> rets (find_unused n b s) Q"
  by (simp_all add: rets_def)

lemma bget_hc [THEN wp2, hc]: "rets (bget E dev bno s) (h2 s)"
  unfolding bget_def Let_def by (intro wp hc; simp)

lemma bread_hc [THEN wp2, hc]: "rets (bread E dev bno s) (h2 s)"
  unfolding bread_def Let_def by (intro wp hc; simp)

lemma bwrite_hc [THEN wp1, hc]: "rets (bwrite E b s) (h1 s)"
  unfolding bwrite_def Let_def by (intro wp hc; simp)

lemma brelse_hc [THEN wp1, hc]: "rets (brelse b s) (h1 s)"
  unfolding brelse_def Let_def by (intro wp hc; simp)

lemma bpin_hc [THEN wp1, hc]: "rets (bpin b s) (h1 s)"
  unfolding bpin_def Let_def by (intro wp hc; simp)

lemma bunpin_hc [THEN wp1, hc]: "rets (bunpin b s) (h1 s)"
  unfolding bunpin_def Let_def by (intro wp hc; simp)

lemma install_loop_hc [THEN wp1, hc]: "rets (install_loop n E rg t s) (h1 s)"
proof (induction n arbitrary: t s)
  case (Suc n)
  show ?case unfolding install_loop.simps Let_def by (intro wp hc Suc.IH [THEN wp1]; simp)
qed (unfold install_loop.simps Let_def, (intro wp hc; simp))

lemma install_trans_hc [THEN wp1, hc]: "rets (install_trans E rg s) (h1 s)"
  unfolding install_trans_def Let_def by (intro wp hc; simp)

lemma read_head_loop_hc [THEN wp1, hc]: "rets (read_head_loop d ns s) (h1 s)"
proof (induction ns arbitrary: s)
  case (Cons x ns)
  show ?case unfolding read_head_loop.simps Let_def by (intro wp hc Cons.IH [THEN wp1]; simp)
qed (unfold read_head_loop.simps, (intro wp hc; simp))

lemma read_head_hc [THEN wp1, hc]: "rets (read_head E s) (h1 s)"
  unfolding read_head_def Let_def by (intro wp hc; simp)

lemma write_head_loop_hc [THEN wp1, hc]: "rets (write_head_loop b ns s) (h1 s)"
proof (induction ns arbitrary: s)
  case (Cons x ns)
  show ?case unfolding write_head_loop.simps Let_def by (intro wp hc Cons.IH [THEN wp1]; simp)
qed (unfold write_head_loop.simps, (intro wp hc; simp))

lemma write_head_hc [THEN wp1, hc]: "rets (write_head E s) (h1 s)"
  unfolding write_head_def Let_def by (intro wp hc; simp)

lemma recover_from_log_hc [THEN wp1, hc]: "rets (recover_from_log E s) (h1 s)"
  unfolding recover_from_log_def Let_def by (intro wp hc; simp)

lemma initlog_hc [THEN wp1, hc]: "rets (initlog E dev sbk s) (h1 s)"
  unfolding initlog_def Let_def by (intro wp hc; simp)

text \<open>Functions that release a lock their caller acquired.\<close>

abbreviation gave_up :: "lockid \<Rightarrow> 'z kst_scheme \<Rightarrow> 'z kst_scheme \<Rightarrow> bool" where
  "gave_up l s s' \<equiv> held s' = remove1 l (held s) \<and> cur s' = cur s"

lemma wr1: "rets m (\<lambda>s'. gave_up l s s') \<Longrightarrow> (\<And>s'. gave_up l s s' \<Longrightarrow> Q s') \<Longrightarrow> rets m Q"
  and wr2: "rets m' (\<lambda>(r, s'). gave_up l s s') \<Longrightarrow> (\<And>r s'. gave_up l s s' \<Longrightarrow> Q' (r, s')) \<Longrightarrow> rets m' Q'"
  and wr3: "rets m'' (\<lambda>(r, x, s'). gave_up l s s') \<Longrightarrow> (\<And>r x s'. gave_up l s s' \<Longrightarrow> Q'' (r, x, s')) \<Longrightarrow> rets m'' Q''"
  by (erule rets_conseq, simp only: split_paired_all prod.case)+

lemma wrb: "rets m (\<lambda>(r, s'). if r then gave_up l s s' else same_locks s s') \<Longrightarrow>
    (\<And>s'. gave_up l s s' \<Longrightarrow> Q (True, s')) \<Longrightarrow> (\<And>s'. same_locks s s' \<Longrightarrow> Q (False, s')) \<Longrightarrow> rets m Q"
  apply (erule rets_conseq)
  subgoal for x by (cases x; cases "fst x") (simp_all only: prod.case fst_conv if_True if_False)
  done

lemma begin_op_loop_hc [THEN wr1, hc]: "rets (begin_op_loop n E s) (\<lambda>s'. gave_up Llog s s')"
proof (induction n arbitrary: s)
  case (Suc n)
  show ?case unfolding begin_op_loop.simps by (intro wp hc Suc.IH [THEN wr1]; simp)
qed (simp add: rets_def)

lemma begin_op_hc [THEN wp1, hc]: "rets (begin_op E s) (h1 s)"
  unfolding begin_op_def Let_def by (intro wp hc; simp)

lemma write_log_loop_hc [THEN wp1, hc]: "rets (write_log_loop n E t s) (h1 s)"
proof (induction n arbitrary: t s)
  case (Suc n)
  show ?case unfolding write_log_loop.simps Let_def by (intro wp hc Suc.IH [THEN wp1]; simp)
qed (unfold write_log_loop.simps Let_def, (intro wp hc; simp))

lemma write_log_hc [THEN wp1, hc]: "rets (write_log E s) (h1 s)"
  unfolding write_log_def Let_def by (intro wp hc; simp)

lemma commit_hc [THEN wp1, hc]: "rets (commit E s) (h1 s)"
  unfolding commit_def Let_def by (intro wp hc; simp)

lemma end_op_hc [THEN wp1, hc]: "rets (end_op E s) (h1 s)"
  unfolding end_op_def Let_def by (intro wp hc; simp)

lemma log_write_hc [THEN wp1, hc]: "rets (log_write b s) (h1 s)"
  unfolding log_write_def Let_def by (intro wp hc; simp)

section \<open>File system\<close>

lemma readsb_hc [THEN wp1, hc]: "rets (readsb E dev s) (h1 s)"
  unfolding readsb_def Let_def by (intro wp hc; simp)

lemma bzero_hc [THEN wp1, hc]: "rets (bzero E dev bno s) (h1 s)"
  unfolding bzero_def Let_def by (intro wp hc; simp)

lemma balloc_loop_hc [THEN wp2, hc]: "rets (balloc_loop n E dev b s) (h2 s)"
proof (induction n arbitrary: b s)
  case (Suc n)
  show ?case unfolding balloc_loop.simps Let_def by (intro wp hc Suc.IH [THEN wp2]; simp)
qed (unfold balloc_loop.simps Let_def, (intro wp hc; simp))

lemma balloc_hc [THEN wp2, hc]: "rets (balloc E dev s) (h2 s)"
  unfolding balloc_def Let_def by (intro wp hc; simp)

lemma bfree_hc [THEN wp1, hc]: "rets (bfree E dev b s) (h1 s)"
  unfolding bfree_def Let_def by (intro wp hc; simp)

lemma iget_hc [THEN wp2, hc]: "rets (iget dev i s) (h2 s)"
  unfolding iget_def Let_def by (intro wp hc; simp)

lemma ialloc_loop_hc [THEN wp2, hc]: "rets (ialloc_loop n E dev ty i s) (h2 s)"
proof (induction n arbitrary: i s)
  case (Suc n)
  show ?case unfolding ialloc_loop.simps Let_def by (intro wp hc Suc.IH [THEN wp2]; simp)
qed (unfold ialloc_loop.simps Let_def, (intro wp hc; simp))

lemma ialloc_hc [THEN wp2, hc]: "rets (ialloc E dev ty s) (h2 s)"
  unfolding ialloc_def Let_def by (intro wp hc; simp)

lemma iupdate_hc [THEN wp1, hc]: "rets (iupdate E ip s) (h1 s)"
  unfolding iupdate_def Let_def by (intro wp hc; simp)

lemma idup_hc [THEN wp2, hc]: "rets (idup ip s) (h2 s)"
  unfolding idup_def Let_def by (intro wp hc; simp)

lemma ilock_hc [THEN wp1, hc]: "rets (ilock E ip s) (h1 s)"
  unfolding ilock_def Let_def by (intro wp hc; simp)

lemma iunlock_hc [THEN wp1, hc]: "rets (iunlock ip s) (h1 s)"
  unfolding iunlock_def Let_def by (intro wp hc; simp)

lemma trunc_direct_hc [THEN wp1, hc]: "rets (trunc_direct E ip js s) (h1 s)"
proof (induction js arbitrary: s)
  case (Cons x js)
  show ?case unfolding trunc_direct.simps Let_def by (intro wp hc Cons.IH [THEN wp1]; simp)
qed (unfold trunc_direct.simps, (intro wp hc; simp))

lemma trunc_indirect_hc [THEN wp1, hc]: "rets (trunc_indirect E ip bp js s) (h1 s)"
proof (induction js arbitrary: s)
  case (Cons x js)
  show ?case unfolding trunc_indirect.simps Let_def by (intro wp hc Cons.IH [THEN wp1]; simp)
qed (unfold trunc_indirect.simps, (intro wp hc; simp))

lemma itrunc_hc [THEN wp1, hc]: "rets (itrunc E ip s) (h1 s)"
  unfolding itrunc_def Let_def by (intro wp hc; simp)

lemma iput_hc [THEN wp1, hc]: "rets (iput E ip s) (h1 s)"
  unfolding iput_def Let_def by (intro wp hc; simp)

lemma iunlockput_hc [THEN wp1, hc]: "rets (iunlockput E ip s) (h1 s)"
  unfolding iunlockput_def Let_def by (intro wp hc; simp)

lemma bmap_hc [THEN wp2, hc]: "rets (bmap E ip bn s) (h2 s)"
  unfolding bmap_def Let_def by (intro wp hc; simp)

lemma readi_loop_hc [THEN wp3, hc]: "rets (readi_loop n E ip dst off lim tot s) (h3 s)"
proof (induction n arbitrary: dst off tot s)
  case (Suc n)
  show ?case unfolding readi_loop.simps Let_def by (intro wp hc Suc.IH [THEN wp3]; simp)
qed (unfold readi_loop.simps Let_def, (intro wp hc; simp))

lemma readi_hc [THEN wp3, hc]: "rets (readi E ip dst off n s) (h3 s)"
  unfolding readi_def Let_def by (intro wp hc; simp)

lemma writei_loop_hc [THEN wp3, hc]: "rets (writei_loop n E ip src off lim tot s) (h3 s)"
proof (induction n arbitrary: src off tot s)
  case (Suc n)
  show ?case unfolding writei_loop.simps Let_def by (intro wp hc Suc.IH [THEN wp3]; simp)
qed (unfold writei_loop.simps Let_def, (intro wp hc; simp))

lemma writei_hc [THEN wp2, hc]: "rets (writei E ip src off n s) (h2 s)"
  unfolding writei_def Let_def by (intro wp hc; simp)

lemma read_dirent_hc [THEN wp2, hc]: "rets (read_dirent E msg dp off s) (h2 s)"
  unfolding read_dirent_def Let_def by (intro wp hc; simp)

lemma dirlookup_loop_hc [THEN wp2, hc]: "rets (dirlookup_loop n E dp name off s) (h2 s)"
proof (induction n arbitrary: off s)
  case (Suc n)
  show ?case unfolding dirlookup_loop.simps Let_def by (intro wp hc Suc.IH [THEN wp2]; simp)
qed (unfold dirlookup_loop.simps Let_def, (intro wp hc; simp))

lemma dirlookup_hc [THEN wp2, hc]: "rets (dirlookup E dp name s) (h2 s)"
  unfolding dirlookup_def Let_def by (intro wp hc; simp)

lemma empty_dirent_hc [THEN wp2, hc]: "rets (empty_dirent n E dp off s) (h2 s)"
proof (induction n arbitrary: off s)
  case (Suc n)
  show ?case unfolding empty_dirent.simps Let_def by (intro wp hc Suc.IH [THEN wp2]; simp)
qed (unfold empty_dirent.simps Let_def, (intro wp hc; simp))

lemma dirlink_hc [THEN wp2, hc]: "rets (dirlink E dp name i s) (h2 s)"
  unfolding dirlink_def Let_def by (intro wp hc; simp)

lemma namex_loop_hc [THEN wp3, hc]: "rets (namex_loop n E ip path par name s) (h3 s)"
proof (induction n arbitrary: ip path name s)
  case (Suc n)
  show ?case unfolding namex_loop.simps Let_def by (intro wp hc Suc.IH [THEN wp3]; simp)
qed (unfold namex_loop.simps Let_def, (intro wp hc; simp))

lemma namex_hc [THEN wp3, hc]: "rets (namex E path par name s) (h3 s)"
  unfolding namex_def Let_def by (intro wp hc; simp)

lemma namei_hc [THEN wp2, hc]: "rets (namei E path s) (h2 s)"
  unfolding namei_def Let_def by (intro wp hc; simp)

lemma nameiparent_hc [THEN wp3, hc]: "rets (nameiparent E path name s) (h3 s)"
  unfolding nameiparent_def Let_def by (intro wp hc; simp)

section \<open>Console\<close>

lemma if_both: "P x \<Longrightarrow> P y \<Longrightarrow> P (if b then x else y)"
  by simp

lemma uartgetc_snd: "same_locks s (snd (uartgetc E s))"
  unfolding uartgetc_def io_read_def prod.case
  by (rule if_both [of "\<lambda>x. same_locks s (snd x)"]) simp_all

lemma uartgetc_pair [simp]: "uartgetc E s = (c, s') \<Longrightarrow> held s' = held s" "uartgetc E s = (c, s') \<Longrightarrow> cur s' = cur s"
  using uartgetc_snd [where s = s and E = E] by simp_all

lemma set_cons_hc [simp]: "held (set_cons f s) = held s" "cur (set_cons f s) = cur s"
  by (simp_all add: set_cons_def)

lemma tx_busy_wait_hc [THEN wp1, hc]: "rets (tx_busy_wait n E s) (h1 s)"
proof (induction n arbitrary: s)
  case (Suc n)
  show ?case unfolding tx_busy_wait.simps Let_def by (intro wp hc Suc.IH [THEN wp1]; simp)
qed (unfold tx_busy_wait.simps Let_def, (intro wp hc; simp))

lemma uartwrite_loop_hc [THEN wp1, hc]: "rets (uartwrite_loop E cs s) (h1 s)"
proof (induction cs arbitrary: s)
  case (Cons c cs)
  show ?case unfolding uartwrite_loop.simps Let_def by (intro wp hc Cons.IH [THEN wp1]; simp)
qed (unfold uartwrite_loop.simps, (intro wp hc; simp))

lemma uartwrite_hc [THEN wp1, hc]: "rets (uartwrite E buf s) (h1 s)"
  unfolding uartwrite_def Let_def by (intro wp hc; simp)

lemma consolewrite_loop_hc [THEN wp2, hc]: "rets (consolewrite_loop n E src lim i s) (h2 s)"
proof (induction n arbitrary: src i s)
  case (Suc n)
  show ?case unfolding consolewrite_loop.simps Let_def by (intro wp hc Suc.IH [THEN wp2]; simp)
qed (unfold consolewrite_loop.simps Let_def, (intro wp hc; simp))

lemma consolewrite_hc [THEN wp2, hc]: "rets (consolewrite E src n s) (h2 s)"
  unfolding consolewrite_def Let_def by (intro wp hc; simp)

lemma cons_wait_hc [THEN wrb, hc]: "rets (cons_wait n E s) (\<lambda>(r, s'). if r then gave_up Lcons s s' else same_locks s s')"
proof (induction n arbitrary: s)
  case (Suc n)
  show ?case unfolding cons_wait.simps by (intro wp hc Suc.IH [THEN wrb]; simp)
qed (simp add: rets_def)

lemma consoleread_loop_hc [THEN wr3, hc]: "rets (consoleread_loop n E dst target m s) (\<lambda>(r, x, s'). gave_up Lcons s s')"
proof (induction n arbitrary: dst m s)
  case (Suc n)
  show ?case unfolding consoleread_loop.simps Let_def by (intro wp hc Suc.IH [THEN wr3]; simp)
qed (simp add: rets_def)

lemma consoleread_hc [THEN wp3, hc]: "rets (consoleread E dst n s) (h3 s)"
  unfolding consoleread_def Let_def by (intro wp hc; simp)

lemma kill_line_hc [THEN wp1, hc]: "rets (kill_line n E s) (h1 s)"
proof (induction n arbitrary: s)
  case (Suc n)
  show ?case unfolding kill_line.simps Let_def by (intro wp hc Suc.IH [THEN wp1]; simp)
qed (unfold kill_line.simps Let_def, (intro wp hc; simp))

lemma consoleintr_char_hc [THEN wp1, hc]: "rets (consoleintr_char E c s) (h1 s)"
  unfolding consoleintr_char_def Let_def by (intro wp hc; simp)

lemma consoleintr_hc [THEN wp1, hc]: "rets (consoleintr E c s) (h1 s)"
  unfolding consoleintr_def Let_def by (intro wp hc; simp)

lemma uartintr_loop_hc [THEN wp1, hc]: "rets (uartintr_loop n E s) (h1 s)"
proof (induction n arbitrary: s)
  case (Suc n)
  show ?case unfolding uartintr_loop.simps Let_def by (intro wp hc Suc.IH [THEN wp1]; simp)
qed (unfold uartintr_loop.simps Let_def, (intro wp hc; simp))

lemma uartintr_hc [THEN wp1, hc]: "rets (uartintr E s) (h1 s)"
  unfolding uartintr_def Let_def by (intro wp hc; simp)

section \<open>Files\<close>

lemma rets_filetype [wp]:
  "(t = FD_NONE \<Longrightarrow> rets a Q) \<Longrightarrow> (t = FD_PIPE \<Longrightarrow> rets b Q) \<Longrightarrow> (t = FD_INODE \<Longrightarrow> rets c Q) \<Longrightarrow>
   (t = FD_DEVICE \<Longrightarrow> rets d Q) \<Longrightarrow>
   rets (case t of FD_NONE \<Rightarrow> a | FD_PIPE \<Rightarrow> b | FD_INODE \<Rightarrow> c | FD_DEVICE \<Rightarrow> d) Q"
  by (cases t) simp_all

lemma filealloc_hc [THEN wp2, hc]: "rets (filealloc s) (h2 s)"
  unfolding filealloc_def Let_def by (intro wp hc; simp)

lemma filedup_hc [THEN wp2, hc]: "rets (filedup f s) (h2 s)"
  unfolding filedup_def Let_def by (intro wp hc; simp)

lemma pipeclose_hc [THEN wp1, hc]: "rets (pipeclose pi wr s) (h1 s)"
  unfolding pipeclose_def Let_def by (intro wp hc; simp)

lemma pipewrite_loop_hc [THEN wr2, hc]: "rets (pipewrite_loop n E pi addr m i s) (\<lambda>(r, s'). gave_up (Lpipe pi) s s')"
proof (induction n arbitrary: i s)
  case (Suc n)
  show ?case unfolding pipewrite_loop.simps by (intro wp hc Suc.IH [THEN wr2]; simp)
qed (simp add: rets_def)

lemma pipe_wait_hc [THEN wrb, hc]: "rets (pipe_wait n E pi s) (\<lambda>(r, s'). if r then gave_up (Lpipe pi) s s' else same_locks s s')"
proof (induction n arbitrary: s)
  case (Suc n)
  show ?case unfolding pipe_wait.simps by (intro wp hc Suc.IH [THEN wrb]; simp)
qed (simp add: rets_def)

lemma pipewrite_hc [THEN wp2, hc]: "rets (pipewrite E pi addr n s) (h2 s)"
  unfolding pipewrite_def Let_def by (intro wp hc; simp)

lemma piperead_copy_hc [THEN wp2, hc]: "rets (piperead_copy n pi addr m i s) (h2 s)"
proof (induction n arbitrary: i s)
  case (Suc n)
  show ?case unfolding piperead_copy.simps Let_def by (intro wp hc Suc.IH [THEN wp2]; simp)
qed (unfold piperead_copy.simps Let_def, (intro wp hc; simp))

lemma piperead_hc [THEN wp2, hc]: "rets (piperead E pi addr n s) (h2 s)"
  unfolding piperead_def Let_def by (intro wp hc; simp)

lemma fileclose_hc [THEN wp1, hc]: "rets (fileclose E f s) (h1 s)"
  unfolding fileclose_def Let_def by (intro wp hc; simp)

lemma close_opt_hc [THEN wp1, hc]: "rets (close_opt E f s) (h1 s)"
  unfolding close_opt_def Let_def by (intro wp hc; simp)

lemma pipealloc_bad_hc [THEN wp2, hc]: "rets (pipealloc_bad E f0 f1 s) (h2 s)"
  unfolding pipealloc_bad_def Let_def by (intro wp hc; simp)

lemma pipealloc_hc [THEN wp2, hc]: "rets (pipealloc E s) (h2 s)"
  unfolding pipealloc_def Let_def by (intro wp hc; simp)

lemma filestat_hc [THEN wp2, hc]: "rets (filestat E f addr s) (h2 s)"
  unfolding filestat_def Let_def by (intro wp hc; simp)

lemma fileread_hc [THEN wp2, hc]: "rets (fileread E f addr n s) (h2 s)"
  unfolding fileread_def Let_def by (intro wp hc; simp)

lemma filewrite_loop_hc [THEN wp2, hc]: "rets (filewrite_loop n E f addr m i s) (h2 s)"
proof (induction n arbitrary: i s)
  case (Suc n)
  show ?case unfolding filewrite_loop.simps Let_def by (intro wp hc Suc.IH [THEN wp2]; simp)
qed (unfold filewrite_loop.simps Let_def, (intro wp hc; simp))

lemma filewrite_hc [THEN wp2, hc]: "rets (filewrite E f addr n s) (h2 s)"
  unfolding filewrite_def Let_def by (intro wp hc; simp)

end
