(* ===== verification/Discipline.thy ===== *)
theory Discipline
  imports Held
begin

unbundle bit_operations_syntax

text \<open>
  Lock discipline of \<open>exec\<close>, \<open>fork\<close>, \<open>exit\<close>, \<open>wait\<close>, the system calls and the traps,
  by the rules of Held.
\<close>

section \<open>Processes\<close>

lemma loadseg_loop_hc [THEN wp2, hc]: "rets (loadseg_loop n E pt va ip off lim i s) (h2 s)"
proof (induction n arbitrary: i s)
  case (Suc n)
  show ?case unfolding loadseg_loop.simps Let_def by (intro wp hc Suc.IH [THEN wp2]; simp)
qed (unfold loadseg_loop.simps Let_def, (intro wp hc; simp))

lemma loadseg_hc [THEN wp2, hc]: "rets (loadseg E pt va ip off lim s) (h2 s)"
  unfolding loadseg_def Let_def by (intro wp hc; simp)

lemma load_phdrs_hc [THEN wp3, hc]: "rets (load_phdrs n E pt ip off lim s) (h3 s)"
proof (induction n arbitrary: off lim s)
  case (Suc n)
  show ?case unfolding load_phdrs.simps Let_def by (intro wp hc Suc.IH [THEN wp3]; simp)
qed (unfold load_phdrs.simps Let_def, (intro wp hc; simp))

lemma push_args_hc [THEN wp2, hc]: "rets (push_args as pt base sp us s) (h2 s)"
proof (induction as arbitrary: sp us s)
  case (Cons a as)
  show ?case unfolding push_args.simps Let_def by (intro wp hc Cons.IH [THEN wp2]; simp)
qed (unfold push_args.simps, (intro wp hc; simp))

lemma exec_bad_hc [THEN wp2, hc]: "rets (exec_bad E pt lim ip s) (h2 s)"
  unfolding exec_bad_def Let_def by (intro wp hc; simp)

lemma exec_bad_late_hc [THEN wp2, hc]: "rets (exec_bad_late pt lim s) (h2 s)"
  unfolding exec_bad_late_def Let_def by (intro wp hc; simp)

lemma exec_commit_hc [THEN wp2, hc]: "rets (exec_commit p path pt lim oldsz entr sp argc s) (h2 s)"
  unfolding exec_commit_def Let_def by (intro wp hc; simp)

lemma exec_stack_hc [THEN wp2, hc]: "rets (exec_stack p path argv pt lim entr s) (h2 s)"
  unfolding exec_stack_def Let_def by (intro wp hc; simp)

lemma kexec_hc [THEN wp2, hc]: "rets (kexec E path argv s) (h2 s)"
  unfolding kexec_def Let_def by (intro wp hc; simp)

lemma dup_files_hc [THEN wp1, hc]: "rets (dup_files p np ns s) (h1 s)"
proof (induction ns arbitrary: s)
  case (Cons x ns)
  show ?case unfolding dup_files.simps Let_def by (intro wp hc Cons.IH [THEN wp1]; simp)
qed (unfold dup_files.simps, (intro wp hc; simp))

lemma kfork_hc [THEN wp2, hc]: "rets (kfork s) (h2 s)"
  unfolding kfork_def Let_def by (intro wp hc; simp)

lemma close_files_hc [THEN wp1, hc]: "rets (close_files E p ns s) (h1 s)"
proof (induction ns arbitrary: s)
  case (Cons x ns)
  show ?case unfolding close_files.simps Let_def by (intro wp hc Cons.IH [THEN wp1]; simp)
qed (unfold close_files.simps, (intro wp hc; simp))

lemma kexit_hc [hc]: "rets (kexit E st s) Q"
  by (auto simp: rets_def kexit_def andthen_Inr_iff)

lemma wrs: "rets m (\<lambda>(r, s'). case r of Inl _ \<Rightarrow> gave_up l s s' | Inr _ \<Rightarrow> same_locks s s') \<Longrightarrow>
    (\<And>i s'. gave_up l s s' \<Longrightarrow> Q (Inl i, s')) \<Longrightarrow> (\<And>b s'. same_locks s s' \<Longrightarrow> Q (Inr b, s')) \<Longrightarrow> rets m Q"
  apply (erule rets_conseq)
  subgoal for x by (cases x; cases "fst x") (simp_all only: prod.case fst_conv sum.case)
  done

lemma kwait_scan_hc [THEN wrs, hc]:
  "rets (kwait_scan p addr ps hk s) (\<lambda>(r, s'). case r of Inl _ \<Rightarrow> gave_up Lwait s s' | Inr _ \<Rightarrow> same_locks s s')"
proof (induction ps arbitrary: hk s)
  case (Cons pp ps)
  show ?case unfolding kwait_scan.simps Let_def by (intro wp hc Cons.IH [THEN wrs]; simp)
qed (simp add: rets_def)

lemma kwait_loop_hc [THEN wr2, hc]: "rets (kwait_loop n E p addr s) (\<lambda>(r, s'). gave_up Lwait s s')"
proof (induction n arbitrary: s)
  case (Suc n)
  show ?case unfolding kwait_loop.simps by (intro wp hc Suc.IH [THEN wr2]; simp)
qed (simp add: rets_def)

lemma kwait_hc [THEN wp2, hc]: "rets (kwait E addr s) (h2 s)"
  unfolding kwait_def Let_def by (intro wp hc; simp)

section \<open>System calls\<close>

lemma rets_if0: "rets m Q \<Longrightarrow> rets n Q \<Longrightarrow> rets (if b then m else n) Q"
  by simp

lemma fetchaddr_hc [THEN wp2, hc]: "rets (fetchaddr addr s) (h2 s)"
  unfolding fetchaddr_def Let_def by (intro wp hc; simp)

lemma fetchstr_hc [THEN wp2, hc]: "rets (fetchstr addr mx s) (h2 s)"
  unfolding fetchstr_def Let_def by (intro wp hc; simp)

lemma rets_any [wp]:
  "(\<And>r. Q1 r) \<Longrightarrow> rets (argraw n s) Q1" "(\<And>r. Q1 r) \<Longrightarrow> rets (argaddr n s) Q1"
  "(\<And>r. Q2 r) \<Longrightarrow> rets (argint n s) Q2" "(\<And>r. Q3 r) \<Longrightarrow> rets (argfd n t) Q3"
  by (simp_all add: rets_def)

lemma fdalloc_scan_hc: "same_locks s (snd (fdalloc_scan ns p f s))"
  by (induction ns) simp_all

lemma argstr_hc [THEN wp2, hc]: "rets (argstr n mx s) (h2 s)"
  unfolding argstr_def Let_def by (intro wp hc; simp)

lemma fdalloc_hc [THEN wp2, hc]: "rets (fdalloc f s) (h2 s)"
  unfolding fdalloc_def by (intro wp) (simp add: fdalloc_scan_hc case_prod_beta)

lemma clear_fd_hc [THEN wp1, hc]: "rets (clear_fd fd s) (h1 s)"
  unfolding clear_fd_def Let_def by (intro wp hc; simp)

lemma sys_dup_hc [THEN wp2, hc]: "rets (sys_dup s) (h2 s)"
  unfolding sys_dup_def Let_def by (intro wp hc; simp)

lemma sys_read_hc [THEN wp2, hc]: "rets (sys_read E s) (h2 s)"
  unfolding sys_read_def Let_def by (intro wp hc; simp)

lemma sys_write_hc [THEN wp2, hc]: "rets (sys_write E s) (h2 s)"
  unfolding sys_write_def Let_def by (intro wp hc; simp)

lemma sys_close_hc [THEN wp2, hc]: "rets (sys_close E s) (h2 s)"
  unfolding sys_close_def Let_def by (intro wp hc; simp)

lemma sys_fstat_hc [THEN wp2, hc]: "rets (sys_fstat E s) (h2 s)"
  unfolding sys_fstat_def Let_def by (intro wp hc; simp)

lemma sys_link_bad_hc [THEN wp2, hc]: "rets (sys_link_bad E ip s) (h2 s)"
  unfolding sys_link_bad_def Let_def by (intro wp hc; simp)

lemma sys_link_hc [THEN wp2, hc]: "rets (sys_link E s) (h2 s)"
  unfolding sys_link_def Let_def by (intro wp hc; simp)

lemma isdirempty_loop_hc [THEN wp2, hc]: "rets (isdirempty_loop n E dp off s) (h2 s)"
proof (induction n arbitrary: off s)
  case (Suc n)
  show ?case unfolding isdirempty_loop.simps Let_def by (intro wp hc Suc.IH [THEN wp2]; simp)
qed (unfold isdirempty_loop.simps Let_def, (intro wp hc; simp))

lemma isdirempty_hc [THEN wp2, hc]: "rets (isdirempty E dp s) (h2 s)"
  unfolding isdirempty_def Let_def by (intro wp hc; simp)

lemma sys_unlink_bad_hc [THEN wp2, hc]: "rets (sys_unlink_bad E dp s) (h2 s)"
  unfolding sys_unlink_bad_def Let_def by (intro wp hc; simp)

lemma sys_unlink_hc [THEN wp2, hc]: "rets (sys_unlink E s) (h2 s)"
  unfolding sys_unlink_def Let_def by (intro wp hc; simp)

lemma create_fail_hc [THEN wp2, hc]: "rets (create_fail E ip dp s) (h2 s)"
  unfolding create_fail_def Let_def by (intro wp hc; simp)

lemma create_hc [THEN wp2, hc]: "rets (create E path ty ma mi s) (h2 s)"
  unfolding create_def by (intro rets_if0 rets_Inr rets_Inl rets_andthen rets_prod rets_option hc; simp)

lemma open_fail_hc [THEN wp2, hc]: "rets (open_fail E ip s) (h2 s)"
  unfolding open_fail_def Let_def by (intro wp hc; simp)

lemma open_inode_hc [THEN wp2, hc]: "rets (open_inode E path om s) (h2 s)"
  unfolding open_inode_def Let_def by (intro wp hc; simp)

lemma open_file_hc [THEN wp2, hc]: "rets (open_file E ip f fd om s) (h2 s)"
  unfolding open_file_def Let_def by (intro wp hc; simp)

lemma sys_open_hc [THEN wp2, hc]: "rets (sys_open E s) (h2 s)"
  unfolding sys_open_def Let_def by (intro wp hc; simp)

lemma sys_mkdir_hc [THEN wp2, hc]: "rets (sys_mkdir E s) (h2 s)"
  unfolding sys_mkdir_def Let_def by (intro wp hc; simp)

lemma sys_mknod_hc [THEN wp2, hc]: "rets (sys_mknod E s) (h2 s)"
  unfolding sys_mknod_def Let_def by (intro wp hc; simp)

lemma sys_chdir_hc [THEN wp2, hc]: "rets (sys_chdir E s) (h2 s)"
  unfolding sys_chdir_def Let_def by (intro wp hc; simp)

lemma fetch_args_hc [THEN wp3, hc]: "rets (fetch_args n ua i av s) (h3 s)"
proof (induction n arbitrary: i av s)
  case (Suc n)
  show ?case unfolding fetch_args.simps Let_def by (intro wp hc Suc.IH [THEN wp3]; simp)
qed (unfold fetch_args.simps Let_def, (intro wp hc; simp))

lemma free_args_hc [THEN wp1, hc]: "rets (free_args as s) (h1 s)"
proof (induction as arbitrary: s)
  case (Cons a as)
  show ?case unfolding free_args.simps Let_def by (intro wp hc Cons.IH [THEN wp1]; simp)
qed (unfold free_args.simps, (intro wp hc; simp))

lemma sys_exec_hc [THEN wp2, hc]: "rets (sys_exec E s) (h2 s)"
  unfolding sys_exec_def Let_def by (intro wp hc; simp)

lemma sys_pipe_close_hc [THEN wp2, hc]: "rets (sys_pipe_close E rf wrf s) (h2 s)"
  unfolding sys_pipe_close_def Let_def by (intro wp hc; simp)

lemma sys_pipe_hc [THEN wp2, hc]: "rets (sys_pipe E s) (h2 s)"
  unfolding sys_pipe_def Let_def by (intro wp hc; simp)

lemma sys_exit_hc [THEN wp2, hc]: "rets (sys_exit E s) (h2 s)"
  unfolding sys_exit_def Let_def by (intro wp hc; simp)

lemma sys_getpid_hc [THEN wp2, hc]: "rets (sys_getpid s) (h2 s)"
  unfolding sys_getpid_def Let_def by (intro wp hc; simp)

lemma ret_int_hc [simp]: "h2 s (ret_int r) = h2 s r"
  by (simp add: ret_int_def case_prod_beta)

lemma sys_fork_hc [THEN wp2, hc]: "rets (sys_fork s) (h2 s)"
  unfolding sys_fork_def Let_def by (intro wp hc; simp)

lemma sys_wait_hc [THEN wp2, hc]: "rets (sys_wait E s) (h2 s)"
  unfolding sys_wait_def Let_def by (intro wp hc; simp)

lemma sys_sbrk_hc [THEN wp2, hc]: "rets (sys_sbrk s) (h2 s)"
  unfolding sys_sbrk_def Let_def by (intro wp hc; simp)

lemma pause_loop_hc [THEN wr2, hc]: "rets (pause_loop n E t0 m s) (\<lambda>(r, s'). gave_up Ltick s s')"
proof (induction n arbitrary: s)
  case (Suc n)
  show ?case unfolding pause_loop.simps by (intro wp hc Suc.IH [THEN wr2]; simp)
qed (simp add: rets_def)

lemma sys_pause_hc [THEN wp2, hc]: "rets (sys_pause E s) (h2 s)"
  unfolding sys_pause_def Let_def by (intro wp hc; simp)

lemma sys_kill_hc [THEN wp2, hc]: "rets (sys_kill s) (h2 s)"
  unfolding sys_kill_def Let_def by (intro wp hc; simp)

lemma sys_uptime_hc [THEN wp2, hc]: "rets (sys_uptime s) (h2 s)"
  unfolding sys_uptime_def Let_def by (intro wp hc; simp)

lemma sys_hello_hc [THEN wp2, hc]: "rets (sys_hello E s) (h2 s)"
  unfolding sys_hello_def Let_def by (intro wp hc; simp)

lemma ps_loop_hc [THEN wp1, hc]: "rets (ps_loop E ps s) (h1 s)"
proof (induction ps arbitrary: s)
  case (Cons x ps)
  show ?case unfolding ps_loop.simps Let_def by (intro wp hc Cons.IH [THEN wp1]; simp)
qed (unfold ps_loop.simps, (intro wp hc; simp))

lemma sys_ps_hc [THEN wp2, hc]: "rets (sys_ps E s) (h2 s)"
  unfolding sys_ps_def Let_def by (intro wp hc; simp)

lemma sys_memtest_hc [THEN wp2, hc]: "rets (sys_memtest E s) (h2 s)"
  unfolding sys_memtest_def Let_def by (intro wp hc; simp)

lemma pte_update_lock_hc [THEN wp1, hc]: "rets (pte_update_lock s) (h1 s)"
  unfolding pte_update_lock_def Let_def by (intro wp hc; simp)

lemma sys_testlock_hc [THEN wp2, hc]: "rets (sys_testlock s) (h2 s)"
  unfolding sys_testlock_def Let_def by (intro wp hc; simp)

lemma sys_getcycles_hc [THEN wp2, hc]: "rets (sys_getcycles s) (h2 s)"
  unfolding sys_getcycles_def Let_def by (intro wp hc; simp)

lemma sys_nullcall_hc [THEN wp2, hc]: "rets (sys_nullcall s) (h2 s)"
  unfolding sys_nullcall_def Let_def by (intro wp hc; simp)

lemma sys_set_filter_hc [THEN wp2, hc]: "rets (sys_set_filter s) (h2 s)"
  unfolding sys_set_filter_def Let_def by (intro wp hc; simp)

lemma sys_testnolock_hc [THEN wp2, hc]: "rets (sys_testnolock s) (h2 s)"
  by (simp add: rets_def sys_testnolock_def pte_update_nolock_def Let_def)

lemma as_u64_hc [THEN wp2, hc]: "rets m (h2 s) \<Longrightarrow> rets (as_u64 m) (h2 s)"
  unfolding as_u64_def by (rule rets_andthen, erule rets_conseq, rule rets_Inr) simp

lemma syscalls_hc:
  assumes "syscalls E num = Some f"
  shows "rets (f s) (h2 s)"
  using assms unfolding syscalls_def by (simp split: if_splits; hypsubst; intro hc; simp)

lemma syscall_hc [THEN wp1, hc]: "rets (syscall E s) (h1 s)"
  unfolding syscall_def Let_def
  by (intro rets_if0 wp hc; (rule syscalls_hc [THEN wp2], simp split: if_splits, intro wp)?) simp_all

section \<open>Traps\<close>

lemma plic_complete_hc [simp]: "held (plic_complete i s) = held s" "cur (plic_complete i s) = cur s"
  by (simp_all add: plic_complete_def)

lemma plic_claim_pair [simp]: "plic_claim E s = (i, s') \<Longrightarrow> held s' = held s" "plic_claim E s = (i, s') \<Longrightarrow> cur s' = cur s"
  by (auto simp: plic_claim_def io_read_def)

lemma tf_set_hc [simp]: "held (tf_set p f v s) = held s" "cur (tf_set p f v s) = cur s"
  by (simp_all add: tf_set_def)

lemma clockintr_hc [THEN wp1, hc]: "rets (clockintr E s) (h1 s)"
  unfolding clockintr_def Let_def by (intro wp hc; simp)

lemma devintr_hc [THEN wp2, hc]: "rets (devintr E s) (h2 s)"
  unfolding devintr_def Let_def by (intro wp hc; simp)

lemma prepare_return_hc [THEN wp1, hc]: "rets (prepare_return s) (h1 s)"
  unfolding prepare_return_def Let_def by (intro wp hc; simp)

lemma klogger_hc [THEN wp1, hc]: "rets (klogger E p s) (h1 s)"
  unfolding klogger_def Let_def by (intro wp hc; simp)

lemma pagefault_hc [THEN wp1, hc]: "rets (pagefault E p s) (h1 s)"
  unfolding pagefault_def Let_def by (intro wp hc; simp)

lemma trap_cause_hc [THEN wp2, hc]: "rets (trap_cause E p s) (h2 s)"
  unfolding trap_cause_def Let_def by (intro wp hc; simp)

lemma usertrap_hc [THEN wp2, hc]: "rets (usertrap E s) (h2 s)"
  unfolding usertrap_def Let_def by (intro wp hc; simp)

lemma kerneltrap_hc [THEN wp1, hc]: "rets (kerneltrap E s) (h1 s)"
  unfolding kerneltrap_def Let_def by (intro wp hc; simp)

end
