(* ===== verification/Ksample.thy ===== *)
theory Ksample
  imports Kernel
begin

text \<open>
  A concrete kernel state with one running process, on which statements about the kernel
  are evaluated, and an environment in which no other thread changes anything.
\<close>

definition buf0 :: buf where
  "buf0 = \<lparr>valid = False, b_disk = False, b_dev = 0, blockno = 0, refcnt = 0, b_prev = 0, b_next = 0, bdata = replicate 1024 0\<rparr>"

definition inode0 :: inode where
  "inode0 = \<lparr>i_dev = 0, inum = 0, i_ref = 0, i_valid = False, i_type = 0, i_major = 0, i_minor = 0, nlink = 0,
     i_size = 0, addrs = replicate 13 0\<rparr>"

definition kfile0 :: kfile where
  "kfile0 = \<lparr>ftype = FD_NONE, f_ref = 0, readable = False, writable = False, f_pipe = 0, f_ip = 0, f_off = 0, f_major = 0\<rparr>"

definition pipe0 :: pipe where
  "pipe0 = \<lparr>p_data = (\<lambda>_. 0), nread = 0, nwrite = 0, readopen = False, writeopen = False\<rparr>"

definition vdisk0 :: vdisk where
  "vdisk0 = \<lparr>desc = (\<lambda>_. \<lparr>q_addr = 0, q_len = 0, q_flags = 0, q_next = 0\<rparr>), avail_idx = 0, avail_ring = (\<lambda>_. 0),
     used_ridx = 0, used_ring = (\<lambda>_. 0), dfree = (\<lambda>_. True), used_idx = 0, info_b = (\<lambda>_. None),
     info_status = (\<lambda>_. 0), ops = (\<lambda>_. \<lparr>r_type = 0, r_sector = 0\<rparr>), q_desc = 0, q_avail = 0, q_used = 0\<rparr>"

definition superblock0 :: superblock where
  "superblock0 = \<lparr>sb_magic = 0, sb_size = 0, sb_nblocks = 0, sb_ninodes = 0, sb_nlog = 0, sb_logstart = 0,
     sb_inodestart = 0, sb_bmapstart = 0\<rparr>"

definition run0 :: kernel where
  "run0 = \<lparr>held = [], ien = True, hart = 1, cur = Some 0, csr = csr0, syms = syms0,
     mem = (\<lambda>_. 0), freelist = 0, kref = (\<lambda>_. 0), kernel_pagetable = 0,
     procs = (\<lambda>_. proc0)(0 := proc0\<lparr>state := RUNNING, pid := 1\<rparr>),
     nextpid = 2, initproc = None, ticks = 0, stride_faults = 0, shared_pte = 0, out = [],
     switches = 0, slocks = (\<lambda>_. \<lparr>sl_locked = 0, sl_pid = 0\<rparr>), bufs = (\<lambda>_. buf0), disk = (\<lambda>_. replicate 1024 0),
     sb = superblock0, lg = \<lparr>lg_start = 0, outstanding = 0, committing = False, lg_dev = 0, lh_n = 0, lh_block = (\<lambda>_. 0)\<rparr>,
     inodes = (\<lambda>_. inode0), files = (\<lambda>_. kfile0), pipes = (\<lambda>_. pipe0),
     cons = \<lparr>c_buf = (\<lambda>_. 0), c_r = 0, c_w = 0, c_e = 0\<rparr>, tx_busy = False, vd = vdisk0,
     first_ret = False, io_time = 0, io_log = []\<rparr>"

definition env0 :: env where
  "env0 = \<lparr>others = (\<lambda>s. s), mmio = (\<lambda>_ _. 0), clock = (\<lambda>_. 0), garbage = (\<lambda>_. 0), patience = 1\<rparr>"

end
