(* ===== verification/Printing.thy ===== *)
theory Printing
  imports Held Ksample
begin

unbundle bit_operations_syntax

text \<open>
  What \<open>printf\<close> does: it prints the bytes of a rendering of its format, all of them while it
  holds its lock, and changes nothing else. The digits of a number are its numeral and fit
  the buffer of \<open>printint\<close>.
\<close>

section \<open>Printing bytes\<close>

text \<open>The state without the console output and the device registers.\<close>

definition core :: "kernel \<Rightarrow> kernel" where
  "core s = s\<lparr>held := [], out := [], io_time := 0, io_log := []\<rparr>"

lemma core_update [simp]:
  "core (s\<lparr>held := h\<rparr>) = core s" "core (s\<lparr>out := bs\<rparr>) = core s"
  "core (s\<lparr>io_time := t\<rparr>) = core s" "core (s\<lparr>io_log := l\<rparr>) = core s" "core (io_write a v s) = core s"
  by (simp_all add: core_def io_write_def)

lemma core_fields [simp]:
  "cur (core s) = cur s" "csr (core s) = csr s" "mem (core s) = mem s" "procs (core s) = procs s" "ien (core s) = ien s"
  "syms (core s) = syms s" "hart (core s) = hart s" "bufs (core s) = bufs s" "disk (core s) = disk s" "lg (core s) = lg s"
  "slocks (core s) = slocks s" "sb (core s) = sb s" "inodes (core s) = inodes s" "files (core s) = files s" "pipes (core s) = pipes s"
  "vd (core s) = vd s" "switches (core s) = switches s" "cons (core s) = cons s" "tx_busy (core s) = tx_busy s" "ticks (core s) = ticks s"
  "initproc (core s) = initproc s" "kref (core s) = kref s" "freelist (core s) = freelist s"
  by (simp_all add: core_def)

lemma core_sel:
  assumes "core s' = core s"
  shows "cur s' = cur s" "csr s' = csr s" "mem s' = mem s" "procs s' = procs s" "ien s' = ien s"
    "syms s' = syms s" "hart s' = hart s" "bufs s' = bufs s" "disk s' = disk s" "lg s' = lg s"
    "slocks s' = slocks s" "sb s' = sb s" "inodes s' = inodes s" "files s' = files s" "pipes s' = pipes s"
    "vd s' = vd s" "switches s' = switches s" "cons s' = cons s" "tx_busy s' = tx_busy s" "ticks s' = ticks s"
    "initproc s' = initproc s" "kref s' = kref s" "freelist s' = freelist s"
  using arg_cong [OF assms, of cur] arg_cong [OF assms, of csr] arg_cong [OF assms, of mem] arg_cong [OF assms, of procs]
  arg_cong [OF assms, of ien] arg_cong [OF assms, of syms] arg_cong [OF assms, of hart] arg_cong [OF assms, of bufs]
  arg_cong [OF assms, of disk] arg_cong [OF assms, of lg] arg_cong [OF assms, of slocks] arg_cong [OF assms, of sb]
  arg_cong [OF assms, of inodes] arg_cong [OF assms, of files] arg_cong [OF assms, of pipes] arg_cong [OF assms, of vd]
  arg_cong [OF assms, of switches] arg_cong [OF assms, of cons] arg_cong [OF assms, of tx_busy] arg_cong [OF assms, of ticks]
  arg_cong [OF assms, of initproc] arg_cong [OF assms, of kref] arg_cong [OF assms, of freelist]
  by simp_all

text \<open>\<open>prints s bs s'\<close>: from \<open>s\<close> to \<open>s'\<close> the bytes \<open>bs\<close> went to the console and nothing else changed.\<close>

abbreviation prints :: "kernel \<Rightarrow> u8 list \<Rightarrow> kernel \<Rightarrow> bool" where
  "prints s bs s' \<equiv> core s' = core s \<and> held s' = held s \<and> out s' = out s @ bs"

lemma wo1: "rets m (\<lambda>s'. prints s bs s') \<Longrightarrow> (\<And>s'. prints s bs s' \<Longrightarrow> Q s') \<Longrightarrow> rets m Q"
  by (erule rets_conseq)

named_theorems po

lemma tx_wait_po [THEN wo1, po]: "rets (tx_wait n E s) (\<lambda>s'. prints s [] s')"
proof (induction n arbitrary: s)
  case (Suc n)
  show ?case unfolding tx_wait.simps by (intro wp Suc.IH [THEN wo1]; simp)
qed (simp add: rets_def)

lemma uartputc_sync_po [THEN wo1, po]: "rets (uartputc_sync E c s) (\<lambda>s'. prints s [c] s')"
  unfolding uartputc_sync_def by (intro wp po) (simp add: write_thr_def)

text \<open>A backspace is printed as a space over the last character.\<close>

definition char_bytes :: "int \<Rightarrow> u8 list" where
  "char_bytes c = (if c = BACKSPACE then [8, 32, 8] else [word_of_int c])"

lemma char_bytes_byte [simp]: "char_bytes (uint (c :: u8)) = [c]"
  using uint_lt2p [of c] by (simp add: char_bytes_def BACKSPACE_def)

lemma consputc_po [THEN wo1, po]: "rets (consputc E c s) (\<lambda>s'. prints s (char_bytes c) s')"
  unfolding consputc_def by (intro wp po; simp add: char_bytes_def)

lemma consputs_po [THEN wo1, po]: "rets (consputs E cs s) (\<lambda>s'. prints s cs s')"
proof (induction cs arbitrary: s)
  case (Cons c cs)
  show ?case unfolding consputs.simps by (intro wp po Cons.IH [THEN wo1]; simp)
qed (simp add: rets_def)

section \<open>printf\<close>

text \<open>The rendering: what a conversion prints, with the arguments that are left, and what a
  format prints. \<open>None\<close> stands for a call with too few arguments or one of another type.\<close>

definition hex_bytes :: "u64 \<Rightarrow> u8 list" where
  "hex_bytes x = map (\<lambda>i. digits ! unat (drop_bit 60 (push_bit (4 * i) x))) [0..<16]"

fun conv_bytes :: "conv \<Rightarrow> parg list \<Rightarrow> (u8 list \<times> parg list) option" where
  "conv_bytes CPercent args = Some ([37], args)"
| "conv_bytes (CUnknown b) args = Some ([37, b], args)"
| "conv_bytes CEnd args = Some ([], args)"
| "conv_bytes (CInt base sg bits) (PInt i # args) = Some (rev (printint_buf (va_int bits sg i) base sg), args)"
| "conv_bytes CPtr (PInt i # args) = Some ([48, 120] @ hex_bytes (word_of_int i), args)"
| "conv_bytes CChar (PInt i # args) = Some (char_bytes (uint (word_of_int i :: u32)), args)"
| "conv_bytes CStr (PStr None # args) = Some (bytes_of ''(null)'', args)"
| "conv_bytes CStr (PStr (Some t) # args) = Some (takeWhile (\<lambda>b. b \<noteq> 0) t, args)"
| "conv_bytes _ _ = None"

function render :: "u8 list \<Rightarrow> parg list \<Rightarrow> u8 list option" where
  "render [] args = Some []"
| "render (c # fmt) args =
     (if c = 0 then Some []
      else if c \<noteq> 37 then map_option ((#) c) (render fmt args)
      else case conv_of fmt of (cv, n) \<Rightarrow>
        if cv = CEnd then Some []
        else case conv_bytes cv args of
          None \<Rightarrow> None
        | Some (bs, args) \<Rightarrow> map_option ((@) bs) (render (drop n fmt) args))"
  by pat_completeness auto
termination by (relation "measure (length \<circ> fst)") auto

lemma printptr_loop_po:
  "rets (printptr_loop n E (push_bit (4 * i) x) s)
     (\<lambda>s'. prints s (map (\<lambda>i. digits ! unat (drop_bit 60 (push_bit (4 * i) x))) [i..<i + n]) s')"
proof (induction n arbitrary: i s)
  case (Suc n)
  note IH = Suc.IH [of "Suc i", THEN wo1]
  have p: "push_bit 4 (push_bit (4 * i) x) = push_bit (4 * Suc i) x" by simp
  have u: "[i..<i + Suc n] = i # [Suc i..<Suc i + n]" by (simp add: upt_rec)
  show ?case unfolding printptr_loop.simps p u list.map by (intro wp po IH; simp del: upt_Suc)
qed (simp add: rets_def)

lemma printptr_po [THEN wo1, po]: "rets (printptr E x s) (\<lambda>s'. prints s ([48, 120] @ hex_bytes x) s')"
proof -
  have c: "char_bytes 48 = [48]" "char_bytes 120 = [120]" by (simp_all add: char_bytes_def BACKSPACE_def)
  note l = printptr_loop_po [of 16 E 0 x, simplified, THEN wo1]
  show ?thesis unfolding printptr_def by (intro wp po l; simp add: c hex_bytes_def)
qed

lemma printint_po [THEN wo1, po]: "rets (printint E xx base sg s) (\<lambda>s'. prints s (rev (printint_buf xx base sg)) s')"
  unfolding printint_def by (intro wp po; simp)

lemma print_conv_po:
  "rets (print_conv E c args s) (\<lambda>(args', s'). \<exists>bs. conv_bytes c args = Some (bs, args') \<and> prints s bs s')"
proof -
  have c: "char_bytes 37 = [37]" by (simp add: char_bytes_def BACKSPACE_def)
  show ?thesis
  proof (cases "(c, args)" rule: conv_bytes.cases)
  qed (simp add: print_conv_def rets_Inl; (intro wp po; simp add: c)?)+
qed

lemma printf_loop_po:
  "rets (printf_loop E fmt args s) (\<lambda>s'. \<exists>bs. render fmt args = Some bs \<and> prints s bs s')"
proof (induction "length fmt" arbitrary: fmt args s rule: less_induct)
  case less
  note IH = less.hyps [THEN rets_conseq]
  show ?case
  proof (cases fmt)
    case (Cons c cs)
    show ?thesis unfolding Cons printf_loop.simps
      by (intro wp po IH print_conv_po [THEN rets_conseq]; (auto simp: Cons intro!: wp IH)?) 
  qed (simp add: rets_def)
qed

lemma printf_core_rets: "(\<And>s'. core s' = core s \<Longrightarrow> held s' = held s \<Longrightarrow> Q s') \<Longrightarrow> rets (printf E fmt args s) Q"
  unfolding printf_def by (intro wp printf_loop_po [THEN rets_conseq]) auto

text \<open>With a transmitter that is always idle no wait is in vain.\<close>

definition uart_ready :: "env \<Rightarrow> bool" where
  "uart_ready E \<longleftrightarrow> patience E > 0 \<and> (\<forall>t. mmio E LSR t AND LSR_TX_IDLE \<noteq> 0)"

definition returns :: "'a res \<Rightarrow> bool" where
  "returns m \<longleftrightarrow> (\<exists>x. m = Inr x)"

named_theorems rt

lemma returns_Inr [rt]: "returns (Inr x)"
  by (simp add: returns_def)

lemma returns_andthen [rt]: "returns m \<Longrightarrow> (\<And>x. m = Inr x \<Longrightarrow> returns (f x)) \<Longrightarrow> returns (andthen m f)"
  by (auto simp: returns_def)

lemma returns_if [rt]: "(b \<Longrightarrow> returns m) \<Longrightarrow> (\<not> b \<Longrightarrow> returns n) \<Longrightarrow> returns (if b then m else n)"
  by simp

lemma returns_kacquire: "l \<notin> set (held s) \<Longrightarrow> returns (kacquire l s)"
  and returns_krelease: "l \<in> set (held s) \<Longrightarrow> returns (krelease l s)"
  by (simp_all add: returns_def kacquire_def krelease_def)

lemma rets_Inr_iff: "rets m Q \<Longrightarrow> m = Inr x \<Longrightarrow> Q x"
  by (simp add: rets_def)

lemma uartputc_sync_rt [rt]: "uart_ready E \<Longrightarrow> returns (uartputc_sync E c s)"
  by (cases "patience E") (simp_all add: uart_ready_def uartputc_sync_def io_read_def returns_def)

lemma consputc_rt [rt]: "uart_ready E \<Longrightarrow> returns (consputc E c s)"
  unfolding consputc_def by (intro rt)

lemma consputs_rt [rt]: "uart_ready E \<Longrightarrow> returns (consputs E cs s)"
  by (induction cs arbitrary: s) (simp_all add: rt)

lemma printptr_loop_rt [rt]: "uart_ready E \<Longrightarrow> returns (printptr_loop n E x s)"
  by (induction n arbitrary: x s) (simp_all add: rt)

lemma printptr_rt [rt]: "uart_ready E \<Longrightarrow> returns (printptr E x s)"
  unfolding printptr_def by (intro rt)

lemma printint_rt [rt]: "uart_ready E \<Longrightarrow> returns (printint E xx base sg s)"
  unfolding printint_def by (intro rt)

lemma print_conv_rt:
  assumes E: "uart_ready E" and c: "conv_bytes c args \<noteq> None"
  shows "returns (print_conv E c args s)"
proof (cases "(c, args)" rule: conv_bytes.cases)
qed (use c in \<open>simp add: print_conv_def; (intro rt E)?\<close>)+

lemma printf_loop_rt:
  "uart_ready E \<Longrightarrow> render fmt args \<noteq> None \<Longrightarrow> returns (printf_loop E fmt args s)"
proof (induction "length fmt" arbitrary: fmt args s rule: less_induct)
  case less
  show ?case
  proof (cases fmt)
    case (Cons c cs)
    obtain cv n where cv: "conv_of cs = (cv, n)" by (cases "conv_of cs")
    have "returns (printf_loop E (drop n cs) args' s')"
      if "c \<noteq> 0" "c = 37" "cv \<noteq> CEnd" and pc: "print_conv E cv args s = Inr (args', s')" for args' s'
    proof -
      obtain bs where "conv_bytes cv args = Some (bs, args')"
        using rets_Inr_iff [OF print_conv_po pc] by auto
      then show ?thesis using less that cv by (intro less.hyps) (auto simp: Cons)
    qed
    moreover have "returns (print_conv E cv args s)" if "c = 37" "cv \<noteq> CEnd"
      using less that cv by (intro print_conv_rt) (auto simp: Cons split: option.splits)
    moreover have "returns (printf_loop E cs args s')" if "c \<noteq> 0" "c \<noteq> 37" for s'
      using less that by (intro less.hyps) (auto simp: Cons)
    ultimately show ?thesis using less.prems(1) unfolding Cons
      by (auto simp: cv intro!: returns_andthen returns_Inr consputc_rt)
  qed (simp add: returns_def)
qed

text \<open>Total correctness: \<open>does m Q\<close> says that \<open>m\<close> returns a result and \<open>Q\<close> holds of it.\<close>

definition does :: "'a res \<Rightarrow> ('a \<Rightarrow> bool) \<Rightarrow> bool" where
  "does m Q \<longleftrightarrow> (\<exists>x. m = Inr x \<and> Q x)"

named_theorems tp

lemma does_Inr [tp]: "Q x \<Longrightarrow> does (Inr x) Q"
  by (simp add: does_def)

lemma does_andthen [tp]: "does m (\<lambda>x. does (f x) Q) \<Longrightarrow> does (andthen m f) Q"
  by (auto simp: does_def)

lemma does_if [tp]: "(b \<Longrightarrow> does m Q) \<Longrightarrow> (\<not> b \<Longrightarrow> does n Q) \<Longrightarrow> does (if b then m else n) Q"
  by simp

lemma does_kacquire [tp]: "l \<notin> set (held s) \<Longrightarrow> Q (s\<lparr>held := l # held s\<rparr>) \<Longrightarrow> does (kacquire l s) Q"
  and does_krelease [tp]: "l \<in> set (held s) \<Longrightarrow> Q (s\<lparr>held := remove1 l (held s)\<rparr>) \<Longrightarrow> does (krelease l s) Q"
  by (simp_all add: does_def kacquire_def krelease_def)

lemma does_conseq: "does m P \<Longrightarrow> (\<And>x. P x \<Longrightarrow> Q x) \<Longrightarrow> does m Q"
  by (auto simp: does_def)

lemma doesI: "returns m \<Longrightarrow> rets m Q \<Longrightarrow> does m Q"
  by (auto simp: does_def returns_def rets_def)

lemma does_consputc:
  assumes "uart_ready E" "\<And>s'. prints s (char_bytes c) s' \<Longrightarrow> Q s'"
  shows "does (consputc E c s) Q"
  using consputc_rt [OF assms(1)] by (rule doesI) (rule consputc_po [OF assms(2)])

section \<open>Numbers\<close>

definition digit_val :: "u8 \<Rightarrow> nat" where
  "digit_val b = (if b < 58 then unat b - 48 else unat b - 87)"

text \<open>The number a numeral stands for, with the sign in front.\<close>

definition numeral_val :: "nat \<Rightarrow> u8 list \<Rightarrow> nat" where
  "numeral_val base bs = foldl (\<lambda>a b. a * base + digit_val b) 0 bs"

definition read_num :: "nat \<Rightarrow> u8 list \<Rightarrow> int" where
  "read_num base bs = (if bs \<noteq> [] \<and> hd bs = 45 then - int (numeral_val base (tl bs)) else int (numeral_val base bs))"

lemma digit_val_digits:
  assumes "d < 16"
  shows "digit_val (digits ! d) = d \<and> digits ! d \<noteq> 45"
proof -
  have "\<forall>d \<in> set [0..<16]. digit_val (digits ! d) = d \<and> digits ! d \<noteq> 45" by code_simp
  then show ?thesis using assms by simp
qed

lemma numeral_val_snoc: "numeral_val base (bs @ [b]) = numeral_val base bs * base + digit_val b"
  by (simp add: numeral_val_def)

declare digit_loop.simps [simp del]

lemma digit_loop_val:
  assumes "2 \<le> base" "base \<le> 16"
  shows "numeral_val base (rev (digit_loop base x)) = x"
  using assms
proof (induction base x rule: digit_loop.induct)
  case (1 base x)
  have d: "digit_val (digits ! (x mod base)) = x mod base" using digit_val_digits [of "x mod base"] 1 mod_less_divisor [of base x] by linarith
  have l: "digit_loop base x = digits ! (x mod base) # (if base < 2 \<or> x div base = 0 then [] else digit_loop base (x div base))"
    by (rule digit_loop.simps)
  show ?case
  proof (cases "x div base = 0")
    case True
    then have "x mod base = x" using div_mult_mod_eq [of x base] by simp
    then show ?thesis unfolding l using True d by (simp add: numeral_val_def)
  next
    case False
    then show ?thesis unfolding l using 1 d by (simp add: numeral_val_snoc)
  qed
qed

lemma digit_loop_length: "2 \<le> base \<Longrightarrow> x < base ^ Suc n \<Longrightarrow> length (digit_loop base x) \<le> Suc n"
proof (induction n arbitrary: x)
  case 0
  then show ?case by (simp add: digit_loop.simps [of base x])
next
  case (Suc n)
  have "x div base < base ^ Suc n" using Suc.prems by (intro less_mult_imp_div_less) (simp add: mult.commute)
  from Suc.IH [OF Suc.prems(1) this] show ?case by (simp add: digit_loop.simps [of base x])
qed

lemma digit_loop_ends: "2 \<le> base \<Longrightarrow> base \<le> 16 \<Longrightarrow> digit_loop base x \<noteq> [] \<and> last (digit_loop base x) \<noteq> 45"
proof (induction base x rule: digit_loop.induct)
  case (1 base x)
  have "digits ! (x mod base) \<noteq> 45" using digit_val_digits [of "x mod base"] 1 mod_less_divisor [of base x] by linarith
  then show ?case using 1 by (subst (1 2) digit_loop.simps) (simp split: if_split)
qed

lemma printint_abs:
  assumes "- (2 ^ 63) \<le> xx" "xx < 2 ^ 63"
  shows "unat (word_of_int (if sg \<and> xx < 0 then - xx else xx) :: u64) =
    (if sg then nat \<bar>xx\<bar> else nat (uint (word_of_int xx :: u64)))"
proof (cases "sg \<or> 0 \<le> xx")
  case True
  have "uint (word_of_int \<bar>xx\<bar> :: u64) = \<bar>xx\<bar>"
    using assms by (simp add: uint_word_of_int_eq take_bit_int_eq_self)
  then have "unat (word_of_int \<bar>xx\<bar> :: u64) = nat \<bar>xx\<bar>" by (simp only: unat_eq_nat_uint)
  then show ?thesis using True by (cases "xx < 0"; cases sg) (simp_all add: abs_of_neg abs_of_nonneg)
qed simp

section \<open>What a format means\<close>

text \<open>The specification of \<open>printf\<close> is written without its code: a message is a list of pieces, and
  each piece has its text in the format string, its arguments and what it prints. The
  numeral of a number is defined from its most significant digit on.\<close>

definition digit_char :: "nat \<Rightarrow> u8" where
  "digit_char d = (if d < 10 then of_nat (48 + d) else of_nat (87 + d))"

fun positional :: "nat \<Rightarrow> nat \<Rightarrow> u8 list" where
  "positional b x = (if b < 2 \<or> x < b then [digit_char x] else positional b (x div b) @ [digit_char (x mod b)])"

declare positional.simps [simp del]

definition decimal :: "int \<Rightarrow> u8 list" where
  "decimal i = (if i < 0 then 45 # positional 10 (nat (- i)) else positional 10 (nat i))"

datatype piece =
    FText string | FPercent
  | FD int | FLD int | FLLD int | FU int | FLU int | FLLU int | FX int | FLX int | FLLX int
  | FP u64 | FCh u8 | FS "u8 list option"

fun piece_fmt :: "piece \<Rightarrow> string" where
  "piece_fmt (FText t) = t" | "piece_fmt FPercent = ''%%''"
| "piece_fmt (FD _) = ''%d''" | "piece_fmt (FLD _) = ''%ld''" | "piece_fmt (FLLD _) = ''%lld''"
| "piece_fmt (FU _) = ''%u''" | "piece_fmt (FLU _) = ''%lu''" | "piece_fmt (FLLU _) = ''%llu''"
| "piece_fmt (FX _) = ''%x''" | "piece_fmt (FLX _) = ''%lx''" | "piece_fmt (FLLX _) = ''%llx''"
| "piece_fmt (FP _) = ''%p''" | "piece_fmt (FCh _) = ''%c''" | "piece_fmt (FS _) = ''%s''"

fun piece_args :: "piece \<Rightarrow> parg list" where
  "piece_args (FText _) = []" | "piece_args FPercent = []"
| "piece_args (FD i) = [PInt i]" | "piece_args (FLD i) = [PInt i]" | "piece_args (FLLD i) = [PInt i]"
| "piece_args (FU i) = [PInt i]" | "piece_args (FLU i) = [PInt i]" | "piece_args (FLLU i) = [PInt i]"
| "piece_args (FX i) = [PInt i]" | "piece_args (FLX i) = [PInt i]" | "piece_args (FLLX i) = [PInt i]"
| "piece_args (FP a) = [PInt (uint a)]" | "piece_args (FCh c) = [PInt (uint c)]" | "piece_args (FS t) = [PStr t]"

text \<open>The arguments of the integer conversions are numbers of the type that the conversion names.\<close>

fun piece_ok :: "piece \<Rightarrow> bool" where
  "piece_ok (FText t) \<longleftrightarrow> CHR ''%'' \<notin> set t \<and> CHR 0x00 \<notin> set t" | "piece_ok FPercent \<longleftrightarrow> True"
| "piece_ok (FD i) \<longleftrightarrow> - (2 ^ 31) \<le> i \<and> i < 2 ^ 31"
| "piece_ok (FLD i) \<longleftrightarrow> - (2 ^ 63) \<le> i \<and> i < 2 ^ 63" | "piece_ok (FLLD i) \<longleftrightarrow> - (2 ^ 63) \<le> i \<and> i < 2 ^ 63"
| "piece_ok (FU i) \<longleftrightarrow> 0 \<le> i \<and> i < 2 ^ 32"
| "piece_ok (FLU i) \<longleftrightarrow> 0 \<le> i \<and> i < 2 ^ 64" | "piece_ok (FLLU i) \<longleftrightarrow> 0 \<le> i \<and> i < 2 ^ 64"
| "piece_ok (FX i) \<longleftrightarrow> 0 \<le> i \<and> i < 2 ^ 32"
| "piece_ok (FLX i) \<longleftrightarrow> 0 \<le> i \<and> i < 2 ^ 64" | "piece_ok (FLLX i) \<longleftrightarrow> 0 \<le> i \<and> i < 2 ^ 64"
| "piece_ok (FP a) \<longleftrightarrow> True" | "piece_ok (FCh c) \<longleftrightarrow> True" | "piece_ok (FS t) \<longleftrightarrow> True"

text \<open>A pointer is printed with all its 16 digits.\<close>

definition pointer :: "u64 \<Rightarrow> u8 list" where
  "pointer a = map of_char ''0x'' @ map (\<lambda>k. digit_char (unat a div 16 ^ (15 - k) mod 16)) [0..<16]"

fun piece_text :: "piece \<Rightarrow> u8 list" where
  "piece_text (FText t) = map of_char t" | "piece_text FPercent = map of_char ''%''"
| "piece_text (FD i) = decimal i" | "piece_text (FLD i) = decimal i" | "piece_text (FLLD i) = decimal i"
| "piece_text (FU i) = decimal i" | "piece_text (FLU i) = decimal i" | "piece_text (FLLU i) = decimal i"
| "piece_text (FX i) = positional 16 (nat i)" | "piece_text (FLX i) = positional 16 (nat i)" | "piece_text (FLLX i) = positional 16 (nat i)"
| "piece_text (FP a) = pointer a" | "piece_text (FCh c) = [c]"
| "piece_text (FS None) = map of_char ''(null)''" | "piece_text (FS (Some t)) = takeWhile (\<lambda>b. b \<noteq> 0) t"

lemma digits_char: "d < 16 \<Longrightarrow> digits ! d = digit_char d"
proof -
  have "\<forall>d \<in> set [0..<16]. digits ! d = digit_char d" by code_simp
  then show "d < 16 \<Longrightarrow> digits ! d = digit_char d" by simp
qed

lemma digit_loop_positional: "2 \<le> b \<Longrightarrow> b \<le> 16 \<Longrightarrow> rev (digit_loop b x) = positional b x"
proof (induction b x rule: positional.induct)
  case (1 b x)
  have d: "digits ! (x mod b) = digit_char (x mod b)" using 1 mod_less_divisor [of b x] by (intro digits_char) linarith
  show ?case
  proof (cases "x < b")
    case True
    then show ?thesis using 1 d by (simp add: digit_loop.simps [of b x] positional.simps [of b x])
  next
    case False
    then have "x div b \<noteq> 0" using 1 by (simp add: div_eq_0_iff)
    then show ?thesis using 1 False d by (simp add: digit_loop.simps [of b x] positional.simps [of b x])
  qed
qed

lemma printint_decimal:
  assumes "- (2 ^ 63) \<le> xx" "xx < 2 ^ 63" "2 \<le> b" "b \<le> 16"
  shows "rev (printint_buf xx b True) = (if xx < 0 then 45 # positional b (nat (- xx)) else positional b (nat xx))"
  using printint_abs [OF assms(1,2), of True] digit_loop_positional [OF assms(3,4)]
  by (simp add: printint_buf_def Let_def abs_of_neg split: if_splits)

lemma printint_unsigned:
  assumes "2 \<le> b" "b \<le> 16" "uint (word_of_int xx :: u64) = i"
  shows "rev (printint_buf xx b False) = positional b (nat i)"
proof -
  have "unat (word_of_int xx :: u64) = nat i" by (simp only: unat_eq_nat_uint assms(3))
  then show ?thesis using digit_loop_positional [OF assms(1,2)] by (simp add: printint_buf_def Let_def)
qed

lemma va_ints:
  "- (2 ^ 31) \<le> i \<Longrightarrow> i < 2 ^ 31 \<Longrightarrow> va_int 32 True i = i" "0 \<le> i \<Longrightarrow> i < 2 ^ 32 \<Longrightarrow> va_int 32 False i = i"
  "- (2 ^ 63) \<le> i \<Longrightarrow> i < 2 ^ 63 \<Longrightarrow> va_int 64 True i = i"
  by (simp_all add: va_int_def sint_sbintrunc' signed_take_bit_int_eq_self uint_word_of_int_eq take_bit_int_eq_self)

lemma va_unsigned: "0 \<le> i \<Longrightarrow> i < 2 ^ 64 \<Longrightarrow> uint (word_of_int (va_int 64 False i) :: u64) = i"
  by (simp add: va_int_def uint_word_of_int_eq take_bit_int_eq_self)

lemma u64_small: "0 \<le> i \<Longrightarrow> i < 2 ^ 32 \<Longrightarrow> uint (word_of_int i :: u64) = i"
  by (simp add: uint_word_of_int_eq take_bit_int_eq_self)

lemma char_byte: "(of_char c :: u8) = of_nat (of_char c)"
  by (cases c) (simp add: of_char_def)

lemma char_byte_inj: "(of_char c :: u8) = of_char d \<longleftrightarrow> c = d"
proof -
  have "unat (of_char c :: u8) = of_char c" for c
    using of_char_mod_256 [of c, where ?'a = nat] unfolding char_byte by (simp add: unat_of_nat take_bit_eq_mod)
  then show ?thesis by (metis of_char_eq_iff)
qed

lemma char_percent_nul: "(of_char CHR ''%'' :: u8) = 37" "(of_char CHR 0x00 :: u8) = 0"
  by code_simp+

lemma render_text:
  "CHR ''%'' \<notin> set t \<Longrightarrow> CHR 0x00 \<notin> set t \<Longrightarrow>
     render (map of_char t @ rest) args = map_option ((@) (map of_char t)) (render rest args)"
proof (induction t)
  case (Cons c t)
  have "(of_char c :: u8) \<noteq> 0" "(of_char c :: u8) \<noteq> 37"
    using Cons.prems char_byte_inj [of c "CHR 0x00"] char_byte_inj [of c "CHR ''%''"] char_percent_nul by auto
  then show ?case using Cons by (simp add: option.map_comp comp_def)
qed (cases "render rest args", simp_all)

lemma hex_pointer: "[48, 120] @ hex_bytes a = pointer a"
proof -
  have "digits ! unat (drop_bit 60 (push_bit (4 * k) a)) = digit_char (unat a div 16 ^ (15 - k) mod 16)" if k: "k < 16" for k
  proof -
    have "drop_bit 60 (push_bit (4 * k) a) = take_bit 4 (drop_bit (60 - 4 * k) a)"
      using k by (intro bit_word_eqI) (auto simp: bit_simps)
    then have "unat (drop_bit 60 (push_bit (4 * k) a)) = take_bit 4 (drop_bit (60 - 4 * k) (unat a))"
      by (simp only: unsigned_take_bit_eq unat_drop_bit_eq)
    moreover have "(2 :: nat) ^ (60 - 4 * k) = 16 ^ (15 - k)"
    proof -
      have "60 - 4 * k = 4 * (15 - k)" using k by simp
      then show ?thesis by (simp add: power_mult)
    qed
    ultimately have "unat (drop_bit 60 (push_bit (4 * k) a)) = unat a div 16 ^ (15 - k) mod 16"
      by (simp only: take_bit_eq_mod drop_bit_eq_div) simp
    then show ?thesis by (simp add: digits_char)
  qed
  moreover have "map of_char ''0x'' = [48, 120 :: u8]" by code_simp
  ultimately show ?thesis unfolding hex_bytes_def pointer_def by simp
qed

lemma fmt_bytes:
  "map of_char ''%%'' = [37, 37 :: u8]" "map of_char ''%d'' = [37, 100 :: u8]" "map of_char ''%ld'' = [37, 108, 100 :: u8]"
  "map of_char ''%lld'' = [37, 108, 108, 100 :: u8]" "map of_char ''%u'' = [37, 117 :: u8]" "map of_char ''%lu'' = [37, 108, 117 :: u8]"
  "map of_char ''%llu'' = [37, 108, 108, 117 :: u8]" "map of_char ''%x'' = [37, 120 :: u8]" "map of_char ''%lx'' = [37, 108, 120 :: u8]"
  "map of_char ''%llx'' = [37, 108, 108, 120 :: u8]" "map of_char ''%p'' = [37, 112 :: u8]" "map of_char ''%c'' = [37, 99 :: u8]"
  "map of_char ''%s'' = [37, 115 :: u8]" "map of_char ''%'' = [37 :: u8]"
  by code_simp+

lemma conv_ofs:
  "conv_of (37 # r) = (CPercent, 1)" "conv_of (100 # r) = (CInt 10 True 32, 1)" "conv_of (108 # 100 # r) = (CInt 10 True 64, 2)"
  "conv_of (108 # 108 # 100 # r) = (CInt 10 True 64, 3)" "conv_of (117 # r) = (CInt 10 False 32, 1)"
  "conv_of (108 # 117 # r) = (CInt 10 False 64, 2)" "conv_of (108 # 108 # 117 # r) = (CInt 10 False 64, 3)"
  "conv_of (120 # r) = (CInt 16 False 32, 1)" "conv_of (108 # 120 # r) = (CInt 16 False 64, 2)"
  "conv_of (108 # 108 # 120 # r) = (CInt 16 False 64, 3)" "conv_of (112 # r) = (CPtr, 1)" "conv_of (99 # r) = (CChar, 1)"
  "conv_of (115 # r) = (CStr, 1)"
  by (simp_all add: conv_of_def Let_def)

lemma uint_byte_u32: "uint (ucast (c :: u8) :: u32) = uint c"
  by (rule uint_up_ucast) (simp add: is_up)

lemma render_piece:
  assumes "piece_ok p"
  shows "render (map of_char (piece_fmt p) @ rest) (piece_args p @ args) = map_option ((@) (piece_text p)) (render rest args)"
proof (cases p)
  case (FText t)
  then show ?thesis using assms render_text by simp
next
  case (FS t)
  have "map of_char ''(null)'' = bytes_of ''(null)''" by (simp add: bytes_of_def)
  then show ?thesis using FS by (cases t) (simp_all only: piece_fmt.simps piece_args.simps piece_text.simps fmt_bytes, simp_all add: conv_ofs)
qed (use assms in \<open>simp_all only: piece_fmt.simps piece_args.simps piece_text.simps piece_ok.simps fmt_bytes\<close>,
  simp_all add: conv_ofs va_ints va_unsigned u64_small printint_decimal printint_unsigned decimal_def hex_pointer [simplified] uint_byte_u32)

lemma render_pieces:
  "\<forall>p \<in> set ps. piece_ok p \<Longrightarrow>
     render (bytes_of (concat (map piece_fmt ps))) (concat (map piece_args ps)) = Some (concat (map piece_text ps))"
proof (induction ps)
  case (Cons p ps)
  then show ?case using render_piece [of p "bytes_of (concat (map piece_fmt ps))" "concat (map piece_args ps)"]
    by (simp add: bytes_of_def)
qed (simp add: bytes_of_def)

text \<open>With an idle transmitter and the lock of the console free, \<open>printf\<close> returns.\<close>

lemma printf_prints:
  assumes "uart_ready E" "Lpr \<notin> set (held s)" "render (bytes_of fmt) args = Some bs"
  shows "\<exists>s'. printf E fmt args s = Inr s' \<and> out s' = out s @ bs \<and> core s' = core s \<and> held s' = held s"
proof -
  let ?s = "s\<lparr>held := Lpr # held s\<rparr>"
  obtain s1 where l: "printf_loop E (bytes_of fmt) args ?s = Inr s1"
    using printf_loop_rt [of E "bytes_of fmt" args ?s] assms by (auto simp: returns_def)
  have "prints ?s bs s1" using rets_Inr_iff [OF printf_loop_po l] assms(3) by auto
  then show ?thesis using assms(2) l by (simp add: printf_def kacquire_def krelease_def)
qed

text \<open>A message whose arguments have the kinds that its conversions ask for is printed to its end, whatever
  the numbers are.\<close>

fun plain :: "piece \<Rightarrow> bool" where
  "plain (FText t) \<longleftrightarrow> CHR ''%'' \<notin> set t \<and> CHR 0x00 \<notin> set t"
| "plain _ \<longleftrightarrow> True"

lemma render_piece_some:
  assumes "plain p" "render rest args \<noteq> None"
  shows "render (map of_char (piece_fmt p) @ rest) (piece_args p @ args) \<noteq> None"
proof (cases p)
  case (FText t)
  then show ?thesis using assms render_text by simp
next
  case (FS t)
  then show ?thesis using assms(2)
    by (cases t) (simp_all only: piece_fmt.simps piece_args.simps fmt_bytes, simp_all add: conv_ofs)
qed (use assms in \<open>simp_all only: piece_fmt.simps piece_args.simps fmt_bytes\<close>, simp_all add: conv_ofs)

lemma does_printf:
  assumes "uart_ready E" "Lpr \<notin> set (held s)" "fmt = concat (map piece_fmt ps)" "args = concat (map piece_args ps)" "\<forall>p \<in> set ps. plain p"
    and Q: "\<And>s'. core s' = core s \<Longrightarrow> held s' = held s \<Longrightarrow> Q s'"
  shows "does (printf E fmt args s) Q"
proof -
  have "render (map of_char (concat (map piece_fmt ps))) (concat (map piece_args ps)) \<noteq> None"
    using assms(5)
  proof (induction ps)
    case (Cons p ps)
    then show ?case using render_piece_some [of p "map of_char (concat (map piece_fmt ps))" "concat (map piece_args ps)"] by simp
  qed simp
  then obtain bs where "render (bytes_of fmt) args = Some bs" unfolding assms(3,4) bytes_of_def by auto
  from printf_prints [OF assms(1,2) this] show ?thesis using Q by (auto simp: does_def)
qed

definition ready_env :: env where
  "ready_env = env0\<lparr>mmio := (\<lambda>_ _. LSR_TX_IDLE)\<rparr>"

section \<open>Properties\<close>

text \<open>C35: When the transmitter is idle, \<open>printf\<close> returns and has printed the message: for every
  message, given as a list of pieces, the text of each piece in turn (plain text, a decimal
  or hexadecimal numeral without leading zeros, a pointer with its 16 digits, a character, a string
  up to its nul, the word for the null pointer, a percent sign), in one piece; nothing
  else of the kernel has changed. The numbers are of the type that the conversion
  names, and plain text has no percent sign and no nul.\<close>

theorem printf_correct:
  assumes "uart_ready E" "Lpr \<notin> set (held s)" "\<forall>p \<in> set ps. piece_ok p"
  shows "\<exists>s'. printf E (concat (map piece_fmt ps)) (concat (map piece_args ps)) s = Inr s' \<and>
    out s' = out s @ concat (map piece_text ps) \<and> core s' = core s \<and> held s' = held s"
  using printf_prints [OF assms(1,2) render_pieces [OF assms(3)]] .

theorem printf_correct_witness:
  "\<exists>s'. printf ready_env ''pid %d %s at %p: %lx%%'' [PInt (-7), PStr None, PInt 0xab, PInt 255] run0 = Inr s' \<and>
     out s' = out run0 @ bytes_of ''pid -7 (null) at 0x00000000000000ab: ff%'' \<and> core s' = core run0 \<and> held s' = held run0"
proof -
  let ?ps = "[FText ''pid '', FD (-7), FText '' '', FS None, FText '' at '', FP 0xab, FText '': '', FLX 255, FPercent]"
  have "uart_ready ready_env" "Lpr \<notin> set (held run0)"
    by (simp_all add: uart_ready_def ready_env_def env0_def LSR_TX_IDLE_def run0_def)
  moreover have "\<forall>p \<in> set ?ps. piece_ok p" by simp
  moreover have "concat (map piece_fmt ?ps) = ''pid %d %s at %p: %lx%%''"
    "concat (map piece_args ?ps) = [PInt (-7), PStr None, PInt 0xab, PInt 255]" by simp_all
  moreover have "pointer 0xab = bytes_of ''0x00000000000000ab''" unfolding hex_pointer [symmetric] by code_simp
  moreover have "decimal (- 7) = bytes_of ''-7''" "positional 16 255 = bytes_of ''ff''" by code_simp+
  ultimately show ?thesis using printf_correct [of ready_env run0 ?ps] by (simp add: bytes_of_def)
qed

text \<open>C37: The numeral of a number of the type \<open>long long\<close>, with its sign, fits the 20 bytes of the
  buffer of \<open>printint\<close>, in base 10 and in base 16.\<close>

theorem printint_fits:
  assumes "- (2 ^ 63) \<le> xx" "xx < 2 ^ 63" "base = 10 \<or> base = 16"
  shows "length (printint_buf xx base sg) \<le> 20"
proof -
  let ?x = "unat (word_of_int (if sg \<and> xx < 0 then - xx else xx) :: u64)"
  have b: "2 \<le> base" using assms(3) by auto
  have "(2 :: nat) ^ 64 \<le> base ^ Suc 19" using assms(3) by auto
  then have "length (digit_loop base ?x) \<le> Suc 19" using unsigned_less [of "word_of_int (if sg \<and> xx < 0 then - xx else xx) :: u64", where ?'a = nat]
    by (intro digit_loop_length b) simp
  moreover have "length (digit_loop base ?x) \<le> Suc 18" if "sg" "xx < 0"
  proof -
    have "nat \<bar>xx\<bar> \<le> 2 ^ 63" using assms(1) that by simp
    moreover have "(2 :: nat) ^ 63 < base ^ Suc 18" using assms(3) by auto
    ultimately show ?thesis using printint_abs [OF assms(1,2), of sg] that by (intro digit_loop_length b) simp
  qed
  ultimately show ?thesis by (auto simp: printint_buf_def Let_def)
qed

theorem printint_fits_witness: "length (printint_buf (- (2 ^ 63)) 10 True) \<le> 20"
  by (rule printint_fits) simp_all

text \<open>C36: What \<open>printint\<close> prints is the number: read as a numeral it gives back the argument, as
  a signed number or, without \<open>sign\<close>, as an unsigned one of 64 bits.\<close>

theorem printint_roundtrip:
  assumes "- (2 ^ 63) \<le> xx" "xx < 2 ^ 63" "base = 10 \<or> base = 16"
  shows "read_num base (rev (printint_buf xx base sg)) = (if sg then xx else uint (word_of_int xx :: u64))"
proof -
  let ?x = "unat (word_of_int (if sg \<and> xx < 0 then - xx else xx) :: u64)"
  have b: "2 \<le> base" "base \<le> 16" using assms(3) by auto
  have "hd (rev (digit_loop base ?x)) \<noteq> 45" using digit_loop_ends [OF b] by (simp add: hd_rev)
  then show ?thesis
    using digit_loop_val [OF b, of ?x] printint_abs [OF assms(1,2), of sg]
    by (auto simp: printint_buf_def Let_def read_num_def)
qed

theorem printint_roundtrip_witness:
  "read_num 10 (rev (printint_buf (- 42) 10 True)) = - 42 \<and> read_num 16 (rev (printint_buf (- 1) 16 False)) = 2 ^ 64 - 1"
  using printint_roundtrip [of "- 42" 10 True] printint_roundtrip [of "- 1" 16 False]
  by (simp add: unsigned_minus_1_eq_mask mask_eq_exp_minus_1)

end
