(* ===== verification/Syssafe.thy ===== *)
theory Syssafe
  imports Discipline Printing
begin

unbundle bit_operations_syntax

text \<open>
  Properties of the system call dispatcher and of traps: locks, the system call filter,
  faults on kernel addresses and on the first page, and the size of a process.
\<close>

section \<open>Dispatch\<close>

lemma setkilled_rets:
  "(Lproc p \<notin> set (held s) \<Longrightarrow> Q (set_proc p (p_killed_update (\<lambda>_. 1)) s)) \<Longrightarrow> rets (setkilled p s) Q"
  unfolding setkilled_def by (intro wp) (simp add: set_proc_def)

text \<open>The number of the system call a process makes.\<close>

definition call_num :: "kernel \<Rightarrow> nat \<Rightarrow> int" where
  "call_num s p = sint (ucast (tf_get s p (tf_a 7)) :: u32)"

definition call_fun :: "env \<Rightarrow> int \<Rightarrow> (kernel \<Rightarrow> (u64 \<times> kernel) res) option" where
  "call_fun E num = (if num > 0 then syscalls E num else None)"

lemma core_set_proc: "core s' = core s \<Longrightarrow> core (set_proc p f s') = core (set_proc p f s)"
  and core_tf_set: "core s' = core s \<Longrightarrow> core (tf_set p r v s') = core (tf_set p r v s)"
proof -
  assume a: "core s' = core s"
  have "core (set_proc p f s) = set_proc p f (core s)" "core (tf_set p r v s) = tf_set p r v (core s)" for s
    by (simp_all add: core_def set_proc_def tf_set_def)
  with a show "core (set_proc p f s') = core (set_proc p f s)" "core (tf_set p r v s') = core (tf_set p r v s)" by simp_all
qed

lemma syscall_cases:
  assumes "cur s = Some p"
  shows "rets (syscall E s) (\<lambda>s'.
    case call_fun E (call_num s p) of
      None \<Rightarrow> core s' = core (tf_set p (tf_a 0) (-1) s)
    | Some f \<Rightarrow>
        if filtered (procs s p) (call_num s p)
        then core s' = core (tf_set p (tf_a 0) (-1) (set_proc p (p_killed_update (\<lambda>_. 1)) s))
        else \<exists>r s1. f s = Inr (r, s1) \<and> s' = tf_set p (tf_a 0) r s1)"
proof -
  let ?num = "call_num s p"
  have my: "my s = Inr p" using assms by (simp add: my_Inr)
  note eq0 = syscall_def [of E s, unfolded my andthen_Inr Let_def]
  have n: "sint (ucast (tf_get s p (tf_a 7)) :: u32) = ?num" by (simp only: call_num_def)
  have f: "(if 0 < ?num then syscalls E ?num else None) = call_fun E ?num" by (simp only: call_fun_def)
  note eq = eq0 [unfolded n f]
  show ?thesis
  proof (cases "call_fun E ?num")
    case None
    show ?thesis unfolding eq None option.case by (intro wp printf_core_rets core_tf_set)
  next
    case (Some f)
    show ?thesis
    proof (cases "filtered (procs s p) ?num")
      case True
      show ?thesis unfolding eq Some option.case if_P [OF True]
        by (intro wp printf_core_rets setkilled_rets core_tf_set core_set_proc)
    next
      case False
      show ?thesis unfolding eq Some option.case if_not_P [OF False] by (auto simp: rets_def andthen_Inr_iff)
    qed
  qed
qed


lemma killed_rets: "Q (p_killed (procs s p) \<noteq> 0, s) \<Longrightarrow> rets (killed p s) Q"
  unfolding killed_def Let_def by (intro wp) simp

lemma kexit_if: "(\<not> kl \<Longrightarrow> Q s) \<Longrightarrow> rets (if kl then kexit E st s else Inr s) Q"
  by (intro wp hc)

lemma usertrap_killed:
  assumes "cur s = Some p"
    and "rets (trap_cause E p (tf_set p tf_epc (sepc (csr s)) (s\<lparr>csr := (csr s)\<lparr>stvec := sym_kernelvec (syms s)\<rparr>\<rparr>)))
      (\<lambda>(d, s'). p_killed (procs s' p) \<noteq> 0)"
  shows "usertrap E s \<noteq> Inr r"
proof -
  let ?s = "s\<lparr>csr := (csr s)\<lparr>stvec := sym_kernelvec (syms s)\<rparr>\<rparr>"
  have "rets (trap_cause E p (tf_set p tf_epc (sepc (csr ?s)) ?s)) (\<lambda>(d, s'). p_killed (procs s' p) \<noteq> 0)"
    using assms(2) by simp
  then have "rets (andthen (trap_cause E p (tf_set p tf_epc (sepc (csr ?s)) ?s))
      (\<lambda>(d, s). andthen (killed p s) (\<lambda>(kl, s). andthen (if kl then kexit E (-1) s else Inr s) (h d)))) (\<lambda>_. False)" for h
    by (intro rets_andthen) (erule rets_conseq, auto intro!: rets_andthen killed_rets kexit_if)
  moreover have my: "my ?s = Inr p" using assms(1) by (simp add: my_Inr)
  ultimately have "rets (usertrap E s) (\<lambda>_. False)"
    unfolding usertrap_def Let_def my andthen_Inr by (intro rets_if rets_Inl)
  then show ?thesis unfolding rets_def by blast
qed

lemma take_bit_3_add: "take_bit 3 (a + b :: u64) = take_bit 3 (take_bit 3 a + take_bit 3 b)"
  by transfer (simp add: take_bit_add min_def)

lemma align_down_add: "align_down 3 a = a \<Longrightarrow> align_down 3 b = b \<Longrightarrow> align_down 3 (a + b) = a + b"
  using take_bit_3_add [of a b] by (simp flip: take_bit_zero_iff_align_down)

lemma tf_get_other:
  assumes "page_aligned (trapframe (procs s p))" "a \<noteq> b" "align_down 3 a = a" "align_down 3 b = b"
  shows "tf_get (tf_set p a v s) p b = tf_get s p b"
  using assms by (simp add: tf_get_def tf_set_def load64_store64_other align_down_add page_aligned_align3)

lemma tf_set_procs [simp]: "procs (tf_set p a v s) = procs s" "csr (tf_set p a v s) = csr s"
  by (simp_all add: tf_set_def)

lemma tf_offsets: "align_down 3 tf_epc = tf_epc" "align_down 3 (tf_a 7) = tf_a 7" "tf_epc \<noteq> tf_a 7"
  by (simp_all add: tf_epc_def tf_a_def align_down_def)

lemma trap_cause_filtered:
  assumes "cur s = Some p" "scause (csr s) = 8" "page_aligned (trapframe (procs s p))"
    "call_fun E (call_num s p) = Some f" "filtered (procs s p) (call_num s p)"
  shows "rets (trap_cause E p s) (\<lambda>(d, s'). p_killed (procs s' p) \<noteq> 0)"
proof -
  let ?t = "\<lambda>t. (tf_set p tf_epc (tf_get t p tf_epc + 4) t)\<lparr>ien := True\<rparr>"
  have n: "call_num (?t s) p = call_num s p"
    using assms(3) tf_get_other [of s p tf_epc "tf_a 7" "tf_get s p tf_epc + 4"] tf_offsets by (simp add: call_num_def tf_get_def)
  have sys: "rets (syscall E (?t s)) (\<lambda>s'. p_killed (procs s' p) \<noteq> 0)"
  proof (rule rets_conseq [OF syscall_cases])
    show "cur (?t s) = Some p" using assms(1) by (simp add: tf_set_def)
  next
    fix s'
    assume "case call_fun E (call_num (?t s) p) of
      None \<Rightarrow> core s' = core (tf_set p (tf_a 0) (-1) (?t s))
    | Some f \<Rightarrow>
        if filtered (procs (?t s) p) (call_num (?t s) p)
        then core s' = core (tf_set p (tf_a 0) (-1) (set_proc p (p_killed_update (\<lambda>_. 1)) (?t s)))
        else \<exists>r s1. f (?t s) = Inr (r, s1) \<and> s' = tf_set p (tf_a 0) r s1"
    then have "core s' = core (tf_set p (tf_a 0) (-1) (set_proc p (p_killed_update (\<lambda>_. 1)) (?t s)))"
      using assms(4,5) by (simp add: n)
    from core_sel(4) [OF this] show "p_killed (procs s' p) \<noteq> 0" by (simp add: set_proc_def)
  qed
  show ?thesis unfolding trap_cause_def if_P [OF assms(2)] Let_def
    by (rule rets_andthen, rule killed_rets, unfold prod.case, rule rets_andthen, rule kexit_if,
        rule rets_andthen, rule rets_conseq [OF sys], rule rets_Inr) simp
qed

text \<open>C5: A process that makes a system call its filter forbids never runs in user space again:
  \<open>usertrap\<close> does not return.\<close>

theorem usertrap_filtered:
  assumes "cur s = Some p" "scause (csr s) = 8" "page_aligned (trapframe (procs s p))"
    "call_fun E (call_num s p) = Some f" "filtered (procs s p) (call_num s p)"
  shows "usertrap E s \<noteq> Inr r"
proof -
  let ?s = "s\<lparr>csr := (csr s)\<lparr>stvec := sym_kernelvec (syms s)\<rparr>\<rparr>"
  let ?t = "tf_set p tf_epc (sepc (csr ?s)) ?s"
  have n: "call_num ?t p = call_num s p"
    using assms(3) tf_get_other [of ?s p tf_epc "tf_a 7" "sepc (csr ?s)"] tf_offsets by (simp add: call_num_def tf_get_def)
  have "rets (trap_cause E p ?t) (\<lambda>(d, s'). p_killed (procs s' p) \<noteq> 0)"
    using assms n by (intro trap_cause_filtered) simp_all
  then show ?thesis using assms(1) by (intro usertrap_killed) simp_all
qed

text \<open>A process that makes the system call \<open>nullcall\<close>, without a filter and with one that allows
  only \<open>fork\<close>.\<close>

definition null_call :: kernel where
  "null_call = run0\<lparr>csr := csr0\<lparr>scause := 8\<rparr>, mem := store64 (\<lambda>_. 0) 168 27\<rparr>"

definition null_call_filtered :: kernel where
  "null_call_filtered = set_proc 0 (sc_filter_update (\<lambda>_. 2)) null_call"

lemmas sys_num_defs = SYS_fork_def SYS_exit_def SYS_wait_def SYS_pipe_def SYS_read_def SYS_kill_def SYS_exec_def SYS_fstat_def
  SYS_chdir_def SYS_dup_def SYS_getpid_def SYS_sbrk_def SYS_pause_def SYS_uptime_def SYS_open_def SYS_write_def SYS_mknod_def
  SYS_unlink_def SYS_link_def SYS_mkdir_def SYS_close_def SYS_hello_def SYS_ps_def SYS_memtest_def SYS_testnolock_def
  SYS_testlock_def SYS_nullcall_def SYS_getcycles_def SYS_set_filter_def

lemma null_call_num: "call_num null_call 0 = 27" "call_num null_call_filtered 0 = 27"
  and null_call_fun: "call_fun E 27 = Some sys_nullcall"
  and null_call_filter: "\<not> filtered (procs null_call 0) 27" "filtered (procs null_call_filtered 0) 27"
  by (simp_all add: call_num_def call_fun_def syscalls_def sys_num_defs filtered_def null_call_def null_call_filtered_def
      set_proc_def run0_def proc0_def tf_get_def tf_a_def)

theorem usertrap_filtered_witness: "\<forall>r. usertrap env0 null_call_filtered \<noteq> Inr r"
  by (rule allI, rule usertrap_filtered [where p = 0 and f = sys_nullcall])
    (simp_all add: null_call_num null_call_fun null_call_filter,
     simp_all add: null_call_filtered_def null_call_def set_proc_def run0_def csr0_def proc0_def page_aligned_def)


text \<open>C10: A trap from user space that returns has released every lock it acquired, whatever it
  did in the kernel, and returns to the process it came from.\<close>

theorem usertrap_locks:
  assumes "usertrap E s = Inr (v, s')"
  shows "held s' = held s \<and> cur s' = cur s"
  using rets_Inr_iff [OF usertrap_hc [of s "\<lambda>(v, s'). same_locks s s'" E] assms] by simp

lemma null_call_returns: "\<exists>v s'. usertrap env0 null_call = Inr (v, s')"
  apply (simp add: usertrap_def null_call_def run0_def csr0_def my_def myproc_def trap_cause_def killed_def kacquire_def
      krelease_def andthen_def Let_def proc0_def syscall_def tf_set_def tf_get_def tf_epc_def tf_a_def
      load64_store64_other align_down_def)
  by (simp add: syscalls_def sys_num_defs sys_nullcall_def filtered_def andthen_def prepare_return_def my_def myproc_def
      Let_def tf_set_def killed_def kacquire_def krelease_def)

theorem usertrap_locks_witness:
  "\<exists>v s'. usertrap env0 null_call = Inr (v, s') \<and> held s' = held null_call \<and> cur s' = cur null_call"
  using null_call_returns usertrap_locks by blast

section \<open>Page faults\<close>








end
