(* ===== verification/Corelib.thy ===== *)
theory Corelib
  imports Kalloc
begin

unbundle bit_operations_syntax

text \<open>
  Properties of spinlocks and of the string routines.
\<close>

section \<open>Spinlocks\<close>

text \<open>C6: Mutual exclusion. However the harts interleave the steps of \<open>acquire\<close> and
  \<open>release\<close>, a lock is held by at most one of them, and a hart that holds a lock has its
  interrupts off.\<close>

theorem mutual_exclusion:
  assumes "lock_boot s" "lock_reach s t" "l \<in> set (lheld t h)" "l \<in> set (lheld t g)"
  shows "h = g \<and> locked (locks (mc t) l) \<noteq> 0 \<and> \<not> sie (mc t) h"
proof -
  have inv: "lock_inv t" using assms(2,1) by (rule lock_reach_inv)
  then have o: "lk_cpu (locks (mc t) l) = Some h" "lk_cpu (locks (mc t) l) = Some g"
    using assms(3,4) by (auto simp: lock_inv_def held_is_owner_def)
  moreover have "locked (locks (mc t) l) \<noteq> 0" using inv o by (auto simp: lock_inv_def locked_iff_owned_def owns_def)
  moreover have "0 < noff (cpus (mc t) h)"
    using inv assms(3) by (auto simp: lock_inv_def noff_counts_def intro: length_pos_if_in_set)
  ultimately show ?thesis using inv by (simp add: lock_inv_def intr_masked_def)
qed

definition smp0 :: smp where
  "smp0 = \<lparr>locks = (\<lambda>_. \<lparr>locked = 0, lk_name = [], lk_cpu = None\<rparr>), cpus = (\<lambda>_. \<lparr>noff = 0, intena = False\<rparr>), sie = (\<lambda>_. True)\<rparr>"

definition lsys0 :: lsys where
  "lsys0 = \<lparr>mc = smp0, pc = (\<lambda>_. Run), lheld = (\<lambda>_. [])\<rparr>"

text \<open>Hart 0 takes the lock of the allocator while hart 1 waits for it.\<close>

definition one_spins :: lsys where
  "one_spins = \<lparr>mc = acquire_done 0 Lkmem (snd (test_and_set Lkmem (push_off 1 (push_off 0 smp0)))),
     pc = ((\<lambda>_. Run)(0 := Spinning Lkmem, 1 := Spinning Lkmem, 0 := Won Lkmem))(0 := Run),
     lheld = (\<lambda>_. [])(0 := [Lkmem])\<rparr>"

lemma one_spins_reached: "lock_reach lsys0 one_spins"
proof -
  let ?a = "lsys0\<lparr>mc := push_off 0 smp0, pc := (pc lsys0)(0 := Spinning Lkmem)\<rparr>"
  let ?b = "?a\<lparr>mc := push_off 1 (mc ?a), pc := (pc ?a)(1 := Spinning Lkmem)\<rparr>"
  let ?c = "?b\<lparr>mc := snd (test_and_set Lkmem (mc ?b)), pc := (pc ?b)(0 := Won Lkmem)\<rparr>"
  let ?d = "?c\<lparr>mc := acquire_done 0 Lkmem (mc ?c), pc := (pc ?c)(0 := Run), lheld := (lheld ?c)(0 := Lkmem # lheld ?c 0)\<rparr>"
  have a: "lock_step lsys0 ?a" by (rule lock_step.enter) (simp_all add: lsys0_def smp0_def lock_op_defs)
  have b: "lock_step ?a ?b" by (rule lock_step.enter) (simp_all add: lsys0_def smp0_def lock_op_defs)
  have c: "lock_step ?b ?c" by (rule lock_step.win) (simp_all add: lsys0_def smp0_def lock_op_defs)
  have d: "lock_step ?c ?d" by (rule lock_step.own) simp
  have "lock_reach lsys0 ?d"
    by (rule lock_reach.step [OF lock_reach.step [OF lock_reach.step [OF lock_reach.step [OF lock_reach.start a] b] c] d])
  then show ?thesis by (simp add: one_spins_def lsys0_def)
qed

theorem mutual_exclusion_witness: "locked (locks (mc one_spins) Lkmem) \<noteq> 0 \<and> \<not> sie (mc one_spins) 0"
  using mutual_exclusion [OF _ one_spins_reached, of Lkmem 0 0]
  by (simp add: lock_boot_def lsys0_def smp0_def one_spins_def)

text \<open>C31: The list view of locking that the kernel model uses is what the code does: on a
  hart that holds the locks \<open>held s\<close>, \<open>acquire\<close> panics exactly when \<open>kacquire\<close> does and, on a free lock,
  adds the lock to the list; \<open>release\<close> panics exactly when \<open>krelease\<close> does and removes it.
  The nesting count and the interrupt flag follow.\<close>

theorem acquire_release_refine:
  assumes "lock_view h m (held s) e"
  shows "(case kacquire l s of
            Inl x \<Rightarrow> acquire h l m = Inl x
          | Inr s' \<Rightarrow> if locked (locks m l) \<noteq> 0 then acquire h l m = Inl (Block ''spin'')
              else \<exists>m'. acquire h l m = Inr m' \<and> lock_view h m' (held s') e)
    \<and> (case krelease l s of
            Inl x \<Rightarrow> release h l m = Inl x
          | Inr s' \<Rightarrow> \<exists>m'. release h l m = Inr m' \<and> lock_view h m' (held s') e)"
proof (cases "l \<in> set (held s)")
  case True
  then show ?thesis
    using acquire_view_panic [OF assms] release_view [OF assms] by (simp add: kacquire_def krelease_def)
next
  case False
  then have "\<not> holding h l m" using assms by (auto simp: lock_view_def)
  then have "acquire h l m = Inl (Block ''spin'')" if "locked (locks m l) \<noteq> 0"
    using that by (simp add: acquire_def acquire_enter_def Let_def split: prod.splits)
      (metis fst_conv push_off_sel(1) test_and_set_sel(1))
  then show ?thesis
    using False acquire_view [OF assms] release_view_panic [OF assms] by (simp add: kacquire_def krelease_def)
qed

theorem acquire_release_refine_witness:
  "\<exists>m'. acquire 0 Lkmem smp0 = Inr m' \<and> lock_view 0 m' [Lkmem] True"
proof -
  have "lock_view 0 smp0 (held boot0) True" by (simp add: lock_view_def smp0_def holding_def boot0_def)
  from acquire_release_refine [OF this, of Lkmem] show ?thesis by (simp add: kacquire_def smp0_def boot0_def)
qed

section \<open>Strings\<close>

text \<open>C38: \<open>memmove\<close> copies as if through a buffer, whether the regions overlap or not, in either
  direction: every byte of the destination gets the byte that was in the source before.\<close>

theorem memmove_overlap:
  assumes "unat src + unat n < 2 ^ 64"
  shows "memmove m dst src n = (\<lambda>a. if in_range a dst (unat n) then m (src + (a - dst)) else m a)"
  using memmove_copy [OF assms, of m dst] by (simp add: copy_def)

theorem memmove_overlap_witness:
  "memmove (\<lambda>a. ucast a) 0x1002 0x1000 4 0x1005 = (3 :: u8) \<and> memmove (\<lambda>a. ucast a) 0x1002 0x1000 4 0x1003 = (1 :: u8)"
  using memmove_overlap [of "0x1000" 4 "\<lambda>a. ucast a" "0x1002"] by (simp add: in_range_def)

lemma safestrcpy_loop_text:
  "takeWhile (\<lambda>b. b \<noteq> 0) (safestrcpy_loop t i n) = takeWhile (\<lambda>b. b \<noteq> 0) (map t [i..<i + n])"
proof (induction t i n rule: safestrcpy_loop.induct)
  case (2 t i n)
  have "[i..<i + Suc n] = i # [Suc i..<Suc i + n]" by (simp add: upt_rec)
  then show ?case using 2 by (simp del: upt_Suc)
qed simp

text \<open>\<open>safestrcpy\<close> stores at most \<open>n\<close> bytes, the last of them a nul, and the string it
  leaves is the source up to its nul, cut off after \<open>n - 1\<close> characters.\<close>

theorem safestrcpy_bounded:
  assumes "0 < n"
  shows "length (safestrcpy t n) \<le> nat n \<and> safestrcpy t n \<noteq> [] \<and> last (safestrcpy t n) = 0 \<and>
    takeWhile (\<lambda>b. b \<noteq> 0) (safestrcpy t n) = takeWhile (\<lambda>b. b \<noteq> 0) (map t [0..<nat (n - 1)])"
  using safestrcpy_fits [OF assms, of t] safestrcpy_loop_text [of t 0 "nat (n - 1)"] assms by (simp add: safestrcpy_def)

theorem safestrcpy_bounded_witness:
  "length (safestrcpy (\<lambda>i. if i < 9 then 65 else 0) 4) \<le> nat 4 \<and>
   takeWhile (\<lambda>b. b \<noteq> 0) (safestrcpy (\<lambda>i. if i < 9 then 65 else 0) 4) = [65, 65, 65]"
  using safestrcpy_bounded [of 4 "\<lambda>i. if i < 9 then 65 else 0"] by (simp add: upt_conv_Cons)

end
