(* ===== verification/Psafe.thy ===== *)
theory Psafe
  imports Proc Ksample
begin

unbundle bit_operations_syntax

text \<open>
  Properties of the process table: \<open>wakeup\<close>, \<open>kill\<close> and the scheduler.
\<close>

section \<open>wakeup and kill\<close>

text \<open>The hart holds none of the locks of the processes.\<close>

definition procs_unlocked :: "'z kst_scheme \<Rightarrow> bool" where
  "procs_unlocked s \<longleftrightarrow> (\<forall>p. Lproc p \<notin> set (held s))"

definition woken :: "chan option \<Rightarrow> nat set \<Rightarrow> 'z kst_scheme \<Rightarrow> 'z kst_scheme" where
  "woken ch ps s =
     s\<lparr>procs := (\<lambda>p. if p \<in> ps \<and> cur s \<noteq> Some p \<and> state (procs s p) = SLEEPING \<and> p_chan (procs s p) = ch
                     then (procs s p)\<lparr>state := RUNNABLE\<rparr> else procs s p)\<rparr>"

lemma woken_sel [simp]: "held (woken ch ps s) = held s" "cur (woken ch ps s) = cur s"
  by (simp_all add: woken_def)

lemma woken_insert:
  "woken ch ps (woken ch qs s) = woken ch (ps \<union> qs) s"
  by (simp add: woken_def fun_eq_iff)

lemma woken_one:
  "woken ch {p} s = (if cur s \<noteq> Some p \<and> state (procs s p) = SLEEPING \<and> p_chan (procs s p) = ch
     then set_proc p (state_update (\<lambda>_. RUNNABLE)) s else s)"
  by (rule kst.equality) (auto simp: woken_def set_proc_def)

lemma wakeup_loop_eq:
  "procs_unlocked s \<Longrightarrow> wakeup_loop ch ps s = Inr (woken ch (set ps) s)"
proof (induction ps arbitrary: s)
  case Nil
  then show ?case by (simp add: woken_def)
next
  case (Cons p ps)
  let ?s = "woken ch {p} s"
  have "wakeup_loop ch (p # ps) s = wakeup_loop ch ps ?s"
    using Cons.prems
    by (simp add: procs_unlocked_def kacquire_def krelease_def myproc_def woken_one Let_def set_proc_def)
  also have "\<dots> = Inr (woken ch (set ps) ?s)" using Cons by (intro Cons.IH) (simp add: procs_unlocked_def)
  finally show ?case by (simp add: woken_insert)
qed

text \<open>C32: \<open>wakeup\<close> makes runnable exactly the processes that sleep on the channel, except the
  caller, and changes nothing else.\<close>

theorem wakeup_correct:
  assumes "procs_unlocked s"
  shows "wakeup ch s = Inr (s\<lparr>procs := (\<lambda>p. if p < NPROC \<and> cur s \<noteq> Some p \<and> state (procs s p) = SLEEPING \<and>
      p_chan (procs s p) = ch then (procs s p)\<lparr>state := RUNNABLE\<rparr> else procs s p)\<rparr>)"
  using wakeup_loop_eq [OF assms, of ch "[0..<NPROC]"] by (simp add: wakeup_def woken_def)

definition sleepers :: kernel where
  "sleepers = run0\<lparr>procs := (\<lambda>p. proc0\<lparr>state := SLEEPING, pid := int p + 1, p_chan := Some (if p = 3 then ChTicks else ChLog)\<rparr>)\<rparr>"

theorem wakeup_correct_witness:
  "\<exists>s'. wakeup (Some ChTicks) sleepers = Inr s' \<and> state (procs s' 3) = RUNNABLE \<and> state (procs s' 4) = SLEEPING"
proof -
  have "procs_unlocked sleepers" by (simp add: procs_unlocked_def sleepers_def run0_def)
  from wakeup_correct [OF this, of "Some ChTicks"] show ?thesis by (simp add: sleepers_def run0_def NPROC_def)
qed

definition kill_one :: "proc \<Rightarrow> proc" where
  "kill_one x = x\<lparr>p_killed := 1, state := (if state x = SLEEPING then RUNNABLE else state x)\<rparr>"

lemma kkill_loop_eq:
  "procs_unlocked s \<Longrightarrow> kkill_loop i ps s =
     (case find (\<lambda>p. pid (procs s p) = i) ps of
        None \<Rightarrow> Inr (-1, s) | Some p \<Rightarrow> Inr (0, s\<lparr>procs := (procs s)(p := kill_one (procs s p))\<rparr>))"
  by (induction ps) (auto simp: procs_unlocked_def kacquire_def krelease_def set_proc_def Let_def kill_one_def)

text \<open>C33: \<open>kill\<close> marks the first process with the given pid as killed, wakes it up if it sleeps,
  and returns 0; when there is no such process it returns -1. Nothing else changes.\<close>

theorem kkill_correct:
  assumes "procs_unlocked s"
  shows "kkill i s = (case find (\<lambda>p. pid (procs s p) = i) [0..<NPROC] of
      None \<Rightarrow> Inr (-1, s)
    | Some p \<Rightarrow> Inr (0, s\<lparr>procs := (procs s)(p := (procs s p)\<lparr>p_killed := 1,
        state := (if state (procs s p) = SLEEPING then RUNNABLE else state (procs s p))\<rparr>)\<rparr>))"
  using kkill_loop_eq [OF assms] by (simp add: kkill_def kill_one_def split: option.split)

theorem kkill_correct_witness:
  "\<exists>s'. kkill 4 sleepers = Inr (0, s') \<and> p_killed (procs s' 3) = 1 \<and> state (procs s' 3) = RUNNABLE \<and> kkill 99 sleepers = Inr (-1, sleepers)"
proof -
  have u: "procs_unlocked sleepers" by (simp add: procs_unlocked_def sleepers_def run0_def)
  have "find (\<lambda>p. pid (procs sleepers p) = 4) [0..<NPROC] = Some 3" "find (\<lambda>p. pid (procs sleepers p) = 99) [0..<NPROC] = None"
    by (simp_all add: sleepers_def NPROC_def find_None_iff upt_conv_Cons)
  with kkill_correct [OF u, of 4] kkill_correct [OF u, of 99] show ?thesis by (simp add: sleepers_def)
qed

section \<open>The scheduler\<close>

text \<open>What the scheduler needs: its own page table and one for every process that can run.\<close>

definition sched_ok :: "'z kst_scheme \<Rightarrow> bool" where
  "sched_ok s \<longleftrightarrow> kernel_pagetable s \<noteq> 0 \<and> (\<forall>p. state (procs s p) = RUNNABLE \<longrightarrow> kpagetable (procs s p) \<noteq> 0)"

text \<open>A turn of process \<open>p\<close>: it gets the hart with its own lock held, marked as running, on its own page
  table; when it gives the hart back the scheduler is on the page table of the kernel and holds no lock.\<close>

definition dispatched :: "nat \<Rightarrow> 'z kst_scheme \<Rightarrow> 'z kst_scheme" where
  "dispatched p s = s\<lparr>held := [Lproc p], procs := (procs s)(p := (procs s p)\<lparr>state := RUNNING\<rparr>), cur := Some p,
     csr := (csr s)\<lparr>satp := MAKE_SATP (kpagetable (procs s p))\<rparr>\<rparr>"

definition given_back :: "'z kst_scheme \<Rightarrow> 'z kst_scheme" where
  "given_back s = s\<lparr>csr := (csr s)\<lparr>satp := MAKE_SATP (kernel_pagetable s)\<rparr>, cur := None, held := []\<rparr>"

definition turn :: "(nat \<Rightarrow> 'z kst_scheme \<Rightarrow> 'z kst_scheme) \<Rightarrow> 'z kst_scheme \<Rightarrow> nat \<Rightarrow> 'z kst_scheme" where
  "turn run s p = given_back (run p (dispatched p s))"

lemma scheduler_pass_turns:
  assumes run: "\<And>p s. sched_ok s \<Longrightarrow> state (procs s p) = RUNNING \<Longrightarrow> kpagetable (procs s p) \<noteq> 0 \<Longrightarrow>
    sched_ok (run p s) \<and> held (run p s) = held s"
  shows "sched_ok s \<Longrightarrow> held s = [] \<Longrightarrow> sorted_wrt (<) ps \<Longrightarrow>
    \<exists>qs. scheduler_pass run ps f s = Inr (f \<or> qs \<noteq> [], foldl (turn run) s qs) \<and> sorted_wrt (<) qs \<and> set qs \<subseteq> set ps \<and>
      (\<forall>i < length qs. state (procs (foldl (turn run) s (take i qs)) (qs ! i)) = RUNNABLE) \<and>
      (\<forall>p \<in> set ps - set qs. state (procs (foldl (turn run) s (filter (\<lambda>q. q < p) qs)) p) \<noteq> RUNNABLE)"
proof (induction ps arbitrary: f s)
  case (Cons p ps)
  show ?case
  proof (cases "state (procs s p) = RUNNABLE")
    case False
    have e: "s\<lparr>held := []\<rparr> = s" using Cons.prems(2) by (intro kst.equality) simp_all
    have "scheduler_pass run (p # ps) f s = scheduler_pass run ps f s"
      using False Cons.prems(2) by (simp add: kacquire_def krelease_def e)
    moreover obtain qs where q: "scheduler_pass run ps f s = Inr (f \<or> qs \<noteq> [], foldl (turn run) s qs)" "sorted_wrt (<) qs" "set qs \<subseteq> set ps"
      "\<forall>i < length qs. state (procs (foldl (turn run) s (take i qs)) (qs ! i)) = RUNNABLE"
      "\<forall>p \<in> set ps - set qs. state (procs (foldl (turn run) s (filter (\<lambda>q. q < p) qs)) p) \<noteq> RUNNABLE"
      using Cons.IH [of s f] Cons.prems by auto
    moreover have "filter (\<lambda>q. q < p) qs = []" using q(3) Cons.prems(3) by (fastforce simp: filter_empty_conv)
    ultimately show ?thesis using False by (intro exI [of _ qs]) auto
  next
    case True
    let ?i = "dispatched p s" and ?t = "turn run s p"
    have in': "switch_in p (s\<lparr>held := [Lproc p]\<rparr>) = Inr ?i" using Cons.prems(1) True
      by (simp add: switch_in_def kvm_switch_def sched_ok_def set_proc_def Let_def dispatched_def)
    have "sched_ok ?i" "state (procs ?i p) = RUNNING" "kpagetable (procs ?i p) \<noteq> 0"
      using Cons.prems(1) True by (simp_all add: sched_ok_def dispatched_def)
    from run [OF this] have o: "sched_ok (run p ?i)" "held (run p ?i) = [Lproc p]" by (simp_all add: dispatched_def)
    have "scheduler_pass run (p # ps) f s = scheduler_pass run ps True ?t"
      using True Cons.prems(2) in' o
      by (simp add: kacquire_def krelease_def switch_out_def kvminithart_def kvm_switch_def sched_ok_def turn_def given_back_def)
    moreover have "sched_ok ?t" "held ?t = []" using o by (simp_all add: sched_ok_def turn_def given_back_def)
    then obtain qs where q: "scheduler_pass run ps True ?t = Inr (True, foldl (turn run) ?t qs)" "sorted_wrt (<) qs" "set qs \<subseteq> set ps"
      "\<forall>i < length qs. state (procs (foldl (turn run) ?t (take i qs)) (qs ! i)) = RUNNABLE"
      "\<forall>p \<in> set ps - set qs. state (procs (foldl (turn run) ?t (filter (\<lambda>q. q < p) qs)) p) \<noteq> RUNNABLE"
      using Cons.IH [of ?t True] Cons.prems(3) by auto
    moreover have "state (procs (foldl (turn run) s (take i (p # qs))) ((p # qs) ! i)) = RUNNABLE" if "i < length (p # qs)" for i
      using that True q(4) by (cases i) auto
    moreover have "sorted_wrt (<) (p # qs)" "set (p # qs) \<subseteq> set (p # ps)" using q(2,3) Cons.prems(3) by auto
    moreover have "state (procs (foldl (turn run) s (filter (\<lambda>q. q < r) (p # qs))) r) \<noteq> RUNNABLE" if "r \<in> set (p # ps) - set (p # qs)" for r
      using that q(5) Cons.prems(3) by auto
    ultimately show ?thesis by (intro exI [of _ "p # qs"]) auto
  qed
qed simp

lemma turns_keep:
  assumes "\<And>p q t. q \<noteq> p \<Longrightarrow> state (procs t q) = RUNNABLE \<Longrightarrow> state (procs (run p t) q) = RUNNABLE"
  shows "r \<notin> set qs \<Longrightarrow> state (procs s r) = RUNNABLE \<Longrightarrow> state (procs (foldl (turn run) s qs) r) = RUNNABLE"
proof (induction qs arbitrary: s)
  case (Cons q qs)
  have "state (procs (turn run s q) r) = RUNNABLE"
    using assms [of r q "dispatched q s"] Cons.prems by (simp add: turn_def given_back_def dispatched_def)
  then show ?case using Cons by simp
qed simp

text \<open>C34: A pass of the scheduler over the process table returns; it gives the hart to the
  processes of a list \<open>qs\<close>, each at most once and in the order of the table, each with its lock
  held, in the state RUNNING and on its own page table, and goes back to the page table of the
  kernel after each of them. It runs exactly the processes that are runnable when it comes
  to them; it has found one iff one was runnable at the start, so that a hart waits for an
  interrupt only when there is nothing to run; and when the processes do not take the hart away from
  each other, each process that was runnable at the start has had its turn. The
  hypothesis on \<open>run\<close> is the contract of a process that has the hart: it comes back
  with its lock held and leaves the page tables in order.\<close>

theorem scheduler_finds_work:
  assumes "\<And>p s. sched_ok s \<Longrightarrow> state (procs s p) = RUNNING \<Longrightarrow> kpagetable (procs s p) \<noteq> 0 \<Longrightarrow>
    sched_ok (run p s) \<and> held (run p s) = held s" "sched_ok s" "held s = []"
  shows "\<exists>qs. scheduler_pass run [0..<NPROC] False s = Inr (qs \<noteq> [], foldl (turn run) s qs) \<and>
    sorted_wrt (<) qs \<and> set qs \<subseteq> {..<NPROC} \<and>
    (\<forall>i < length qs. state (procs (foldl (turn run) s (take i qs)) (qs ! i)) = RUNNABLE) \<and>
    (\<forall>p < NPROC. p \<notin> set qs \<longrightarrow> state (procs (foldl (turn run) s (filter (\<lambda>q. q < p) qs)) p) \<noteq> RUNNABLE) \<and>
    (qs \<noteq> [] \<longleftrightarrow> (\<exists>p < NPROC. state (procs s p) = RUNNABLE)) \<and>
    ((\<forall>p q t. q \<noteq> p \<longrightarrow> state (procs t q) = RUNNABLE \<longrightarrow> state (procs (run p t) q) = RUNNABLE) \<longrightarrow>
       {p. p < NPROC \<and> state (procs s p) = RUNNABLE} \<subseteq> set qs)"
proof -
  obtain qs where q: "scheduler_pass run [0..<NPROC] False s = Inr (qs \<noteq> [], foldl (turn run) s qs)" "sorted_wrt (<) qs"
      "set qs \<subseteq> {..<NPROC}" "\<forall>i < length qs. state (procs (foldl (turn run) s (take i qs)) (qs ! i)) = RUNNABLE"
      "\<forall>p < NPROC. p \<notin> set qs \<longrightarrow> state (procs (foldl (turn run) s (filter (\<lambda>q. q < p) qs)) p) \<noteq> RUNNABLE"
    using scheduler_pass_turns [of run s "[0..<NPROC]" False, OF assms] by (auto simp: atLeast0LessThan)
  have "\<exists>p < NPROC. state (procs s p) = RUNNABLE" if "qs \<noteq> []"
    using that q(3,4) by (intro exI [of _ "hd qs"]) (cases qs; auto)
  moreover have "\<not> (\<exists>p < NPROC. state (procs s p) = RUNNABLE)" if "qs = []" using that q(5) by simp
  moreover have "p \<in> set qs" if k: "\<forall>p q t. q \<noteq> p \<longrightarrow> state (procs t q) = RUNNABLE \<longrightarrow> state (procs (run p t) q) = RUNNABLE"
      and p: "p < NPROC" "state (procs s p) = RUNNABLE" for p
    using turns_keep [of run p "filter (\<lambda>q. q < p) qs" s] k p q(5) by auto
  ultimately show ?thesis using q by (intro exI [of _ qs]) blast
qed

text \<open>Two runnable processes; a process that runs counts its turns in its exit status.\<close>

definition two_runnable :: kernel where
  "two_runnable = run0\<lparr>kernel_pagetable := 0x87000000,
     procs := (\<lambda>_. proc0)(5 := proc0\<lparr>state := RUNNABLE, kpagetable := 0x87010000\<rparr>,
       9 := proc0\<lparr>state := RUNNABLE, kpagetable := 0x87020000\<rparr>)\<rparr>"

definition count_turns :: "nat \<Rightarrow> kernel \<Rightarrow> kernel" where
  "count_turns p s = set_proc p (\<lambda>x. x\<lparr>xstate := xstate x + 1, state := RUNNABLE\<rparr>) s"

theorem scheduler_finds_work_witness:
  "scheduler_pass count_turns [0..<NPROC] False two_runnable =
     Inr (True, given_back (count_turns 9 (dispatched 9 (given_back (count_turns 5 (dispatched 5 two_runnable))))))"
proof -
  have o: "sched_ok two_runnable" "held two_runnable = []" by (simp_all add: two_runnable_def sched_ok_def run0_def proc0_def)
  have r: "sched_ok (count_turns p t) \<and> held (count_turns p t) = held t"
    if "sched_ok t" "state (procs t p) = RUNNING" "kpagetable (procs t p) \<noteq> 0" for p t
    using that by (auto simp: sched_ok_def count_turns_def set_proc_def)
  have e: "{p. p < NPROC \<and> state (procs two_runnable p) = RUNNABLE} = {5, 9}"
    by (auto simp: two_runnable_def proc0_def NPROC_def split: if_splits)
  have k: "\<forall>p q t. q \<noteq> p \<longrightarrow> state (procs t q) = RUNNABLE \<longrightarrow> state (procs (count_turns p t) q) = RUNNABLE"
    by (simp add: count_turns_def set_proc_def)
  obtain qs where q: "scheduler_pass count_turns [0..<NPROC] False two_runnable = Inr (qs \<noteq> [], foldl (turn count_turns) two_runnable qs)"
      "sorted_wrt (<) qs" "set qs \<subseteq> {..<NPROC}"
      "\<forall>i < length qs. state (procs (foldl (turn count_turns) two_runnable (take i qs)) (qs ! i)) = RUNNABLE" "{5, 9} \<subseteq> set qs"
    using scheduler_finds_work [of count_turns, OF r o] k unfolding e by auto
  have n: "state (procs (foldl (turn count_turns) two_runnable rs) p) = RUNNABLE \<longleftrightarrow> p \<in> {5, 9} \<or> p \<in> set rs" for rs p
  proof (induction rs rule: rev_induct)
    case Nil
    show ?case by (simp add: two_runnable_def proc0_def)
  next
    case (snoc r rs)
    then show ?case by (auto simp: turn_def given_back_def dispatched_def count_turns_def set_proc_def)
  qed
  have "qs ! i \<in> {5, 9}" if "i < length qs" for i
  proof -
    have "qs ! i \<notin> set (take i qs)" using q(2) that
      by (auto simp: in_set_conv_nth sorted_wrt_iff_nth_less) (metis less_irrefl less_trans)
    then show ?thesis using n [of "take i qs" "qs ! i"] q(4) that by auto
  qed
  then have "set qs = {5, 9}" using q(5) by (metis in_set_conv_nth subsetI subset_antisym)
  then have "qs = [5, 9]" using q(2) strict_sorted_equal [of qs "[5, 9]"] by simp
  then show ?thesis using q(1) by (simp add: turn_def)
qed

end
