(* ===== verification/Queue.thy ===== *)
theory Queue
  imports Prelude
begin

text \<open>
  Bounded first-in first-out queues: the contract of the ring buffers of the kernel. The
  pipe and the console line implement it with two counters that wrap at \<open>2 ^ 32\<close> over an array
  whose length divides \<open>2 ^ 32\<close>.
\<close>

section \<open>The contract\<close>

locale bounded_queue =
  fixes put :: "'a \<Rightarrow> 'q \<Rightarrow> 'q"
    and get :: "'q \<Rightarrow> 'q"
    and front :: "'q \<Rightarrow> 'a"
    and is_empty :: "'q \<Rightarrow> bool"
    and is_full :: "'q \<Rightarrow> bool"
    and cap :: nat
    and invar :: "'q \<Rightarrow> bool"
    and items :: "'q \<Rightarrow> 'a list"
  assumes items_put: "invar q \<Longrightarrow> \<not> is_full q \<Longrightarrow> items (put a q) = items q @ [a]"
    and invar_put: "invar q \<Longrightarrow> \<not> is_full q \<Longrightarrow> invar (put a q)"
    and items_get: "invar q \<Longrightarrow> \<not> is_empty q \<Longrightarrow> items q = front q # items (get q)"
    and invar_get: "invar q \<Longrightarrow> \<not> is_empty q \<Longrightarrow> invar (get q)"
    and empty_iff: "invar q \<Longrightarrow> is_empty q \<longleftrightarrow> items q = []"
    and full_iff: "invar q \<Longrightarrow> is_full q \<longleftrightarrow> length (items q) = cap"
    and bound: "invar q \<Longrightarrow> length (items q) \<le> cap"
begin

lemma puts:
  "invar q \<Longrightarrow> length (items q) + length as \<le> cap \<Longrightarrow>
   items (fold put as q) = items q @ as \<and> invar (fold put as q)"
proof (induction as arbitrary: q)
  case (Cons a as)
  then have nf: "\<not> is_full q" by (simp add: full_iff)
  from Cons.IH [of "put a q"] Cons.prems show ?case by (simp add: items_put [OF _ nf] invar_put [OF _ nf])
qed simp

lemma gets:
  "invar q \<Longrightarrow> n \<le> length (items q) \<Longrightarrow> items ((get ^^ n) q) = drop n (items q) \<and> invar ((get ^^ n) q)"
proof (induction n)
  case (Suc n)
  let ?q = "(get ^^ n) q"
  have IH: "items ?q = drop n (items q)" "invar ?q" using Suc by simp_all
  then have ne: "\<not> is_empty ?q" using Suc.prems(2) by (simp add: empty_iff)
  have "drop (Suc n) (items q) = tl (items ?q)" using IH by (simp add: drop_Suc tl_drop)
  then show ?case using items_get [OF IH(2) ne] invar_get [OF IH(2) ne] by simp
qed simp

lemma front_gets: "invar q \<Longrightarrow> n < length (items q) \<Longrightarrow> front ((get ^^ n) q) = items q ! n"
proof -
  assume a: "invar q" "n < length (items q)"
  let ?q = "(get ^^ n) q"
  have g: "items ?q = drop n (items q)" "invar ?q" using gets [of q n] a by simp_all
  then have "\<not> is_empty ?q" using a by (simp add: empty_iff)
  from items_get [OF g(2) this] g(1) have "hd (drop n (items q)) = front ?q" by simp
  then show ?thesis using a by (simp add: hd_drop_conv_nth)
qed

end

section \<open>Counters over an array\<close>

text \<open>The items of a ring with read counter \<open>r\<close> and write counter \<open>w\<close> over an array of \<open>n\<close> slots.\<close>

definition ring_items :: "nat \<Rightarrow> (nat \<Rightarrow> u8) \<Rightarrow> u32 \<Rightarrow> u32 \<Rightarrow> u8 list" where
  "ring_items n d r w = map (\<lambda>i. d (unat (r + of_nat i) mod n)) [0..<unat (w - r)]"

lemma length_ring_items [simp]: "length (ring_items n d r w) = unat (w - r)"
  by (simp add: ring_items_def)

lemma ring_index:
  assumes "n dvd 2 ^ 32" "i < 2 ^ 32"
  shows "unat (r + of_nat i :: u32) mod n = (unat r + i) mod n"
proof -
  have "unat (of_nat i :: u32) = i" using assms(2) by (simp add: unat_of_nat take_bit_nat_eq_self)
  then have "unat (r + of_nat i) = (unat r + i) mod 2 ^ 32" by (simp add: unat_word_ariths)
  then show ?thesis using assms(1) by (simp add: mod_mod_cancel)
qed

lemma ring_put:
  assumes "n dvd 2 ^ 32" "n < 2 ^ 32" "unat (w - r) < n"
  shows "ring_items n (d(unat w mod n := b)) r (w + 1) = ring_items n d r w @ [b]"
proof -
  let ?k = "unat (w - r)"
  have w: "w = r + of_nat ?k" by simp
  have "w + 1 - r = (w - r) + 1" by (simp add: algebra_simps)
  moreover have "unat ((w - r) + 1) = ?k + 1" using assms(2,3) by (simp add: unat_word_ariths)
  ultimately have s: "unat (w + 1 - r) = Suc ?k" by (simp only: Suc_eq_plus1)
  have "unat (r + of_nat i) mod n \<noteq> unat w mod n" if i: "i < ?k" for i
  proof
    assume "unat (r + of_nat i) mod n = unat w mod n"
    then have "(unat r + ?k) mod n = (unat r + i) mod n"
      using ring_index [OF assms(1), of i r] ring_index [OF assms(1), of ?k r] i assms(2,3) w by simp
    then have "n dvd ?k - i" using mod_eq_dvd_iff_nat [of "unat r + i" "unat r + ?k" n] i by simp
    then show False using i assms(3) by (auto dest: dvd_imp_le)
  qed
  then show ?thesis unfolding ring_items_def s using w by simp
qed

lemma ring_get:
  assumes "r \<noteq> w"
  shows "ring_items n d r w = d (unat r mod n) # ring_items n d (r + 1) w"
proof -
  have "w - r \<noteq> 0" using assms by simp
  moreover have "w - (r + 1) = (w - r) - 1" by (simp add: algebra_simps)
  moreover have "unat (w - r) = Suc (unat (w - r - 1))"
    using unat_minus_one [of "w - r"] unat_gt_0 [of "w - r"] assms by simp
  ultimately have "unat (w - r) = Suc (unat (w - (r + 1)))" by (simp only:)
  then show ?thesis unfolding ring_items_def by (simp add: upt_conv_Cons map_Suc_upt [symmetric] ac_simps del: upt_Suc)
qed

lemma ring_empty: "ring_items n d r w = [] \<longleftrightarrow> r = w"
  by (auto simp: ring_items_def unat_eq_0)

end
