(* ===== verification/Pipes.thy ===== *)
theory Pipes
  imports File Psafe Queue Usafe
begin

unbundle bit_operations_syntax

text \<open>
  Pipes are bounded queues of bytes: the ring of \<^verbatim>\<open>struct pipe\<close> implements the contract of
  theory \<open>Queue\<close>, and \<open>pipewrite\<close> and \<open>piperead\<close> move bytes between user memory and the
  queue.
\<close>

section \<open>The ring\<close>

definition pipe_put :: "u8 \<Rightarrow> pipe \<Rightarrow> pipe" where
  "pipe_put b x = x\<lparr>p_data := (p_data x)(unat (nwrite x) mod PIPESIZE := b), nwrite := nwrite x + 1\<rparr>"

definition pipe_get :: "pipe \<Rightarrow> pipe" where
  "pipe_get x = x\<lparr>nread := nread x + 1\<rparr>"

definition pipe_front :: "pipe \<Rightarrow> u8" where
  "pipe_front x = p_data x (unat (nread x) mod PIPESIZE)"

definition pipe_empty :: "pipe \<Rightarrow> bool" where
  "pipe_empty x \<longleftrightarrow> nread x = nwrite x"

definition pipe_full :: "pipe \<Rightarrow> bool" where
  "pipe_full x \<longleftrightarrow> nwrite x = nread x + of_nat PIPESIZE"

definition pipe_inv :: "pipe \<Rightarrow> bool" where
  "pipe_inv x \<longleftrightarrow> unat (nwrite x - nread x) \<le> PIPESIZE"

definition pipe_items :: "pipe \<Rightarrow> u8 list" where
  "pipe_items x = ring_items PIPESIZE (p_data x) (nread x) (nwrite x)"

lemmas pipe_defs = pipe_put_def pipe_get_def pipe_front_def pipe_empty_def pipe_full_def pipe_inv_def pipe_items_def

lemma PIPESIZE_ring: "PIPESIZE dvd 2 ^ 32" "PIPESIZE < 2 ^ 32" "PIPESIZE = 512"
  by (simp_all add: PIPESIZE_def)

lemma pipe_full_iff: "pipe_full x \<longleftrightarrow> unat (nwrite x - nread x) = PIPESIZE"
proof -
  have "pipe_full x \<longleftrightarrow> nwrite x - nread x = of_nat PIPESIZE" by (auto simp: pipe_full_def algebra_simps)
  also have "\<dots> \<longleftrightarrow> unat (nwrite x - nread x) = PIPESIZE" by (simp add: PIPESIZE_def word_unat_eq_iff)
  finally show ?thesis .
qed

interpretation pq: bounded_queue pipe_put pipe_get pipe_front pipe_empty pipe_full PIPESIZE pipe_inv pipe_items
proof
  fix x :: pipe and b
  assume i: "pipe_inv x"
  show "pipe_empty x \<longleftrightarrow> pipe_items x = []" by (simp add: pipe_empty_def pipe_items_def ring_empty)
  show "pipe_full x \<longleftrightarrow> length (pipe_items x) = PIPESIZE" by (simp add: pipe_full_iff pipe_items_def)
  show "length (pipe_items x) \<le> PIPESIZE" using i by (simp add: pipe_inv_def pipe_items_def)
  {
    assume "\<not> pipe_full x"
    then have lt: "unat (nwrite x - nread x) < PIPESIZE" using i by (simp add: pipe_full_iff pipe_inv_def)
    have p: "pipe_items (pipe_put b x) = pipe_items x @ [b]"
      using ring_put [OF PIPESIZE_ring(1,2) lt] by (simp add: pipe_items_def pipe_put_def)
    then show "pipe_items (pipe_put b x) = pipe_items x @ [b]" .
    have "length (pipe_items (pipe_put b x)) \<le> PIPESIZE" using p lt by (simp add: pipe_items_def)
    then show "pipe_inv (pipe_put b x)" by (simp add: pipe_inv_def pipe_items_def)
  }
  {
    assume "\<not> pipe_empty x"
    then have g: "pipe_items x = pipe_front x # pipe_items (pipe_get x)"
      using ring_get [of "nread x" "nwrite x" PIPESIZE "p_data x"]
      by (simp add: pipe_empty_def pipe_items_def pipe_front_def pipe_get_def)
    then show "pipe_items x = pipe_front x # pipe_items (pipe_get x)" .
    have "length (pipe_items (pipe_get x)) \<le> PIPESIZE" using arg_cong [OF g, of length] i by (simp add: pipe_items_def pipe_inv_def)
    then show "pipe_inv (pipe_get x)" by (simp add: pipe_inv_def pipe_items_def)
  }
qed

section \<open>Writing\<close>

text \<open>The virtual memory depends on the allocator and the memory only.\<close>

lemma vm_inv_same:
  assumes "vm_inv s R ext" "mem s' = mem s" "freelist s' = freelist s" "kref s' = kref s" "syms s' = syms s"
    "kmem_unlocked s \<longrightarrow> kmem_unlocked s'"
  shows "vm_inv s' R ext"
proof -
  have m: "managed s' p = managed s p" "rc s' p = rc s p" for p using assms by (simp_all add: managed_def rc_def)
  have "kmem_inv s' = kmem_inv s" "trees_ok s' R = trees_ok s R" "counts_ok s' R ext = counts_ok s R ext"
    using assms(2-5) by (simp_all add: kmem_inv_def free_pages_def trees_ok_def tree_ok_def counts_ok_def m)
  then show ?thesis using assms by (simp add: vm_inv_def kmem_ok_def)
qed

definition pipe_puts :: "u64 \<Rightarrow> u8 list \<Rightarrow> kernel \<Rightarrow> kernel" where
  "pipe_puts pi bs s = set_pipe pi (fold pipe_put bs) s"

lemma pipe_puts_sel [simp]:
  "held (pipe_puts pi bs s) = held s" "cur (pipe_puts pi bs s) = cur s" "procs (pipe_puts pi bs s) = procs s"
  "mem (pipe_puts pi bs s) = mem s" "pipes (pipe_puts pi bs s) pi = fold pipe_put bs (pipes s pi)"
  "freelist (pipe_puts pi bs s) = freelist s" "kref (pipe_puts pi bs s) = kref s" "syms (pipe_puts pi bs s) = syms s"
  by (simp_all add: pipe_puts_def set_pipe_def)

lemma pipe_put_open [simp]:
  "readopen (pipe_put b x) = readopen x" "writeopen (pipe_put b x) = writeopen x"
  "readopen (pipe_get x) = readopen x" "writeopen (pipe_get x) = writeopen x"
  by (simp_all add: pipe_put_def pipe_get_def)

lemma killed_eq: "Lproc p \<notin> set (held s) \<Longrightarrow> killed p s = Inr (p_killed (procs s p) \<noteq> 0, s)"
  by (simp add: killed_def kacquire_def krelease_def Let_def)

lemma unat_word_of_int_small: "0 \<le> n \<Longrightarrow> n < 2 ^ 64 \<Longrightarrow> unat (word_of_int n :: u64) = nat n"
  by (simp only: unat_eq_nat_uint uint_word_of_int_eq take_bit_int_eq_self)
    (simp add: take_bit_int_eq_self)

text \<open>The loop stores byte after byte as long as there is room for all of them.\<close>

lemma pipewrite_loop_fits:
  assumes vm: "vm_inv s R ext" "pagetable (procs s p) \<in> R"
    and pr: "cur s = Some p" "p_killed (procs s p) = 0" "Lproc p \<notin> set (held s)"
    and q: "readopen (pipes s pi)" "pipe_inv (pipes s pi)"
  shows "0 \<le> i \<Longrightarrow> i + int m = n \<Longrightarrow> n < 2 ^ 31 \<Longrightarrow> m < k \<Longrightarrow>
    length (pipe_items (pipes s pi)) + m \<le> PIPESIZE \<Longrightarrow>
    unat addr + nat n \<le> 2 ^ 38 \<Longrightarrow> in_user (mem s) (pagetable (procs s p)) addr (word_of_int n) 4 \<Longrightarrow>
    pipewrite_loop k E pi addr n i s =
      (let s' = pipe_puts pi (ubytes (mem s) (pagetable (procs s p)) (addr + word_of_int i) m) s
       in andthen (wakeup (Some (ChPipeR pi)) s') (\<lambda>s. andthen (krelease (Lpipe pi) s) (\<lambda>s. Inr (n, s))))"
  using assms
proof (induction m arbitrary: i s k)
  case 0
  then obtain k' where "k = Suc k'" by (cases k) auto
  moreover have "pipe_puts pi [] s = s" by (simp add: pipe_puts_def set_pipe_def)
  ultimately show ?case using 0 by (simp add: ubytes_def)
next
  case (Suc m)
  then obtain k' where k: "k = Suc k'" by (cases k) auto
  let ?pt = "pagetable (procs s p)" and ?a = "addr + word_of_int i"
  let ?b = "ubyte (mem s) ?pt ?a" and ?s = "set_pipe pi (pipe_put (ubyte (mem s) ?pt ?a)) s"
  have i: "i < n" "word_of_int i = (of_nat (nat i) :: u64)" using Suc.prems by simp_all
  have un: "unat (word_of_int n :: u64) = nat n" using Suc.prems by (intro unat_word_of_int_small) simp_all
  have ua: "unat ?a = unat addr + nat i"
  proof -
    have "unat addr + nat i < 2 ^ 64" using Suc.prems(6) i(1) by simp
    moreover have "unat (of_nat (nat i) :: u64) = nat i" using Suc.prems(2,3) by (intro unat_of_nat_u64) simp
    moreover have "unat ?a = (unat addr + unat (of_nat (nat i) :: u64)) mod 2 ^ 64" unfolding i(2) by (simp add: unat_word_ariths)
    ultimately show ?thesis by simp
  qed
  have ci: "copyin ?pt ?a 1 s = Inr (0, [?b], s)"
  proof -
    have "uperm (mem s) ?pt ?a 4"
      using Suc.prems un unfolding in_user_def by (metis i nat_less_eq_zless nat_0_le)
    then have "in_user (mem s) ?pt ?a 1 4" by (simp add: in_user_def)
    from vm_copyin [OF Suc.prems(8,9) _ this] show ?thesis using ua Suc.prems by (simp add: ubytes_def)
  qed
  have vm: "vm_inv ?s R ext" by (rule vm_inv_same [OF Suc.prems(8)]) (simp_all add: set_pipe_def kmem_unlocked_def)
  have nf: "\<not> pipe_full (pipes s pi)" using Suc.prems by (simp add: pq.full_iff)
  have "pipewrite_loop k E pi addr n i s = pipewrite_loop k' E pi addr n (i + 1) ?s"
    using Suc.prems nf i ci by (simp add: k my_def killed_eq pipe_full_def pipe_put_def [abs_def])
  also have "\<dots> = (let s' = pipe_puts pi (ubytes (mem ?s) (pagetable (procs ?s p)) (addr + word_of_int (i + 1)) m) ?s
       in andthen (wakeup (Some (ChPipeR pi)) s') (\<lambda>s. andthen (krelease (Lpipe pi) s) (\<lambda>s. Inr (n, s))))"
    using Suc.prems nf pq.items_put [OF Suc.prems(14) nf] pq.invar_put [OF Suc.prems(14) nf]
    vm by (intro Suc.IH) (simp_all add: set_pipe_def k)
  also have "pipe_puts pi (ubytes (mem ?s) (pagetable (procs ?s p)) (addr + word_of_int (i + 1)) m) ?s =
      pipe_puts pi (ubytes (mem s) ?pt ?a (Suc m)) s"
    using ubytes_split [of 1 "Suc m" "mem s" ?pt ?a] by (simp add: pipe_puts_def set_pipe_def ubytes_def ac_simps)
  finally show ?case .
qed

lemma pipewrite_ok:
  assumes vm: "vm_inv s R ext" "pagetable (procs s p) \<in> R"
    and pr: "cur s = Some p" "p_killed (procs s p) = 0" "procs_unlocked s" "Lpipe pi \<notin> set (held s)"
    and q: "readopen (pipes s pi)" "pipe_inv (pipes s pi)"
    and n: "0 \<le> n" "n < 2 ^ 31" "length (pipe_items (pipes s pi)) + nat n \<le> PIPESIZE"
    and a: "unat addr + nat n \<le> 2 ^ 38" "in_user (mem s) (pagetable (procs s p)) addr (word_of_int n) 4"
  shows "\<exists>s'. pipewrite E pi addr n s = Inr (n, s') \<and>
    pipe_items (pipes s' pi) = pipe_items (pipes s pi) @ ubytes (mem s) (pagetable (procs s p)) addr (nat n) \<and>
    pipe_inv (pipes s' pi) \<and> mem s' = mem s \<and> held s' = held s \<and> vm_inv s' R ext \<and>
    (\<forall>c. pagetable (procs s' c) = pagetable (procs s c)) \<and>
    (\<forall>c < NPROC. c \<noteq> p \<longrightarrow> state (procs s c) = SLEEPING \<longrightarrow> p_chan (procs s c) = Some (ChPipeR pi) \<longrightarrow> state (procs s' c) = RUNNABLE)"
proof -
  let ?t = "s\<lparr>held := Lpipe pi # held s\<rparr>" and ?bs = "ubytes (mem s) (pagetable (procs s p)) addr (nat n)"
  let ?w = "pipe_puts pi ?bs ?t"
  have t: "vm_inv ?t R ext" by (rule vm_inv_same [OF vm(1)]) (simp_all add: kmem_unlocked_def)
  have "procs_unlocked ?w" using pr(3) by (simp add: procs_unlocked_def)
  note wake = wakeup_loop_eq [OF this, of "Some (ChPipeR pi)" "[0..<NPROC]", folded wakeup_def]
  have "pipewrite_loop (nat n + patience E + 1) E pi addr n 0 ?t =
      (let s' = pipe_puts pi (ubytes (mem ?t) (pagetable (procs ?t p)) (addr + word_of_int 0) (nat n)) ?t
       in andthen (wakeup (Some (ChPipeR pi)) s') (\<lambda>s. andthen (krelease (Lpipe pi) s) (\<lambda>s. Inr (n, s))))"
    using assms t by (intro pipewrite_loop_fits [where R = R and ext = ext]) (simp_all add: procs_unlocked_def)
  then have "pipewrite E pi addr n s = Inr (n, (woken (Some (ChPipeR pi)) {0..<NPROC} ?w)\<lparr>held := held s\<rparr>)"
    using pr(4) by (simp add: pipewrite_def kacquire_def Let_def wake krelease_def)
  moreover have "pipes ((woken (Some (ChPipeR pi)) {0..<NPROC} ?w)\<lparr>held := held s\<rparr>) pi = fold pipe_put ?bs (pipes s pi)"
    by (simp add: woken_def pipe_puts_def set_pipe_def)
  moreover have "pipe_items (fold pipe_put ?bs (pipes s pi)) = pipe_items (pipes s pi) @ ?bs \<and> pipe_inv (fold pipe_put ?bs (pipes s pi))"
    using n q by (intro pq.puts) simp_all
  moreover have "vm_inv ((woken (Some (ChPipeR pi)) {0..<NPROC} ?w)\<lparr>held := held s\<rparr>) R ext"
    by (rule vm_inv_same [OF vm(1)]) (simp_all add: woken_def kmem_unlocked_def)
  ultimately show ?thesis using pr(1) by (simp add: woken_def)
qed

section \<open>Reading\<close>

lemma copyout_one:
  assumes "vm_inv s R ext" "r \<in> R" "uperm (mem s) r va 2"
  shows "copyout r va [c] 1 s = Inr (0, s\<lparr>mem := put_bytes (mem s) (uaddr (mem s) r va) [c]\<rparr>)"
proof -
  have uv: "uvalid (mem s) r va" using assms(3) by (simp add: uperm_def)
  note wa = uperm_walkaddr [OF assms] and um = uvalid_maps [OF assms(2) uv]
  have lp0: "leaf_ptr (mem s) r (align_down 12 va) \<noteq> 0"
    using leaf_ptr_0_pte [OF tree_okD(1) [OF vm_invD(6) [OF assms(1,2)]], of "align_down 12 va"] uv um(2) by (auto simp: uvalid_def)
  have ld: "load64 (mem s) (leaf_ptr (mem s) r (align_down 12 va)) = pte_of (mem s) r va"
    using lp0 leaf_ptr_load [OF lp0] um(2) by simp
  have "unat (chunk va 1) = 1" using unat_chunk [of va 1] page_offset(1) [of va] by simp
  then have c1: "chunk va 1 = 1" by (simp add: word_unat_eq_iff)
  have "\<not> MAXVA \<le> align_down 12 va" using wa(3) by (simp add: not_le)
  then have "copyout_loop (Suc 1) r va [c] 1 s = Inr (0, s\<lparr>mem := put_bytes (mem s) (uaddr (mem s) r va) [c]\<rparr>)"
    using assms(3) wa(1,2) lp0 ld
    by (subst copyout_loop_Suc) (simp add: walk_ro c1 copyout_loop_0 uperm_def uaddr_def del: copyout_loop.simps)
  then show ?thesis by (simp add: copyout_def PGSIZE_def)
qed

lemma in_range_next: "m < 2 ^ 63 \<Longrightarrow> in_range v (a + 1) m \<Longrightarrow> in_range v a (Suc m) \<and> unat (v - a) = Suc (unat (v - (a + 1)))"
proof -
  assume m: "m < 2 ^ 63" and r: "in_range v (a + 1) m"
  have r': "in_range v a (Suc m)" "v \<noteq> a" using in_range_shift [of m v a] not_in_range_pred [of m a] m r by auto
  have "v - (a + 1) = (v - a) - 1" by (simp add: algebra_simps)
  moreover have "unat (v - a) = Suc (unat ((v - a) - 1))"
    using unat_minus_one [of "v - a"] unat_gt_0 [of "v - a"] r'(2) by simp
  ultimately show ?thesis using r'(1) by (simp only:)
qed

text \<open>The copy loop moves the first \<open>m\<close> bytes of the queue, where \<open>m\<close> is what is asked for or what is
  there.\<close>

lemma piperead_copy_moves:
  fixes s :: kernel
  assumes "vm_inv s R ext" "\<And>q. 0 \<le> ext q" "pt \<in> R" "cur s = Some p" "pagetable (procs s p) = pt" "pipe_inv (pipes s pi)"
    "m \<le> length (pipe_items (pipes s pi))" "int m \<le> n - i" "int m = n - i \<or> m = length (pipe_items (pipes s pi))"
    "0 \<le> i" "m < k" "in_user (mem s) pt (addr + word_of_int i) (of_nat m) 2"
  shows "\<exists>s'. piperead_copy k pi addr n i s = Inr (i + int m, s') \<and> vm_inv s' R ext \<and>
    pipes s' = (pipes s)(pi := (pipe_get ^^ m) (pipes s pi)) \<and> s' = s\<lparr>mem := mem s', pipes := pipes s'\<rparr> \<and>
    (\<forall>r' \<in> R. \<forall>vb. pte_of (mem s') r' vb = pte_of (mem s) r' vb) \<and>
    (\<forall>r' \<in> R. \<forall>vb. uvalid (mem s) r' vb \<longrightarrow> ubyte (mem s') r' vb =
       (if r' = pt \<and> in_range vb (addr + word_of_int i) m then pipe_items (pipes s pi) ! unat (vb - (addr + word_of_int i))
        else ubyte (mem s) r' vb))"
  using assms
proof (induction m arbitrary: i s k)
  case 0
  obtain k' where "k = Suc k'" using 0(11) by (cases k) auto
  moreover have "n = i \<or> nread (pipes s pi) = nwrite (pipes s pi)" using 0(6,9) pq.empty_iff [of "pipes s pi"] by (auto simp: pipe_empty_def)
  ultimately have "piperead_copy k pi addr n i s = Inr (i, s)" by auto
  then show ?case using 0(1) by simp
next
  case (Suc m)
  obtain k' where k: "k = Suc k'" using Suc.prems(11) by (cases k) auto
  let ?a = "addr + word_of_int i" and ?q = "pipes s pi"
  have m: "m < 512" using pq.bound [OF Suc.prems(6)] Suc.prems(7) by (simp add: PIPESIZE_def)
  have um: "unat (of_nat (Suc m) :: u64) = Suc m" "unat (of_nat m :: u64) = m"
    using m unat_of_nat_u64 [of "Suc m"] unat_of_nat_u64 [of m] by simp_all
  have up: "uperm (mem s) pt (?a + of_nat j) 2" if "j < Suc m" for j using Suc.prems(12) that um(1) by (simp add: in_user_def)
  have up0: "uperm (mem s) pt ?a 2" using up [of 0] by simp
  have ne: "\<not> pipe_empty ?q" using pq.empty_iff [OF Suc.prems(6)] Suc.prems(7) by auto
  note it = pq.items_get [OF Suc.prems(6) ne] and iv = pq.invar_get [OF Suc.prems(6) ne]
  define s1 where "s1 = s\<lparr>mem := put_bytes (mem s) (uaddr (mem s) pt ?a) [pipe_front ?q]\<rparr>"
  have w: "vm_inv s1 R ext" "\<And>r' vb. r' \<in> R \<Longrightarrow> pte_of (mem s1) r' vb = pte_of (mem s) r' vb"
    "\<And>r' vb. r' \<in> R \<Longrightarrow> uvalid (mem s) r' vb \<Longrightarrow>
      ubyte (mem s1) r' vb = (if r' = pt \<and> vb = ?a then pipe_front ?q else ubyte (mem s) r' vb)"
    using vm_write_page [OF Suc.prems(1,2,3), of ?a "[pipe_front ?q]", folded s1_def] up0 page_offset(1) [of ?a]
    by (auto simp: uperm_def in_range_def unat_eq_0)
  define s2 where "s2 = set_pipe pi pipe_get s1"
  have s2: "mem s2 = mem s1" "pipes s2 = (pipes s)(pi := pipe_get ?q)" "held s2 = held s" "cur s2 = cur s" "procs s2 = procs s"
    by (simp_all add: s2_def s1_def set_pipe_def)
  have vm2: "vm_inv s2 R ext" by (rule vm_inv_same [OF w(1)]) (simp_all add: s2_def set_pipe_def kmem_unlocked_def)
  have step: "piperead_copy k pi addr n i s = piperead_copy k' pi addr n (i + 1) s2"
    using Suc.prems(4,5,8) ne copyout_one [OF Suc.prems(1,3) up0, of "pipe_front ?q"]
    by (simp add: k my_def pipe_empty_def pipe_front_def s2_def s1_def pipe_get_def [abs_def])
  have val: "uvalid (mem s2) r' vb = uvalid (mem s) r' vb" if "r' \<in> R" for r' vb using w(2) [OF that] by (simp add: uvalid_def s2)
  have a1: "addr + word_of_int (i + 1) = ?a + 1" by (simp add: ac_simps)
  have iu: "in_user (mem s2) pt (addr + word_of_int (i + 1)) (of_nat m) 2"
    unfolding in_user_def um(2) a1
  proof (intro allI impI)
    fix j assume "j < m"
    then have "uperm (mem s) pt (?a + 1 + of_nat j) 2" using up [of "Suc j"] by (simp add: ac_simps)
    then show "uperm (mem s2) pt (?a + 1 + of_nat j) 2"
      using w(2) [OF Suc.prems(3)] val [OF Suc.prems(3)] by (simp add: uperm_def s2)
  qed
  have l1: "length (pipe_items (pipes s2 pi)) + 1 = length (pipe_items ?q)" using arg_cong [OF it, of length] by (simp add: s2)
  have ih: "cur s2 = Some p" "pagetable (procs s2 p) = pt" "pipe_inv (pipes s2 pi)" "m \<le> length (pipe_items (pipes s2 pi))"
    "int m \<le> n - (i + 1)" "int m = n - (i + 1) \<or> m = length (pipe_items (pipes s2 pi))" "0 \<le> i + 1" "m < k'"
    using Suc.prems(4,5,7-11) l1 iv by (auto simp: s2 k)
  obtain s' where s': "piperead_copy k' pi addr n (i + 1) s2 = Inr (i + 1 + int m, s')" "vm_inv s' R ext"
    "pipes s' = (pipes s2)(pi := (pipe_get ^^ m) (pipes s2 pi))" "s' = s2\<lparr>mem := mem s', pipes := pipes s'\<rparr>"
    "\<And>r' vb. r' \<in> R \<Longrightarrow> pte_of (mem s') r' vb = pte_of (mem s2) r' vb"
    "\<And>r' vb. r' \<in> R \<Longrightarrow> uvalid (mem s2) r' vb \<Longrightarrow> ubyte (mem s') r' vb =
       (if r' = pt \<and> in_range vb (?a + 1) m then pipe_items (pipes s2 pi) ! unat (vb - (?a + 1)) else ubyte (mem s2) r' vb)"
    using Suc.IH [OF vm2 Suc.prems(2,3) ih iu, unfolded a1] by blast
  have "ubyte (mem s') r' vb = (if r' = pt \<and> in_range vb ?a (Suc m) then pipe_items ?q ! unat (vb - ?a) else ubyte (mem s) r' vb)"
    if r': "r' \<in> R" and vb: "uvalid (mem s) r' vb" for r' vb
  proof -
    have u: "uvalid (mem s2) r' vb" using val [OF r'] vb by simp
    have r: "in_range vb ?a (Suc m) \<longleftrightarrow> vb = ?a \<or> in_range vb (?a + 1) m" using m by (intro in_range_shift) simp
    have nin: "\<not> in_range ?a (?a + 1) m" using m by (intro not_in_range_pred) simp
    have x: "pipe_items ?q ! unat (vb - ?a) = pipe_items (pipes s2 pi) ! unat (vb - (?a + 1))" if "in_range vb (?a + 1) m"
      using in_range_next [OF _ that] m it by (simp add: s2)
    show ?thesis using s'(6) [OF r' u] w(3) [OF r' vb] r nin x it by (auto simp: s2)
  qed
  moreover have "pipes s' = (pipes s)(pi := (pipe_get ^^ Suc m) ?q)" using s'(3) by (simp add: s2 funpow_swap1)
  moreover have "s' = s\<lparr>mem := mem s', pipes := pipes s'\<rparr>"
    by (rule trans [OF s'(4)]) (simp add: s2_def s1_def set_pipe_def)
  ultimately show ?case using step s'(1,2,5) w(2) by (intro exI [of _ s']) (simp add: s2 fun_upd_def)
qed

lemma piperead_ok:
  fixes s :: kernel
  assumes vm: "vm_inv s R ext" "\<And>q. 0 \<le> ext q" "pagetable (procs s p) \<in> R"
    and pr: "cur s = Some p" "procs_unlocked s" "Lpipe pi \<notin> set (held s)"
    and q: "pipe_inv (pipes s pi)" "pipe_items (pipes s pi) \<noteq> [] \<or> \<not> writeopen (pipes s pi)"
    and n: "0 \<le> n" "m = min (nat n) (length (pipe_items (pipes s pi)))"
    and a: "in_user (mem s) (pagetable (procs s p)) addr (of_nat m) 2"
  shows "\<exists>s'. piperead E pi addr n s = Inr (int m, s') \<and> pipe_items (pipes s' pi) = drop m (pipe_items (pipes s pi)) \<and>
    pipe_inv (pipes s' pi) \<and> vm_inv s' R ext \<and> held s' = held s \<and>
    (\<forall>r \<in> R. \<forall>va. uview (mem s') r va =
       (if r = pagetable (procs s p) \<and> in_range va addr m then Some (pipe_items (pipes s pi) ! unat (va - addr))
        else uview (mem s) r va)) \<and>
    (\<forall>c < NPROC. c \<noteq> p \<longrightarrow> state (procs s c) = SLEEPING \<longrightarrow> p_chan (procs s c) = Some (ChPipeW pi) \<longrightarrow> state (procs s' c) = RUNNABLE) \<and>
    pipes s' = (pipes s)(pi := (pipe_get ^^ m) (pipes s pi)) \<and> (\<forall>r \<in> R. \<forall>vb. pte_of (mem s') r vb = pte_of (mem s) r vb) \<and>
    s' = (woken (Some (ChPipeW pi)) {0..<NPROC} s)\<lparr>mem := mem s', pipes := pipes s'\<rparr>"
proof -
  let ?t = "s\<lparr>held := Lpipe pi # held s\<rparr>" and ?pt = "pagetable (procs s p)" and ?q = "pipes s pi"
  have t: "vm_inv ?t R ext" by (rule vm_inv_same [OF vm(1)]) (simp_all add: kmem_unlocked_def)
  have w: "pipe_wait (patience E + 1) E pi ?t = Inr (False, ?t)"
    using q pq.empty_iff [OF q(1)] by (auto simp: pipe_empty_def)
  have h: "cur ?t = Some p" "pagetable (procs ?t p) = ?pt" "pipe_inv (pipes ?t pi)" "m \<le> length (pipe_items (pipes ?t pi))"
    "int m \<le> n - 0" "int m = n - 0 \<or> m = length (pipe_items (pipes ?t pi))" "0 \<le> (0 :: int)" "m < nat n + 1"
    "in_user (mem ?t) ?pt (addr + word_of_int 0) (of_nat m) 2"
    using pr q n a by (auto simp: min_def)
  obtain s1 where s1: "piperead_copy (nat n + 1) pi addr n 0 ?t = Inr (int m, s1)" "vm_inv s1 R ext"
      "pipes s1 = (pipes s)(pi := (pipe_get ^^ m) ?q)" "s1 = ?t\<lparr>mem := mem s1, pipes := pipes s1\<rparr>"
      "\<And>r vb. r \<in> R \<Longrightarrow> pte_of (mem s1) r vb = pte_of (mem s) r vb"
      "\<And>r vb. r \<in> R \<Longrightarrow> uvalid (mem s) r vb \<Longrightarrow> ubyte (mem s1) r vb =
         (if r = ?pt \<and> in_range vb addr m then pipe_items ?q ! unat (vb - addr) else ubyte (mem s) r vb)"
    using piperead_copy_moves [OF t vm(2,3) h] by auto
  have s1f: "held s1 = Lpipe pi # held s" "cur s1 = Some p" "procs s1 = procs s"
    using pr(1) by (subst s1(4), simp)+
  define s2 where "s2 = (woken (Some (ChPipeW pi)) {0..<NPROC} s1)\<lparr>held := held s\<rparr>"
  have "procs_unlocked s1" using pr(2) s1f(1) by (simp add: procs_unlocked_def)
  note wake = wakeup_loop_eq [OF this, of "Some (ChPipeW pi)" "[0..<NPROC]", folded wakeup_def]
  have r: "piperead E pi addr n s = Inr (int m, s2)"
    unfolding piperead_def using pr(3) w s1(1) s1f(1) by (simp add: kacquire_def wake krelease_def s2_def del: pipe_wait.simps)
  have g: "pipe_items (pipes s2 pi) = drop m (pipe_items ?q)" "pipe_inv (pipes s2 pi)"
    using pq.gets [OF q(1), of m] n(2) s1(3) by (simp_all add: s2_def woken_def)
  have v: "uview (mem s2) r va = (if r = ?pt \<and> in_range va addr m then Some (pipe_items ?q ! unat (va - addr)) else uview (mem s) r va)"
    if "r \<in> R" for r va
  proof -
    have "uvalid (mem s) ?pt va" if "in_range va addr m"
    proof -
      have um: "unat (of_nat m :: u64) = m" using n(2) pq.bound [OF q(1)] by (intro unat_of_nat_u64) (simp add: PIPESIZE_def)
      have "\<forall>j < m. uperm (mem s) ?pt (addr + of_nat j) 2" using a by (simp add: in_user_def um)
      then have "uperm (mem s) ?pt (addr + of_nat (unat (va - addr))) 2" using that unfolding in_range_def by blast
      then show ?thesis by (simp add: uperm_def)
    qed
    then show ?thesis using s1(5,6) [OF that] that by (auto simp: uview_def uvalid_def s2_def woken_def)
  qed
  have i: "vm_inv s2 R ext" by (rule vm_inv_same [OF s1(2)]) (simp_all add: s2_def woken_def kmem_unlocked_def s1f(1))
  have k: "state (procs s2 c) = RUNNABLE" if "c < NPROC" "c \<noteq> p" "state (procs s c) = SLEEPING" "p_chan (procs s c) = Some (ChPipeW pi)" for c
    using that s1f(2,3) by (simp add: s2_def woken_def)
  have "s2 = (woken (Some (ChPipeW pi)) {0..<NPROC} s)\<lparr>mem := mem s2, pipes := pipes s2\<rparr>"
    if "s1 = ?t\<lparr>mem := x, pipes := y\<rparr>" for x y
    unfolding s2_def that by (simp add: woken_def cong: if_cong)
  from this [OF s1(4)] have "s2 = (woken (Some (ChPipeW pi)) {0..<NPROC} s)\<lparr>mem := mem s2, pipes := pipes s2\<rparr>" .
  moreover have "pipes s2 = (pipes s)(pi := (pipe_get ^^ m) ?q)" "pte_of (mem s2) q vb = pte_of (mem s) q vb" if "q \<in> R" for q vb
    using s1(3,5) that by (simp_all add: s2_def woken_def)
  ultimately show ?thesis using r g i v k vm(3) by (intro exI [of _ s2]) (simp add: s2_def)
qed

section \<open>Properties\<close>

text \<open>C13: A write that fits the free space of the pipe returns the number of bytes, appends the
  bytes of the user buffer to the queue, in order, wakes up the readers and changes no user
  memory.\<close>

theorem pipewrite_appends:
  assumes vm: "vm_inv s R ext" "pagetable (procs s p) \<in> R"
    and pr: "cur s = Some p" "p_killed (procs s p) = 0" "procs_unlocked s" "Lpipe pi \<notin> set (held s)"
    and q: "readopen (pipes s pi)" "pipe_inv (pipes s pi)"
    and n: "0 \<le> n" "n < 2 ^ 31" "length (pipe_items (pipes s pi)) + nat n \<le> PIPESIZE"
    and a: "unat addr + nat n \<le> 2 ^ 38" "in_user (mem s) (pagetable (procs s p)) addr (word_of_int n) 4"
  shows "\<exists>s'. pipewrite E pi addr n s = Inr (n, s') \<and>
    pipe_items (pipes s' pi) = pipe_items (pipes s pi) @ ubytes (mem s) (pagetable (procs s p)) addr (nat n) \<and>
    pipe_inv (pipes s' pi) \<and> mem s' = mem s \<and> held s' = held s \<and>
    (\<forall>c < NPROC. c \<noteq> p \<longrightarrow> state (procs s c) = SLEEPING \<longrightarrow> p_chan (procs s c) = Some (ChPipeR pi) \<longrightarrow> state (procs s' c) = RUNNABLE)"
  using pipewrite_ok [OF assms] by blast

text \<open>C14: A read from a pipe that has data, or whose write end is closed, returns the first bytes
  of the queue, as many as were asked for and are there, puts them at the address it was
  given and nowhere else in any address space, takes them off the queue, and wakes up the
  writers. At the end of the data it returns 0.\<close>

theorem piperead_takes:
  fixes s :: kernel
  assumes "vm_inv s R ext" "\<forall>q. 0 \<le> ext q" "pagetable (procs s p) \<in> R"
    and "cur s = Some p" "procs_unlocked s" "Lpipe pi \<notin> set (held s)"
    and "pipe_inv (pipes s pi)" "pipe_items (pipes s pi) \<noteq> [] \<or> \<not> writeopen (pipes s pi)"
    and "0 \<le> n" "m = min (nat n) (length (pipe_items (pipes s pi)))"
    and "in_user (mem s) (pagetable (procs s p)) addr (of_nat m) 2"
  shows "\<exists>s'. piperead E pi addr n s = Inr (int m, s') \<and> pipe_items (pipes s' pi) = drop m (pipe_items (pipes s pi)) \<and>
    pipe_inv (pipes s' pi) \<and> vm_inv s' R ext \<and> held s' = held s \<and>
    (\<forall>r \<in> R. \<forall>va. uview (mem s') r va =
       (if r = pagetable (procs s p) \<and> in_range va addr m then Some (pipe_items (pipes s pi) ! unat (va - addr))
        else uview (mem s) r va)) \<and>
    (\<forall>c < NPROC. c \<noteq> p \<longrightarrow> state (procs s c) = SLEEPING \<longrightarrow> p_chan (procs s c) = Some (ChPipeW pi) \<longrightarrow> state (procs s' c) = RUNNABLE)"
  using piperead_ok [OF assms(1) _ assms(3-11), of E] assms(2) by blast

section \<open>Witnesses\<close>

text \<open>The memory of theory \<open>Twoprocs\<close> in a kernel state, with an open pipe.\<close>

definition pipe_run :: kernel where
  "pipe_run = run0\<lparr>mem := mem two_procs, freelist := freelist two_procs, kref := kref two_procs, syms := syms two_procs,
     procs := procs two_procs, pipes := (\<lambda>_. pipe0\<lparr>readopen := True, writeopen := True\<rparr>)\<rparr>"

lemma pipe_run_inv: "vm_inv pipe_run two_roots two_ext"
  by (rule vm_inv_same [OF two_procs_inv]) (simp_all add: pipe_run_def run0_def kmem_unlocked_def)

lemma pipe_run_sel: "mem pipe_run = mem two_procs" "cur pipe_run = Some 0" "held pipe_run = []" "procs_unlocked pipe_run"
  "pagetable (procs pipe_run c) = root1" "p_killed (procs pipe_run 0) = 0"
  "readopen (pipes pipe_run pi)" "pipe_inv (pipes pipe_run pi)" "pipe_items (pipes pipe_run pi) = []"
  by (simp_all add: pipe_run_def run0_def procs_unlocked_def two_procs_def proc0_def pipe0_def pipe_inv_def pipe_items_def ring_items_def)

theorem pipewrite_appends_witness:
  "\<exists>s'. pipewrite env0 0x87100000 0x1FF8 8 pipe_run = Inr (8, s') \<and>
     pipe_items (pipes s' 0x87100000) = ubytes (mem two_procs) root1 0x1FF8 8"
  using pipewrite_appends [OF pipe_run_inv, of 0 "0x87100000" 8 "0x1FF8" env0] two_private two_in(1)
  by (simp add: pipe_run_sel PIPESIZE_def) (elim ex_forward, simp)

definition pipe_one :: kernel where
  "pipe_one = set_pipe 0x87100000 (pipe_put 65) pipe_run"

theorem piperead_takes_witness:
  "\<exists>s'. piperead env0 0x87100000 0x1FF8 8 pipe_one = Inr (1, s') \<and> uview (mem s') root1 0x1FF8 = Some 65 \<and>
     pipe_items (pipes s' 0x87100000) = []"
proof -
  have n: "\<forall>q. 0 \<le> two_ext q" using two_ext_nonneg by blast
  have i: "vm_inv pipe_one two_roots two_ext"
    by (rule vm_inv_same [OF pipe_run_inv]) (simp_all add: pipe_one_def set_pipe_def kmem_unlocked_def)
  have p: "pipe_items (pipe_put 65 (pipes pipe_run 0x87100000)) = [65]" "pipe_inv (pipe_put 65 (pipes pipe_run 0x87100000))"
    using pq.items_put [of "pipes pipe_run 0x87100000" 65] pq.invar_put [of "pipes pipe_run 0x87100000" 65]
      pq.full_iff [of "pipes pipe_run 0x87100000"] pipe_run_sel(8,9) by (simp_all add: PIPESIZE_def)
  have u: "in_user (mem two_procs) root1 0x1FF8 (of_nat 1) 2" using two_private(1) by (auto simp: in_user_def dest: spec [of _ 0])
  have r: "in_range 0x1FF8 0x1FF8 1" by (simp add: in_range_def)
  show ?thesis
    using piperead_takes [OF i n _ _ _ _ _ _ _ refl, of 0 "0x87100000" 8 "0x1FF8" env0] two_in(1) u r p pipe_run_sel
    by (simp add: pipe_one_def set_pipe_def procs_unlocked_def) (elim ex_forward, simp add: pipe_one_def set_pipe_def)
qed

section \<open>A writer and a reader\<close>















end
