(* ===== verification/Frame.thy ===== *)
theory Frame
  imports Held
begin

unbundle bit_operations_syntax

text \<open>
  Frame rules: the functions of the memory and of the process table change nothing of the
  state that the drivers and the file system add to the kernel, by the rules of Held.
\<close>

named_theorems mf

abbreviation m1 :: "'z kst_scheme \<Rightarrow> 'z kst_scheme \<Rightarrow> bool" where
  "m1 s \<equiv> \<lambda>s'. kst.more s' = kst.more s"

abbreviation m2 :: "'z kst_scheme \<Rightarrow> 'a \<times> 'z kst_scheme \<Rightarrow> bool" where
  "m2 s \<equiv> \<lambda>(r, s'). kst.more s' = kst.more s"

abbreviation m3 :: "'z kst_scheme \<Rightarrow> 'a \<times> 'b \<times> 'z kst_scheme \<Rightarrow> bool" where
  "m3 s \<equiv> \<lambda>(r, x, s'). kst.more s' = kst.more s"

lemma mp1: "rets m (m1 s) \<Longrightarrow> (\<And>s'. kst.more s' = kst.more s \<Longrightarrow> Q s') \<Longrightarrow> rets m Q"
  and mp2: "rets m' (m2 s) \<Longrightarrow> (\<And>r s'. kst.more s' = kst.more s \<Longrightarrow> Q' (r, s')) \<Longrightarrow> rets m' Q'"
  and mp3: "rets m'' (m3 s) \<Longrightarrow> (\<And>r x s'. kst.more s' = kst.more s \<Longrightarrow> Q'' (r, x, s')) \<Longrightarrow> rets m'' Q''"
  by (erule rets_conseq, simp only: split_paired_all prod.case)+

lemma more_sets [simp]: "kst.more (set_proc p f s) = kst.more s" "kst.more (tf_set p r v s) = kst.more s"
  by (simp_all add: set_proc_def tf_set_def)

section \<open>Memory\<close>

lemma kalloc_mf [THEN mp2, mf]: "rets (kalloc s) (m2 s)"
  unfolding kalloc_def Let_def by (intro wp mf; simp)

lemma kfree_mf [THEN mp1, mf]: "rets (kfree pa s) (m1 s)"
  unfolding kfree_def Let_def by (intro wp mf; simp)

lemma kref_incr_mf [THEN mp1, mf]: "rets (kref_incr pa s) (m1 s)"
  unfolding kref_incr_def Let_def by (intro wp mf; simp)

lemma kref_get_mf [THEN mp2, mf]: "rets (kref_get pa s) (m2 s)"
  unfolding kref_get_def Let_def by (intro wp mf; simp)

lemma walk_loop_mf [THEN mp2, mf]: "rets (walk_loop n pt va a s) (m2 s)"
proof (induction n arbitrary: pt a s)
  case (Suc n)
  show ?case unfolding walk_loop.simps Let_def by (intro wp mf Suc.IH [THEN mp2]; simp)
qed (unfold walk_loop.simps Let_def, (intro wp mf; simp))

lemma walk_mf [THEN mp2, mf]: "rets (walk pt va a s) (m2 s)"
  unfolding walk_def Let_def by (intro wp mf; simp)

lemma walkaddr_mf [THEN mp2, mf]: "rets (walkaddr pt va s) (m2 s)"
  unfolding walkaddr_def Let_def by (intro wp mf; simp)

lemma mappages_loop_mf [THEN mp2, mf]: "rets (mappages_loop n pt a l pa perm s) (m2 s)"
proof (induction n arbitrary: a pa s)
  case (Suc n)
  show ?case unfolding mappages_loop.simps Let_def by (intro wp mf Suc.IH [THEN mp2]; simp)
qed (unfold mappages_loop.simps Let_def, (intro wp mf; simp))

lemma mappages_mf [THEN mp2, mf]: "rets (mappages pt va bytes pa perm s) (m2 s)"
  unfolding mappages_def Let_def by (intro wp mf; simp)

lemma kvmmap_mf [THEN mp1, mf]: "rets (kvmmap kpt va pa bytes perm s) (m1 s)"
  unfolding kvmmap_def Let_def by (intro wp mf; simp)

lemma kvm_switch_mf [THEN mp1, mf]: "rets (kvm_switch kpt s) (m1 s)"
  unfolding kvm_switch_def Let_def by (intro wp mf; simp)

lemma kvminithart_mf [THEN mp1, mf]: "rets (kvminithart s) (m1 s)"
  unfolding kvminithart_def Let_def by (intro wp mf; simp)

lemma uvmcreate_mf [THEN mp2, mf]: "rets (uvmcreate s) (m2 s)"
  unfolding uvmcreate_def Let_def by (intro wp mf; simp)

lemma uvmunmap_loop_mf [THEN mp1, mf]: "rets (uvmunmap_loop n pt a lim df s) (m1 s)"
proof (induction n arbitrary: a s)
  case (Suc n)
  show ?case unfolding uvmunmap_loop.simps Let_def by (intro wp mf Suc.IH [THEN mp1]; simp)
qed (unfold uvmunmap_loop.simps Let_def, (intro wp mf; simp))

lemma uvmunmap_mf [THEN mp1, mf]: "rets (uvmunmap pt va np df s) (m1 s)"
  unfolding uvmunmap_def Let_def by (intro wp mf; simp)

lemma uvmdealloc_mf [THEN mp2, mf]: "rets (uvmdealloc pt o1 n1 s) (m2 s)"
  unfolding uvmdealloc_def Let_def by (intro wp mf; simp)

lemma uvmalloc_loop_mf [THEN mp2, mf]: "rets (uvmalloc_loop n pt a o1 n1 x s) (m2 s)"
proof (induction n arbitrary: a s)
  case (Suc n)
  show ?case unfolding uvmalloc_loop.simps Let_def by (intro wp mf Suc.IH [THEN mp2]; simp)
qed (unfold uvmalloc_loop.simps Let_def, (intro wp mf; simp))

lemma uvmalloc_mf [THEN mp2, mf]: "rets (uvmalloc pt o1 n1 x s) (m2 s)"
  unfolding uvmalloc_def Let_def by (intro wp mf; simp)

lemma freewalk_loop_mf:
  assumes "\<And>s p. rets (child s p) (m1 s)"
  shows "rets (freewalk_loop child k pt s) (m1 s)"
proof (induction k arbitrary: s)
  case (Suc k)
  show ?case unfolding freewalk_loop.simps Let_def by (intro wp assms [THEN mp1] Suc.IH [THEN mp1]) simp_all
qed (unfold freewalk_loop.simps, intro wp, simp)

lemma freewalk_mf [THEN mp1, mf]: "rets (freewalk n s pt) (m1 s)"
proof (induction n arbitrary: s pt)
  case (Suc n)
  show ?case unfolding freewalk.simps by (intro wp mf freewalk_loop_mf [THEN mp1] Suc.IH) simp_all
qed (unfold freewalk.simps, intro wp)

lemma uvmfree_mf [THEN mp1, mf]: "rets (uvmfree pt b s) (m1 s)"
  unfolding uvmfree_def Let_def by (intro wp mf; simp)

lemma uvmcopy_loop_mf [THEN mp2, mf]: "rets (uvmcopy_loop n old new i l s) (m2 s)"
proof (induction n arbitrary: i s)
  case (Suc n)
  show ?case unfolding uvmcopy_loop.simps Let_def by (intro wp mf Suc.IH [THEN mp2]; simp)
qed (unfold uvmcopy_loop.simps Let_def, (intro wp mf; simp))

lemma uvmcopy_mf [THEN mp2, mf]: "rets (uvmcopy old new b s) (m2 s)"
  unfolding uvmcopy_def Let_def by (intro wp mf; simp)

lemma uvmclear_mf [THEN mp1, mf]: "rets (uvmclear pt va s) (m1 s)"
  unfolding uvmclear_def Let_def by (intro wp mf; simp)

lemma ismapped_mf [THEN mp2, mf]: "rets (ismapped pt va s) (m2 s)"
  unfolding ismapped_def Let_def by (intro wp mf; simp)

lemma vmfault_mf [THEN mp2, mf]: "rets (vmfault pt va s) (m2 s)"
  unfolding vmfault_def Let_def by (intro wp mf; simp)

lemma copyout_loop_mf [THEN mp2, mf]: "rets (copyout_loop n pt d src l s) (m2 s)"
proof (induction n arbitrary: d src l s)
  case (Suc n)
  show ?case unfolding copyout_loop.simps Let_def by (intro wp mf Suc.IH [THEN mp2]; simp)
qed (unfold copyout_loop.simps Let_def, (intro wp mf; simp))

lemma copyout_mf [THEN mp2, mf]: "rets (copyout pt d src l s) (m2 s)"
  unfolding copyout_def Let_def by (intro wp mf; simp)

lemma copyin_loop_mf [THEN mp3, mf]: "rets (copyin_loop n pt d src l s) (m3 s)"
proof (induction n arbitrary: d src l s)
  case (Suc n)
  show ?case unfolding copyin_loop.simps Let_def by (intro wp mf Suc.IH [THEN mp3]; simp)
qed (unfold copyin_loop.simps Let_def, (intro wp mf; simp))

lemma copyin_mf [THEN mp3, mf]: "rets (copyin pt src l s) (m3 s)"
  unfolding copyin_def Let_def by (intro wp mf; simp)

lemma copyinstr_loop_mf [THEN mp3, mf]: "rets (copyinstr_loop n pt d src l s) (m3 s)"
proof (induction n arbitrary: d src l s)
  case (Suc n)
  show ?case unfolding copyinstr_loop.simps Let_def by (intro wp mf Suc.IH [THEN mp3]; simp)
qed (unfold copyinstr_loop.simps Let_def, (intro wp mf; simp))

lemma copyinstr_mf [THEN mp3, mf]: "rets (copyinstr pt src l s) (m3 s)"
  unfolding copyinstr_def Let_def by (intro wp mf; simp)

lemma uvmmap_mf [THEN mp1, mf]: "rets (uvmmap pt va pa b perm s) (m1 s)"
  unfolding uvmmap_def Let_def by (intro wp mf; simp)

lemma proc_kpagetable_mf [THEN mp2, mf]: "rets (proc_kpagetable s) (m2 s)"
  unfolding proc_kpagetable_def Let_def by (intro wp mf; simp)

lemma proc_free_kpagetable_mf [THEN mp1, mf]: "rets (proc_free_kpagetable kpt ks s) (m1 s)"
  unfolding proc_free_kpagetable_def Let_def by (intro wp mf; simp)

lemma cow_handler_mf [THEN mp2, mf]: "rets (cow_handler pt va s) (m2 s)"
  unfolding cow_handler_def Let_def by (intro wp mf; simp)

section \<open>Processes\<close>

lemma allocpid_mf [THEN mp2, mf]: "rets (allocpid s) (m2 s)"
  unfolding allocpid_def Let_def by (intro wp mf; simp)

lemma proc_pagetable_mf [THEN mp2, mf]: "rets (proc_pagetable p s) (m2 s)"
  unfolding proc_pagetable_def Let_def by (intro wp mf; simp)

lemma proc_freepagetable_mf [THEN mp1, mf]: "rets (proc_freepagetable pt l s) (m1 s)"
  unfolding proc_freepagetable_def Let_def by (intro wp mf; simp)

lemma freeproc_mf [THEN mp1, mf]: "rets (freeproc p s) (m1 s)"
  unfolding freeproc_def Let_def by (intro wp mf; simp)

lemma allocproc_scan_mf [THEN mp2, mf]: "rets (allocproc_scan ps s) (m2 s)"
proof (induction ps arbitrary: s)
  case (Cons p ps)
  show ?case unfolding allocproc_scan.simps by (intro wp mf Cons.IH [THEN mp2]; simp)
qed (simp add: rets_def)

lemma allocproc_fail_mf [THEN mp2, mf]: "rets (allocproc_fail p s) (m2 s)"
  unfolding allocproc_fail_def Let_def by (intro wp mf; simp)

lemma allocproc_found_mf [THEN mp2, mf]: "rets (allocproc_found p s) (m2 s)"
  unfolding allocproc_found_def Let_def by (intro wp mf; simp)

lemma allocproc_mf [THEN mp2, mf]: "rets (allocproc s) (m2 s)"
  unfolding allocproc_def Let_def by (intro wp mf; simp)

lemma growproc_mf [THEN mp2, mf]: "rets (growproc n s) (m2 s)"
  unfolding growproc_def Let_def by (intro wp mf; simp)

lemma wakeup_loop_mf [THEN mp1, mf]: "rets (wakeup_loop ch ps s) (m1 s)"
proof (induction ps arbitrary: s)
  case (Cons x ps)
  show ?case unfolding wakeup_loop.simps Let_def by (intro wp mf Cons.IH [THEN mp1]; simp)
qed (unfold wakeup_loop.simps, (intro wp mf; simp))

lemma wakeup_mf [THEN mp1, mf]: "rets (wakeup ch s) (m1 s)"
  unfolding wakeup_def Let_def by (intro wp mf; simp)

lemma reparent_loop_mf [THEN mp1, mf]: "rets (reparent_loop p ps s) (m1 s)"
proof (induction ps arbitrary: s)
  case (Cons x ps)
  show ?case unfolding reparent_loop.simps Let_def by (intro wp mf Cons.IH [THEN mp1]; simp)
qed (unfold reparent_loop.simps, (intro wp mf; simp))

lemma reparent_mf [THEN mp1, mf]: "rets (reparent p s) (m1 s)"
  unfolding reparent_def Let_def by (intro wp mf; simp)

lemma kkill_loop_mf [THEN mp2, mf]: "rets (kkill_loop i ps s) (m2 s)"
proof (induction ps arbitrary: s)
  case (Cons x ps)
  show ?case unfolding kkill_loop.simps Let_def by (intro wp mf Cons.IH [THEN mp2]; simp)
qed (unfold kkill_loop.simps, (intro wp mf; simp))

lemma kkill_mf [THEN mp2, mf]: "rets (kkill i s) (m2 s)"
  unfolding kkill_def Let_def by (intro wp mf; simp)

lemma setkilled_mf [THEN mp1, mf]: "rets (setkilled p s) (m1 s)"
  unfolding setkilled_def Let_def by (intro wp mf; simp)

lemma killed_mf [THEN mp2, mf]: "rets (killed p s) (m2 s)"
  unfolding killed_def Let_def by (intro wp mf; simp)

lemma either_copyout_mf [THEN mp3, mf]: "rets (either_copyout dst src s) (m3 s)"
  unfolding either_copyout_def Let_def by (intro wp mf; simp)

lemma either_copyin_mf: "rets (either_copyin src n s) (\<lambda>(r, bs, a, s'). kst.more s' = kst.more s)"
  unfolding either_copyin_def by (intro wp mf; simp)

lemma either_copyin_mwp [mf]:
  "(\<And>r bs a s'. kst.more s' = kst.more s \<Longrightarrow> Q (r, bs, a, s')) \<Longrightarrow> rets (either_copyin src n s) Q"
  by (rule rets_conseq [OF either_copyin_mf]) (simp only: split_paired_all prod.case)

lemma switch_in_mf [THEN mp1, mf]: "rets (switch_in p s) (m1 s)"
  unfolding switch_in_def Let_def by (intro wp mf; simp)

lemma switch_out_mf [THEN mp1, mf]: "rets (switch_out s) (m1 s)"
  unfolding switch_out_def Let_def by (intro wp mf; simp)

section \<open>Sleeping\<close>

text \<open>A predicate that depends on the added state only and that the other threads keep holds
  after a sleep if it held before.\<close>

definition stable :: "env \<Rightarrow> (kernel \<Rightarrow> bool) \<Rightarrow> bool" where
  "stable E I \<longleftrightarrow> (\<forall>s s'. kst.more s' = kst.more s \<longrightarrow> I s \<longrightarrow> I s') \<and>
     (\<forall>s. I s \<longrightarrow> I (others E (s\<lparr>switches := switches s + 1\<rparr>)))"

lemma stable_more: "stable E I \<Longrightarrow> I s \<Longrightarrow> kst.more s' = kst.more s \<Longrightarrow> I s'"
  by (simp add: stable_def)

lemma sched_stable:
  assumes "stable E I" "I s"
  shows "rets (sched E s) I"
proof -
  have o: "I x" if "kst.more t = kst.more s" "kst.more x = kst.more (others E (t\<lparr>held := h, switches := Suc (switches t)\<rparr>))" for t x h
  proof -
    have "I (t\<lparr>held := h\<rparr>)" using assms by (rule stable_more) (simp add: that)
    then have "I (others E (t\<lparr>held := h, switches := Suc (switches t)\<rparr>))" using assms(1) by (auto simp: stable_def dest: spec [of _ "t\<lparr>held := h\<rparr>"])
    then show ?thesis using that(2) by (rule stable_more [OF assms(1)])
  qed
  show ?thesis unfolding sched_def Let_def by (intro wp mf; simp) (rule o, assumption, simp)
qed

lemma sleep_stable:
  assumes "stable E I" "I s"
  shows "rets (sleep E ch lk s) I"
proof -
  have i: "I t" if "kst.more t = kst.more s" for t using assms that by (rule stable_more)
  have sch: "rets (sched E t) (\<lambda>x. I x)" if "kst.more t = kst.more s" for t
    by (rule sched_stable [OF assms(1) i [OF that]])
  show ?thesis unfolding sleep_def Let_def
    by (intro wp mf sch [THEN rets_conseq]; (rule stable_more [OF assms(1)], assumption)?; simp)
qed

lemma sleep_stable_wp: "stable E I \<Longrightarrow> I s \<Longrightarrow> (\<And>s'. I s' \<Longrightarrow> Q s') \<Longrightarrow> rets (sleep E ch lk s) Q"
  by (rule rets_conseq [OF sleep_stable])

end
