(* ===== verification/Consline.thy ===== *)
theory Consline
  imports Frame Queue Psafe Printing
begin

unbundle bit_operations_syntax

text \<open>
  The console line: the read, write and edit indices stay in order, and what is typed is
  what is read.
\<close>

lemma more_kernel:
  fixes s s' :: kernel
  assumes "kst.more s' = kst.more s"
  shows "cons s' = cons s" "bufs s' = bufs s" "disk s' = disk s" "lg s' = lg s" "slocks s' = slocks s"
    "sb s' = sb s" "inodes s' = inodes s" "files s' = files s" "pipes s' = pipes s" "vd s' = vd s" "tx_busy s' = tx_busy s"
  using assms by (cases s; cases s'; simp)+

section \<open>The invariant\<close>

definition cons_inv :: "cons \<Rightarrow> bool" where
  "cons_inv x \<longleftrightarrow> unat (c_w x - c_r x) \<le> unat (c_e x - c_r x) \<and> unat (c_e x - c_r x) \<le> INPUT_BUF_SIZE"

lemma INPUT_ring: "INPUT_BUF_SIZE dvd 2 ^ 32" "INPUT_BUF_SIZE < 2 ^ 32" "INPUT_BUF_SIZE = 128"
  by (simp_all add: INPUT_BUF_SIZE_def)

text \<open>Moving an end of the line by one.\<close>

lemma unat_pred: "a \<noteq> b \<Longrightarrow> unat (a - 1 - b :: u32) = unat (a - b) - 1 \<and> 0 < unat (a - b)"
proof -
  assume "a \<noteq> b"
  then have "a - b \<noteq> 0" by simp
  moreover have e: "a - 1 - b = a - b - 1" by (simp add: algebra_simps)
  ultimately show ?thesis unfolding e using unat_minus_one [of "a - b"] unat_gt_0 [of "a - b"] by simp
qed

lemma unat_shift: "a \<noteq> b \<Longrightarrow> unat (a - (b + 1) :: u32) = unat (a - b) - 1 \<and> 0 < unat (a - b)"
proof -
  assume "a \<noteq> b"
  moreover have e: "a - (b + 1) = a - 1 - b" by (simp add: algebra_simps)
  ultimately show ?thesis unfolding e by (intro unat_pred)
qed

lemma unat_grow: "unat (a - b :: u32) < INPUT_BUF_SIZE \<Longrightarrow> unat (a + 1 - b) = unat (a - b) + 1"
proof -
  assume "unat (a - b) < INPUT_BUF_SIZE"
  then have "unat (a - b + 1) = unat (a - b) + 1" by (simp add: INPUT_BUF_SIZE_def unat_word_ariths)
  moreover have e: "a + 1 - b = a - b + 1" by (simp add: algebra_simps)
  ultimately show ?thesis unfolding e by simp
qed

lemma cons_inv_erase: "cons_inv x \<Longrightarrow> c_e x \<noteq> c_w x \<Longrightarrow> cons_inv (x\<lparr>c_e := c_e x - 1\<rparr>)"
proof -
  assume i: "cons_inv x" and ne: "c_e x \<noteq> c_w x"
  have "unat (c_w x - c_r x) \<noteq> unat (c_e x - c_r x)" using ne by (simp add: word_unat_eq_iff [symmetric])
  then have lt: "unat (c_w x - c_r x) < unat (c_e x - c_r x)" using i by (simp add: cons_inv_def)
  then have "c_e x \<noteq> c_r x" by auto
  from unat_pred [OF this] show ?thesis using i lt by (auto simp: cons_inv_def)
qed

lemma cons_inv_type:
  assumes "cons_inv x" "unat (c_e x - c_r x) < INPUT_BUF_SIZE"
  shows "cons_inv (x\<lparr>c_buf := d, c_e := c_e x + 1\<rparr>)" "cons_inv (x\<lparr>c_buf := d, c_e := c_e x + 1, c_w := c_e x + 1\<rparr>)"
  using assms unat_grow [OF assms(2)] by (simp_all add: cons_inv_def)

lemma cons_inv_read: "cons_inv x \<Longrightarrow> c_r x \<noteq> c_w x \<Longrightarrow> cons_inv (x\<lparr>c_r := c_r x + 1\<rparr>)"
proof -
  assume i: "cons_inv x" and ne: "c_r x \<noteq> c_w x"
  then have "c_e x \<noteq> c_r x" using unat_gt_0 [of "c_w x - c_r x"] by (auto simp: cons_inv_def)
  then show ?thesis using unat_shift [of "c_w x" "c_r x"] unat_shift [of "c_e x" "c_r x"] i ne by (auto simp: cons_inv_def)
qed

section \<open>The interrupt handler\<close>

lemma consputc_cons: "(\<And>s'. cons s' = cons s \<Longrightarrow> Q s') \<Longrightarrow> rets (consputc E c s) Q"
  by (rule consputc_po) (blast dest: core_sel)

lemma wakeup_cons:
  fixes s :: kernel
  shows "(\<And>s'. cons s' = cons s \<Longrightarrow> Q s') \<Longrightarrow> rets (wakeup ch s) Q"
  by (rule wakeup_mf) (blast dest: more_kernel)

lemma procdump_core: "rets (procdump_loop E ps s) (\<lambda>s'. core s' = core s)"
proof (induction ps arbitrary: s)
  case (Cons p ps)
  show ?case unfolding procdump_loop.simps Let_def by (intro wp printf_core_rets Cons.IH [THEN rets_conseq]; simp)
qed (simp add: rets_def)

lemma procdump_cons: "(\<And>s'. cons s' = cons s \<Longrightarrow> Q s') \<Longrightarrow> rets (procdump E s) Q"
  unfolding procdump_def
  by (intro wp printf_core_rets procdump_core [THEN rets_conseq]) (metis core_sel(18))

lemma kill_line_inv: "cons_inv (cons s) \<Longrightarrow> rets (kill_line n E s) (\<lambda>s'. cons_inv (cons s'))"
proof (induction n arbitrary: s)
  case (Suc n)
  show ?case unfolding kill_line.simps
    by (intro wp consputc_cons Suc.IH) (use Suc.prems in \<open>simp_all add: set_cons_def cons_inv_erase\<close>)
qed (simp add: rets_def)

lemma consoleintr_char_inv: "cons_inv (cons s) \<Longrightarrow> rets (consoleintr_char E c s) (\<lambda>s'. cons_inv (cons s'))"
  unfolding consoleintr_char_def Let_def
  by (intro wp consputc_cons wakeup_cons) (simp_all add: set_cons_def cons_inv_type)

lemma consoleintr_inv: "cons_inv (cons s) \<Longrightarrow> rets (consoleintr E c s) (\<lambda>s'. cons_inv (cons s'))"
  unfolding consoleintr_def
  by (intro wp consputc_cons procdump_cons kill_line_inv [THEN rets_conseq] consoleintr_char_inv [THEN rets_conseq])
    (simp_all add: set_cons_def cons_inv_erase)

section \<open>The reader\<close>

lemma cons_stable: "\<forall>s. cons_inv (cons s) \<longrightarrow> cons_inv (cons (others E s)) \<Longrightarrow> stable E (\<lambda>s. cons_inv (cons s))"
  by (auto simp: stable_def dest: more_kernel(1))

lemma cons_wait_inv:
  assumes "stable E (\<lambda>s. cons_inv (cons s))"
  shows "cons_inv (cons s) \<Longrightarrow> rets (cons_wait n E s) (\<lambda>(kl, s'). cons_inv (cons s') \<and> (kl \<or> c_r (cons s') \<noteq> c_w (cons s')))"
proof (induction n arbitrary: s)
  case (Suc n)
  show ?case unfolding cons_wait.simps
    by (intro wp killed_mf sleep_stable_wp [OF assms] Suc.IH) (use Suc.prems in \<open>auto dest: more_kernel(1)\<close>)
qed (simp add: rets_def)

lemma consoleread_loop_inv:
  assumes "stable E (\<lambda>s. cons_inv (cons s))"
  shows "cons_inv (cons s) \<Longrightarrow> rets (consoleread_loop n E dst target m s) (\<lambda>(r, x, s'). cons_inv (cons s'))"
proof (induction n arbitrary: dst m s)
  case (Suc n)
  note w = cons_wait_inv [OF assms, THEN rets_conseq]
  show ?case unfolding consoleread_loop.simps Let_def
    by (intro wp w either_copyout_mf Suc.IH; (simp only: split_paired_all prod.case)?)
      (use Suc.prems in \<open>auto simp: set_cons_def cons_inv_read dest!: more_kernel(1)\<close>)
qed (simp add: rets_def)

section \<open>Line editing\<close>

text \<open>The abstract line: the characters that can be read, and the ones that are still edited.\<close>

definition line_ready :: "cons \<Rightarrow> u8 list" where
  "line_ready x = ring_items INPUT_BUF_SIZE (c_buf x) (c_r x) (c_w x)"

definition line_edit :: "cons \<Rightarrow> u8 list" where
  "line_edit x = ring_items INPUT_BUF_SIZE (c_buf x) (c_w x) (c_e x)"

text \<open>What a character does: control-U erases the edited characters back to a newline, control-H and
  delete erase one; any other one is added if there is room, carriage return as newline, and a
  newline, an end of file or the last free slot makes the line ready.\<close>

definition edit_step :: "int \<Rightarrow> u8 list \<times> u8 list \<Rightarrow> u8 list \<times> u8 list" where
  "edit_step c l =
     (case l of (rd, ed) \<Rightarrow>
      if c = ctrl 80 then (rd, ed)
      else if c = ctrl 85 then (rd, rev (dropWhile (\<lambda>b. b \<noteq> 10) (rev ed)))
      else if c = ctrl 72 \<or> c = 127 then (rd, butlast ed)
      else if c \<noteq> 0 \<and> length rd + length ed < INPUT_BUF_SIZE
      then
        let c = (if c = 13 then 10 else c)
        in if c = 10 \<or> c = ctrl 68 \<or> length rd + length ed + 1 = INPUT_BUF_SIZE
           then (rd @ ed @ [word_of_int c], []) else (rd, ed @ [word_of_int c])
      else (rd, ed))"

lemma unat_between: "unat (w - r) \<le> unat (e - r) \<Longrightarrow> unat (e - w :: u32) = unat (e - r) - unat (w - r)"
proof -
  assume "unat (w - r) \<le> unat (e - r)"
  then have "unat ((e - r) - (w - r)) = unat (e - r) - unat (w - r)" by (intro unat_sub) (simp add: word_le_nat_alt)
  moreover have e: "(e - r) - (w - r) = e - w" by (simp add: algebra_simps)
  ultimately show ?thesis unfolding e by simp
qed

lemma ring_append:
  assumes "unat (w - r) \<le> unat (e - r)"
  shows "ring_items n d r e = ring_items n d r w @ ring_items n d w e"
proof (rule nth_equalityI)
  show "length (ring_items n d r e) = length (ring_items n d r w @ ring_items n d w e)"
    using unat_between [OF assms] assms by simp
  fix i assume i: "i < length (ring_items n d r e)"
  show "ring_items n d r e ! i = (ring_items n d r w @ ring_items n d w e) ! i"
  proof (cases "i < unat (w - r)")
    case True
    then show ?thesis using i assms by (simp add: nth_append) (simp add: ring_items_def)
  next
    case False
    then have "w + of_nat (i - unat (w - r)) = r + of_nat i" by (simp add: of_nat_diff not_less)
    moreover have "i - unat (w - r) < unat (e - w)" using i False unat_between [OF assms] by simp
    ultimately show ?thesis using i False by (simp add: nth_append) (simp add: ring_items_def add.commute)
  qed
qed

lemma ring_erase: "e \<noteq> w \<Longrightarrow> ring_items n d w (e - 1) = butlast (ring_items n d w e)"
  using unat_pred [of e w] by (simp add: ring_items_def butlast_conv_take take_map)

lemma ring_last: "e \<noteq> w \<Longrightarrow> last (ring_items n d w e) = d (unat (e - 1) mod n)"
proof -
  assume "e \<noteq> w"
  then have p: "0 < unat (e - w)" using unat_pred by blast
  then have "of_nat (unat (e - w) - 1) = (e - w - 1 :: u32)" by (simp add: of_nat_diff)
  then have "w + of_nat (unat (e - w) - 1) = e - 1" by (simp add: algebra_simps)
  then show ?thesis using p by (simp add: last_conv_nth ring_items_def)
qed

lemma line_lengths:
  assumes "cons_inv x"
  shows "length (line_ready x) + length (line_edit x) = unat (c_e x - c_r x)" "line_edit x = [] \<longleftrightarrow> c_e x = c_w x"
  using assms unat_between [of "c_w x" "c_r x" "c_e x"] by (auto simp: line_ready_def line_edit_def cons_inv_def ring_empty)

lemma line_erase:
  assumes "c_e x \<noteq> c_w x"
  shows "line_ready (x\<lparr>c_e := c_e x - 1\<rparr>) = line_ready x" "line_edit (x\<lparr>c_e := c_e x - 1\<rparr>) = butlast (line_edit x)"
  using ring_erase [OF assms] by (simp_all add: line_ready_def line_edit_def)

lemma line_type:
  fixes b :: u8
  assumes "cons_inv x" "unat (c_e x - c_r x) < INPUT_BUF_SIZE"
  defines "y \<equiv> x\<lparr>c_buf := (c_buf x)(unat (c_e x) mod INPUT_BUF_SIZE := b), c_e := c_e x + 1\<rparr>"
  shows "line_ready y = line_ready x" "line_edit y = line_edit x @ [b]"
    "line_ready (y\<lparr>c_w := c_e y\<rparr>) = line_ready x @ line_edit x @ [b]" "line_edit (y\<lparr>c_w := c_e y\<rparr>) = []"
    "unat (c_e y - c_r y) = unat (c_e x - c_r x) + 1"
proof -
  note g = unat_grow [OF assms(2)]
  have i: "unat (c_w x - c_r x) \<le> unat (c_e x - c_r x)" using assms(1) by (simp add: cons_inv_def)
  then have lt: "unat (c_e x - c_w x) < INPUT_BUF_SIZE" using unat_between [OF i] assms(2) by simp
  show ed: "line_edit y = line_edit x @ [b]"
    using ring_put [OF INPUT_ring(1,2) lt] by (simp add: line_edit_def y_def)
  have "line_ready y @ line_edit y = ring_items INPUT_BUF_SIZE (c_buf y) (c_r x) (c_e x + 1)"
    using ring_append [of "c_w x" "c_r x" "c_e x + 1"] i g by (simp add: line_ready_def line_edit_def y_def)
  also have "\<dots> = ring_items INPUT_BUF_SIZE (c_buf x) (c_r x) (c_e x) @ [b]"
    using ring_put [OF INPUT_ring(1,2) assms(2)] by (simp add: y_def)
  also have "\<dots> = line_ready x @ line_edit x @ [b]" using ring_append [OF i] by (simp add: line_ready_def line_edit_def)
  finally have all: "line_ready y @ line_edit y = line_ready x @ line_edit x @ [b]" .
  then show "line_ready y = line_ready x" using ed by simp
  have "line_ready (y\<lparr>c_w := c_e y\<rparr>) = ring_items INPUT_BUF_SIZE (c_buf y) (c_r x) (c_e x + 1)"
    by (simp add: line_ready_def y_def)
  also have "\<dots> = line_ready y @ line_edit y"
    using ring_append [of "c_w x" "c_r x" "c_e x + 1"] i g by (simp add: line_ready_def line_edit_def y_def)
  finally show "line_ready (y\<lparr>c_w := c_e y\<rparr>) = line_ready x @ line_edit x @ [b]" using all by simp
  show "line_edit (y\<lparr>c_w := c_e y\<rparr>) = []" by (simp add: line_edit_def ring_empty)
  show "unat (c_e y - c_r y) = unat (c_e x - c_r x) + 1" using g by (simp add: y_def)
qed

text \<open>The handler does what the abstract editor does.\<close>

definition line_of :: "cons \<Rightarrow> u8 list \<times> u8 list" where
  "line_of x = (line_ready x, line_edit x)"

lemma consputc_keeps:
  assumes "uart_ready E"
  shows "(\<And>s'. core s' = core s \<Longrightarrow> held s' = held s \<Longrightarrow> Q s') \<Longrightarrow> does (consputc E c s) Q"
  by (rule does_consputc [OF assms]) simp

lemma kill_line_edit:
  assumes "uart_ready E"
  shows "cons_inv (cons s) \<Longrightarrow> unat (c_e (cons s) - c_w (cons s)) < n \<Longrightarrow>
    does (kill_line n E s) (\<lambda>s'. held s' = held s \<and> cons_inv (cons s') \<and>
      line_of (cons s') = (line_ready (cons s), rev (dropWhile (\<lambda>b. b \<noteq> 10) (rev (line_edit (cons s))))))"
proof (induction n arbitrary: s)
  case (Suc n)
  let ?x = "cons s" and ?y = "(cons s)\<lparr>c_e := c_e (cons s) - 1\<rparr>"
  show ?case
  proof (cases "c_e ?x \<noteq> c_w ?x \<and> c_buf ?x (unat (c_e ?x - 1) mod INPUT_BUF_SIZE) \<noteq> 10")
    case True
    then have ne: "c_e ?x \<noteq> c_w ?x" "line_edit ?x \<noteq> []" "last (line_edit ?x) \<noteq> 10"
      using line_lengths(2) [OF Suc.prems(1)] ring_last [of "c_e ?x" "c_w ?x"] by (auto simp: line_edit_def)
    have r: "dropWhile (\<lambda>b. b \<noteq> 10) (rev (line_edit ?x)) = dropWhile (\<lambda>b. b \<noteq> 10) (rev (butlast (line_edit ?x)))"
      using ne(2,3) by (cases "line_edit ?x" rule: rev_cases) simp_all
    have y: "cons_inv ?y" "unat (c_e ?y - c_w ?y) < n"
      using cons_inv_erase [OF Suc.prems(1) ne(1)] unat_pred [OF ne(1)] Suc.prems(2) by auto
    have "does (kill_line n E s') (\<lambda>s2. held s2 = held s \<and> cons_inv (cons s2) \<and>
      line_of (cons s2) = (line_ready ?x, rev (dropWhile (\<lambda>b. b \<noteq> 10) (rev (line_edit ?x)))))"
      if "cons s' = ?y" "held s' = held s" for s'
      using Suc.IH [of s'] y that line_erase [OF ne(1)] r by simp
    then show ?thesis using True
      by (auto simp: set_cons_def intro!: does_andthen consputc_keeps [OF assms] dest!: core_sel(18))
  next
    case False
    then have "line_edit ?x = [] \<or> last (line_edit ?x) = 10"
      using line_lengths(2) [OF Suc.prems(1)] ring_last [of "c_e ?x" "c_w ?x"] by (auto simp: line_edit_def)
    then have "rev (dropWhile (\<lambda>b. b \<noteq> 10) (rev (line_edit ?x))) = line_edit ?x"
      by (cases "line_edit ?x" rule: rev_cases) auto
    then show ?thesis using False Suc.prems(1) by (auto simp: does_def line_of_def)
  qed
qed simp

lemma wakeup_does:
  fixes s :: kernel
  assumes "procs_unlocked s"
  shows "(\<And>s'. cons s' = cons s \<Longrightarrow> held s' = held s \<Longrightarrow> Q s') \<Longrightarrow> does (wakeup ch s) Q"
  using wakeup_loop_eq [OF assms, of ch "[0..<NPROC]"] by (simp add: wakeup_def does_def woken_def)

lemma consoleintr_char_edit:
  assumes "uart_ready E" "cons_inv (cons s)" "procs_unlocked s" "c \<noteq> ctrl 80" "c \<noteq> ctrl 85" "c \<noteq> ctrl 72" "c \<noteq> 127"
  shows "does (consoleintr_char E c s) (\<lambda>s'. held s' = held s \<and> cons_inv (cons s') \<and>
    line_of (cons s') = edit_step c (line_of (cons s)))"
proof (cases "c \<noteq> 0 \<and> unat (c_e (cons s) - c_r (cons s)) < INPUT_BUF_SIZE")
  case True
  then have lt: "unat (c_e (cons s) - c_r (cons s)) < INPUT_BUF_SIZE" and c: "c \<noteq> 0" by simp_all
  define d where "d = (if c = 13 then 10 else c)"
  note t = line_type [OF assms(2) lt, of "word_of_int d"]
  note i = cons_inv_type [OF assms(2) lt]
  have e: "edit_step c (line_of (cons s)) =
    (if d = 10 \<or> d = ctrl 68 \<or> unat (c_e (cons s) - c_r (cons s)) + 1 = INPUT_BUF_SIZE
     then (line_ready (cons s) @ line_edit (cons s) @ [word_of_int d], [])
     else (line_ready (cons s), line_edit (cons s) @ [word_of_int d]))"
    using assms(4-7) lt c line_lengths(1) [OF assms(2)] by (simp add: edit_step_def line_of_def d_def)
  have p: "procs_unlocked s'" if "held s' = held s" for s' :: kernel
    using assms(3) that by (simp add: procs_unlocked_def)
  show ?thesis unfolding consoleintr_char_def if_P [OF True] Let_def d_def [symmetric] e
    apply (rule does_andthen)
    apply (rule consputc_keeps [OF assms(1)])
    apply (drule core_sel(18))
    apply (intro does_if does_Inr wakeup_does)
    using t i p by (simp_all add: set_cons_def line_of_def)
next
  case False
  then show ?thesis using assms line_lengths(1) [OF assms(2)] unfolding consoleintr_char_def if_not_P [OF False]
    by (auto simp: does_def edit_step_def line_of_def)
qed

lemma erase_edit:
  assumes "uart_ready E" "cons_inv (cons s)" "c = ctrl 72 \<or> c = 127"
  shows "does (if c_e (cons s) \<noteq> c_w (cons s)
       then consputc E BACKSPACE (set_cons (\<lambda>x. x\<lparr>c_e := c_e x - 1\<rparr>) s) else Inr s)
     (\<lambda>s'. held s' = held s \<and> cons_inv (cons s') \<and> line_of (cons s') = edit_step c (line_of (cons s)))"
proof (rule does_if)
  assume ne: "c_e (cons s) \<noteq> c_w (cons s)"
  show "does (consputc E BACKSPACE (set_cons (\<lambda>x. x\<lparr>c_e := c_e x - 1\<rparr>) s))
     (\<lambda>s'. held s' = held s \<and> cons_inv (cons s') \<and> line_of (cons s') = edit_step c (line_of (cons s)))"
  proof (rule consputc_keeps [OF assms(1)])
    fix s' assume s': "core s' = core (set_cons (\<lambda>x. x\<lparr>c_e := c_e x - 1\<rparr>) s)" "held s' = held (set_cons (\<lambda>x. x\<lparr>c_e := c_e x - 1\<rparr>) s)"
    have k: "cons s' = (cons s)\<lparr>c_e := c_e (cons s) - 1\<rparr>" "held s' = held s"
      using core_sel(18) [OF s'(1)] s'(2) by (simp_all add: set_cons_def)
    have "edit_step c (line_of (cons s)) = (line_ready (cons s), butlast (line_edit (cons s)))"
      using assms(3) by (elim disjE) (simp_all add: edit_step_def line_of_def ctrl_def)
    then show "held s' = held s \<and> cons_inv (cons s') \<and> line_of (cons s') = edit_step c (line_of (cons s))"
      using k line_erase [OF ne] cons_inv_erase [OF assms(2) ne] by (simp add: line_of_def)
  qed
next
  assume "\<not> c_e (cons s) \<noteq> c_w (cons s)"
  then show "does (Inr s) (\<lambda>s'. held s' = held s \<and> cons_inv (cons s') \<and> line_of (cons s') = edit_step c (line_of (cons s)))"
    using assms(2,3) line_lengths(2) [OF assms(2)] by (auto simp: does_def edit_step_def line_of_def ctrl_def)
qed

lemma consoleintr_body_edit:
  assumes "uart_ready E" "cons_inv (cons s)" "procs_unlocked s" "c \<noteq> ctrl 80"
  shows "does
      (if c = ctrl 80 then procdump E s
       else if c = ctrl 85 then kill_line (unat (c_e (cons s) - c_w (cons s)) + 1) E s
       else if c = ctrl 72 \<or> c = 127
       then if c_e (cons s) \<noteq> c_w (cons s)
            then consputc E BACKSPACE (set_cons (\<lambda>x. x\<lparr>c_e := c_e x - 1\<rparr>) s)
            else Inr s
       else consoleintr_char E c s)
     (\<lambda>s'. held s' = held s \<and> cons_inv (cons s') \<and> line_of (cons s') = edit_step c (line_of (cons s)))"
  unfolding if_not_P [OF assms(4)]
proof (rule does_if)
  assume "c = ctrl 85"
  then have e: "edit_step c (line_of (cons s)) = (line_ready (cons s), rev (dropWhile (\<lambda>b. b \<noteq> 10) (rev (line_edit (cons s)))))"
    by (simp add: edit_step_def line_of_def ctrl_def)
  show "does (kill_line (unat (c_e (cons s) - c_w (cons s)) + 1) E s)
     (\<lambda>s'. held s' = held s \<and> cons_inv (cons s') \<and> line_of (cons s') = edit_step c (line_of (cons s)))"
    unfolding e by (rule kill_line_edit [OF assms(1,2)]) simp
qed (rule does_if, erule erase_edit [OF assms(1,2)], rule consoleintr_char_edit [OF assms]; blast)

section \<open>Properties\<close>

text \<open>C18: Whatever is typed and read, the indices of the console buffer stay in order, \<open>r\<close>
  before \<open>w\<close> before \<open>e\<close>, and at most \<open>INPUT_BUF_SIZE\<close> apart, although they are never reset and
  wrap around: no character that was not read is overwritten. While a reader sleeps, the hypothesis
  is the same of the other processes and interrupts.\<close>

theorem console_inv:
  assumes "cons_inv (cons s)" "\<forall>s. cons_inv (cons s) \<longrightarrow> cons_inv (cons (others E s))"
  shows "(consoleintr E c s = Inr s' \<longrightarrow> cons_inv (cons s')) \<and>
    (consoleread E dst n s = Inr (r, d, s'') \<longrightarrow> cons_inv (cons s''))"
proof (intro conjI impI)
  show "cons_inv (cons s')" if "consoleintr E c s = Inr s'"
    using rets_Inr_iff [OF consoleintr_inv [OF assms(1)] that] .
  have "rets (consoleread E dst n s) (\<lambda>(r, x, s'). cons_inv (cons s'))"
    unfolding consoleread_def
    by (intro wp consoleread_loop_inv [OF cons_stable [OF assms(2)]]) (use assms(1) in simp)
  then show "cons_inv (cons s'')" if "consoleread E dst n s = Inr (r, d, s'')"
    using rets_Inr_iff that by fastforce
qed

theorem console_inv_witness:
  "consoleintr env0 127 run0 = Inr run0 \<and> cons_inv (cons run0)"
proof -
  have "cons_inv (cons run0)" "\<forall>s. cons_inv (cons s) \<longrightarrow> cons_inv (cons (others env0 s))"
    by (simp_all add: run0_def env0_def cons_inv_def INPUT_BUF_SIZE_def)
  moreover have "consoleintr env0 127 run0 = Inr run0"
    by (simp add: consoleintr_def kacquire_def krelease_def ctrl_def run0_def)
  ultimately show ?thesis using console_inv [of run0 env0 127 run0] by blast
qed

text \<open>C19: The console is a line editor: for every character but control-P the handler returns and
  does to the ring buffer what \<^const>\<open>edit_step\<close> does to the two lists of characters, the ones that
  can be read and the ones that can still be erased.\<close>

theorem consoleintr_edits:
  assumes "uart_ready E" "cons_inv (cons s)" "procs_unlocked s" "Lcons \<notin> set (held s)" "c \<noteq> ctrl 80"
  shows "\<exists>s'. consoleintr E c s = Inr s' \<and> line_of (cons s') = edit_step c (line_of (cons s)) \<and>
    cons_inv (cons s') \<and> held s' = held s"
proof -
  let ?s = "s\<lparr>held := Lcons # held s\<rparr>"
  have s: "cons_inv (cons ?s)" "procs_unlocked ?s" using assms(2,3) by (simp_all add: procs_unlocked_def)
  have fin: "does (krelease Lcons s2) (\<lambda>s'. line_of (cons s') = edit_step c (line_of (cons s)) \<and> cons_inv (cons s') \<and> held s' = held s)"
    if "held s2 = held ?s \<and> cons_inv (cons s2) \<and> line_of (cons s2) = edit_step c (line_of (cons ?s))" for s2
    using that by (simp add: does_def krelease_def)
  have "does (consoleintr E c s) (\<lambda>s'. line_of (cons s') = edit_step c (line_of (cons s)) \<and> cons_inv (cons s') \<and> held s' = held s)"
    unfolding consoleintr_def
    by (rule does_andthen, rule does_kacquire [OF assms(4)], rule does_andthen,
        rule does_conseq [OF consoleintr_body_edit [OF assms(1) s assms(5)] fin])
  then show ?thesis by (simp add: does_def)
qed

theorem consoleintr_edits_witness:
  "\<exists>s'. consoleintr ready_env 104 run0 = Inr s' \<and> line_of (cons s') = ([], [104])"
proof -
  have "uart_ready ready_env" by (simp add: uart_ready_def ready_env_def env0_def LSR_TX_IDLE_def)
  moreover have "cons_inv (cons run0)" "procs_unlocked run0" "Lcons \<notin> set (held run0)" "(104 :: int) \<noteq> ctrl 80"
    by (simp_all add: cons_inv_def run0_def procs_unlocked_def INPUT_BUF_SIZE_def ctrl_def)
  ultimately obtain s' where "consoleintr ready_env 104 run0 = Inr s'"
    "line_of (cons s') = edit_step 104 (line_of (cons run0))" using consoleintr_edits by blast
  moreover have "line_of (cons run0) = ([], [])" by (simp add: line_of_def line_ready_def line_edit_def run0_def ring_empty)
  ultimately show ?thesis by (simp add: edit_step_def ctrl_def INPUT_BUF_SIZE_def)
qed

end
