(* ===== verification/Ulib.thy ===== *)
theory Ulib
  imports Printing
begin

unbundle bit_operations_syntax

text \<open>
  \<^verbatim>\<open>user/ulib.c\<close>: the string and memory functions of the user library. A \<open>char *\<close> that is only
  read is either a function of the index, as in theory \<open>Cstring\<close>, or, where the code walks along the
  string, the list of the bytes before the nul. A function whose loop ends only at a nul is a
  \<^theory_text>\<open>partial_function\<close>.
\<close>

section \<open>Strings\<close>

text \<open>The bytes \<open>strcpy\<close> stores.\<close>

partial_function (option) strcpy_loop :: "(nat \<Rightarrow> u8) \<Rightarrow> nat \<Rightarrow> u8 list \<Rightarrow> u8 list option" where
  "strcpy_loop t i s = (if t i \<noteq> 0 then strcpy_loop t (Suc i) (s @ [t i]) else Some (s @ [t i]))"

definition strcpy :: "(nat \<Rightarrow> u8) \<Rightarrow> u8 list option" where
  "strcpy t = strcpy_loop t 0 []"

partial_function (option) strcmp_loop :: "(nat \<Rightarrow> u8) \<Rightarrow> (nat \<Rightarrow> u8) \<Rightarrow> nat \<Rightarrow> int option" where
  "strcmp_loop p q i =
     (if p i \<noteq> 0 \<and> p i = q i then strcmp_loop p q (Suc i) else Some (uint (p i) - uint (q i)))"

definition strcmp :: "(nat \<Rightarrow> u8) \<Rightarrow> (nat \<Rightarrow> u8) \<Rightarrow> int option" where
  "strcmp p q = strcmp_loop p q 0"

partial_function (option) strlen_u_loop :: "(nat \<Rightarrow> u8) \<Rightarrow> nat \<Rightarrow> nat option" where
  "strlen_u_loop s n = (if s n \<noteq> 0 then strlen_u_loop s (Suc n) else Some n)"

definition strlen_u :: "(nat \<Rightarrow> u8) \<Rightarrow> nat option" where
  "strlen_u s = strlen_u_loop s 0"

text \<open>\<open>strchr\<close> gives the index of the character; the nul at the end is not found, unlike in the C
  library.\<close>

primrec strchr :: "u8 list \<Rightarrow> u8 \<Rightarrow> nat option" where
  "strchr [] c = None"
| "strchr (x # s) c =
     (if x = 0 then None else if x = c then Some 0 else map_option Suc (strchr s c))"

text \<open>\<open>atoi\<close> computes in the \<open>int\<close> of the machine, 32 bits.\<close>

primrec atoi_loop :: "u8 list \<Rightarrow> u32 \<Rightarrow> u32" where
  "atoi_loop [] n = n"
| "atoi_loop (c # s) n = (if 48 \<le> c \<and> c \<le> 57 then atoi_loop s (n * 10 + ucast c - 48) else n)"

definition atoi :: "u8 list \<Rightarrow> int" where
  "atoi s = sint (atoi_loop s 0)"

section \<open>Memory\<close>

fun memset_u_loop :: "memory \<Rightarrow> u64 \<Rightarrow> u8 \<Rightarrow> nat \<Rightarrow> nat \<Rightarrow> memory" where
  "memset_u_loop m dst c i 0 = m"
| "memset_u_loop m dst c i (Suc k) = memset_u_loop (m(dst + of_nat i := c)) dst c (Suc i) k"

definition memset_u :: "memory \<Rightarrow> u64 \<Rightarrow> int \<Rightarrow> u32 \<Rightarrow> memory" where
  "memset_u m dst c n = memset_u_loop m dst (word_of_int c) 0 (unat n)"

text \<open>The two loops are those of the kernel's \<open>memmove\<close>; the choice between them differs.\<close>

definition memmove_u :: "memory \<Rightarrow> u64 \<Rightarrow> u64 \<Rightarrow> int \<Rightarrow> memory" where
  "memmove_u m vdst vsrc n =
     (if vsrc > vdst then move_up m vdst vsrc (nat n)
      else move_down m (vdst + word_of_int n) (vsrc + word_of_int n) (nat n))"

fun memcmp_u_loop :: "memory \<Rightarrow> u64 \<Rightarrow> u64 \<Rightarrow> nat \<Rightarrow> int" where
  "memcmp_u_loop m p1 p2 0 = 0"
| "memcmp_u_loop m p1 p2 (Suc n) =
     (if m p1 \<noteq> m p2 then uint (m p1) - uint (m p2) else memcmp_u_loop m (p1 + 1) (p2 + 1) n)"

definition memcmp_u :: "memory \<Rightarrow> u64 \<Rightarrow> u64 \<Rightarrow> u32 \<Rightarrow> int" where
  "memcmp_u m s1 s2 n = memcmp_u_loop m s1 s2 (unat n)"

definition memcpy_u :: "memory \<Rightarrow> u64 \<Rightarrow> u64 \<Rightarrow> u32 \<Rightarrow> memory" where
  "memcpy_u m dst src n = memmove_u m dst src (sint n)"

section \<open>Reading\<close>

text \<open>The system call \<open>read\<close>, as a program sees it, is a parameter: what it returns for a size,
  \<open>None\<close> for -1, and what is left to read. \<open>reads rd left\<close> is its contract: it returns bytes from
  the front of what is left, not more than the size, and none only at the end or for the size 0.
  How many it returns is up to it: a file fills the buffer, a pipe gives what is there, the console a line.\<close>

type_synonym 'w reader = "'w \<Rightarrow> nat \<Rightarrow> u8 list option \<times> 'w"

definition reads :: "'w reader \<Rightarrow> ('w \<Rightarrow> u8 list) \<Rightarrow> bool" where
  "reads rd left \<longleftrightarrow> (\<forall>w n. \<exists>bs w'. rd w n = (Some bs, w') \<and> length bs \<le> n \<and> left w = bs @ left w' \<and>
     (bs = [] \<longrightarrow> n = 0 \<or> left w = []))"

text \<open>\<open>gets\<close> reads byte by byte; \<open>k\<close> is \<open>max - 1 - i\<close>. The result is the string in \<open>buf\<close>,
  without the nul that is stored after it.\<close>

primrec gets_loop :: "nat \<Rightarrow> 'w reader \<Rightarrow> u8 list \<Rightarrow> 'w \<Rightarrow> u8 list \<times> 'w" where
  "gets_loop 0 rd buf w = (buf, w)"
| "gets_loop (Suc k) rd buf w =
     (case rd w 1 of
        (Some (c # _), w) \<Rightarrow>
          if c = 10 \<or> c = 13 then (buf @ [c], w) else gets_loop k rd (buf @ [c]) w
      | (_, w) \<Rightarrow> (buf, w))"

definition gets :: "'w reader \<Rightarrow> int \<Rightarrow> 'w \<Rightarrow> u8 list \<times> 'w" where
  "gets rd mx w = gets_loop (nat (mx - 1)) rd [] w"

section \<open>What they compute\<close>

lemma strlen_u_loop_first: "s (n + k) = 0 \<Longrightarrow> \<forall>j < n + k. s j \<noteq> 0 \<Longrightarrow> strlen_u_loop s n = Some (n + k)"
proof (induction k arbitrary: n)
  case 0
  then show ?case by (subst strlen_u_loop.simps) simp
next
  case (Suc k)
  then have "strlen_u_loop s (Suc n) = Some (Suc n + k)" by (intro Suc.IH) simp_all
  then show ?case using Suc.prems(2) by (subst strlen_u_loop.simps) simp
qed

lemma strlen_u_first: "s k = 0 \<Longrightarrow> \<forall>j < k. s j \<noteq> 0 \<Longrightarrow> strlen_u s = Some k"
  using strlen_u_loop_first [of s 0 k] by (simp add: strlen_u_def)

lemma strcpy_loop_copies:
  "t (i + k) = 0 \<Longrightarrow> \<forall>j < i + k. t j \<noteq> 0 \<Longrightarrow> strcpy_loop t i s = Some (s @ map t [i..<i + k] @ [0])"
proof (induction k arbitrary: i s)
  case 0
  then show ?case by (subst strcpy_loop.simps) simp
next
  case (Suc k)
  then have "strcpy_loop t (Suc i) (s @ [t i]) = Some ((s @ [t i]) @ map t [Suc i..<Suc i + k] @ [0])"
    by (intro Suc.IH) simp_all
  moreover have "[i..<i + Suc k] = i # [Suc i..<Suc i + k]" by (simp add: upt_rec)
  ultimately show ?case using Suc.prems(2) by (subst strcpy_loop.simps) (simp del: upt_Suc)
qed

lemma strcmp_loop_equal:
  "p (i + k) = 0 \<Longrightarrow> \<forall>j < i + k. p j \<noteq> 0 \<Longrightarrow>
   \<exists>r. strcmp_loop p q i = Some r \<and> (r = 0 \<longleftrightarrow> (\<forall>j. i \<le> j \<and> j \<le> i + k \<longrightarrow> p j = q j))"
proof (induction k arbitrary: i)
  case 0
  then show ?case by (subst strcmp_loop.simps) (auto simp: word_uint_eq_iff)
next
  case (Suc k)
  have "p i \<noteq> 0" using Suc.prems(2) by simp
  show ?case
  proof (cases "p i = q i")
    case True
    obtain r where r: "strcmp_loop p q (Suc i) = Some r" "r = 0 \<longleftrightarrow> (\<forall>j. Suc i \<le> j \<and> j \<le> Suc i + k \<longrightarrow> p j = q j)"
      using Suc.IH [of "Suc i"] Suc.prems by auto
    moreover have "(\<forall>j. i \<le> j \<and> j \<le> i + Suc k \<longrightarrow> p j = q j) \<longleftrightarrow> (\<forall>j. Suc i \<le> j \<and> j \<le> Suc i + k \<longrightarrow> p j = q j)"
      using True by (metis Suc_leD add_Suc_shift le_antisym not_less_eq_eq)
    ultimately show ?thesis using True \<open>p i \<noteq> 0\<close> by (subst strcmp_loop.simps) simp
  next
    case False
    then have "uint (p i) - uint (q i) \<noteq> 0" by (simp add: word_uint_eq_iff)
    then show ?thesis using False by (subst strcmp_loop.simps) auto
  qed
qed

lemma strchr_Some:
  "strchr s c = Some k \<Longrightarrow> k < length s \<and> s ! k = c \<and> c \<noteq> 0 \<and> 0 \<notin> set (take k s) \<and> c \<notin> set (take k s)"
  by (induction s arbitrary: k) (auto split: if_splits)

lemma strchr_None: "0 \<notin> set s \<Longrightarrow> strchr s c = None \<longleftrightarrow> c \<notin> set s"
  by (induction s) auto

lemma strchr_split: "0 \<notin> set s \<Longrightarrow> c \<notin> set s \<Longrightarrow> c \<noteq> 0 \<Longrightarrow> strchr (s @ c # t) c = Some (length s)"
  by (induction s) auto

lemma memmove_u_copy:
  assumes "unat src + nat n < 2 ^ 64" "unat dst + nat n < 2 ^ 64" "n < 2 ^ 31"
  shows "memmove_u m dst src n = copy m dst src (nat n)"
proof (cases "n \<le> 0")
  case True
  then show ?thesis by (simp add: memmove_u_def copy_def fun_eq_iff)
next
  case False
  then have w: "word_of_int n = (of_nat (nat n) :: u64)" by simp
  have lt: "nat n < 2 ^ 63" using assms(3) False by simp
  show ?thesis
  proof (cases "src > dst")
    case True
    then have "nat n \<le> unat (dst - src)"
      using assms by (simp add: word_less_nat_alt unat_sub_if_size word_size)
    then show ?thesis using True move_up_copy [OF lt, of dst src m] by (simp add: memmove_u_def fun_eq_iff)
  next
    case False
    then have "unat (src - dst) = 0 \<or> nat n \<le> unat (src - dst)"
      using assms by (auto simp: word_less_nat_alt unat_sub_if_size word_size not_less)
    then show ?thesis using False move_down_copy [OF lt, of src dst m]
      unfolding memmove_u_def w by (simp add: fun_eq_iff)
  qed
qed

lemma gets_loop_line:
  assumes "reads rd left"
  shows "\<exists>w'. gets_loop k rd buf w = (buf @ take k (takeWhile (\<lambda>b. b \<noteq> 10 \<and> b \<noteq> 13) (left w) @
           take 1 (dropWhile (\<lambda>b. b \<noteq> 10 \<and> b \<noteq> 13) (left w))), w') \<and>
    left w = take k (takeWhile (\<lambda>b. b \<noteq> 10 \<and> b \<noteq> 13) (left w) @ take 1 (dropWhile (\<lambda>b. b \<noteq> 10 \<and> b \<noteq> 13) (left w))) @ left w'"
proof (induction k arbitrary: buf w)
  case (Suc k)
  obtain bs w' where r: "rd w 1 = (Some bs, w')" "length bs \<le> 1" "left w = bs @ left w'" "bs = [] \<longrightarrow> left w = []"
    using assms unfolding reads_def by (metis zero_neq_one)
  show ?case
  proof (cases bs)
    case Nil
    then show ?thesis using r by simp
  next
    case (Cons c cs)
    then have c: "bs = [c]" "left w = c # left w'" using r by auto
    show ?thesis
    proof (cases "c = 10 \<or> c = 13")
      case True
      then show ?thesis using r(1) c by auto
    next
      case False
      then show ?thesis using Suc.IH [of "buf @ [c]" w'] r(1) c by auto
    qed
  qed
qed simp

lemma numeral_fold: "foldl (\<lambda>a b. a * 10 + digit_val b) a bs = a * 10 ^ length bs + numeral_val 10 bs"
proof (induction bs arbitrary: a rule: rev_induct)
  case Nil
  then show ?case by (simp add: numeral_val_def)
next
  case (snoc b bs)
  then show ?case by (simp add: numeral_val_snoc algebra_simps)
qed

lemma atoi_loop_digits:
  "\<forall>b \<in> set bs. 48 \<le> b \<and> b \<le> 57 \<Longrightarrow>
   atoi_loop bs n = of_nat (foldl (\<lambda>a b. a * 10 + digit_val b) (unat n) bs)"
proof (induction bs arbitrary: n)
  case (Cons b bs)
  have b: "48 \<le> b" "b \<le> 57" using Cons.prems by simp_all
  then have d: "digit_val b = unat b - 48" "48 \<le> unat b"
    by (auto simp: digit_val_def word_le_nat_alt word_less_nat_alt)
  have "unat b < 2 ^ 32" using unsigned_less [of b, where ?'a = nat] by simp
  then have u: "unat (ucast b :: u32) = unat b" by (simp add: unsigned_ucast_eq take_bit_nat_eq_self)
  have v: "of_nat (unat b) = (ucast b :: u32)" unfolding u [symmetric] by simp
  have e: "n * 10 + ucast b - 48 = of_nat (unat n * 10 + digit_val b)"
    using d v by (simp add: of_nat_diff)
  have f: "of_nat (foldl (\<lambda>a b. a * 10 + digit_val b) (unat (of_nat x :: u32)) bs) =
      (of_nat (foldl (\<lambda>a b. a * 10 + digit_val b) x bs) :: u32)" for x
    by (simp add: numeral_fold)
  have "atoi_loop (b # bs) n = atoi_loop bs (of_nat (unat n * 10 + digit_val b))" unfolding e [symmetric] using b by simp
  also have "\<dots> = of_nat (foldl (\<lambda>a b. a * 10 + digit_val b) (unat (of_nat (unat n * 10 + digit_val b) :: u32)) bs)"
    using Cons.prems by (intro Cons.IH) simp
  finally show ?case unfolding f by simp
qed simp

lemma digit_loop_decimal: "\<forall>b \<in> set (digit_loop 10 x). 48 \<le> b \<and> b \<le> 57"
proof (induction "10 :: nat" x rule: digit_loop.induct)
  case (1 x)
  have "\<forall>d \<in> set [0..<10]. 48 \<le> digits ! d \<and> digits ! d \<le> 57" by code_simp
  then have "48 \<le> digits ! (x mod 10) \<and> digits ! (x mod 10) \<le> 57" by simp
  then show ?case using 1 by (subst digit_loop.simps) auto
qed

text \<open>\<open>atoi\<close> reads back the numeral of every number of the type \<open>int\<close> that is not negative,
  as \<open>printf\<close> prints it, whatever other characters follow it.\<close>

theorem atoi_roundtrip:
  assumes "0 \<le> n" "n < 2 ^ 31" "rest = [] \<or> \<not> (48 \<le> hd rest \<and> hd rest \<le> 57)"
  shows "atoi (rev (printint_buf n 10 sg) @ rest) = n"
proof -
  have b: "printint_buf n 10 sg = digit_loop 10 (nat n)"
    using assms(1,2) by (simp add: printint_buf_def Let_def unat_eq_nat_uint uint_word_of_int_eq take_bit_int_eq_self)
  have e: "atoi_loop (bs @ rest) m = atoi_loop bs m" if "\<forall>b \<in> set bs. 48 \<le> b \<and> b \<le> 57" for bs m
    using that
  proof (induction bs arbitrary: m)
    case Nil
    then show ?case using assms(3) by (cases rest) auto
  qed simp
  have "atoi_loop (rev (digit_loop 10 (nat n)) @ rest) 0 = of_nat (nat n)"
    using digit_loop_decimal [of "nat n"] e atoi_loop_digits [of "rev (digit_loop 10 (nat n))" 0]
      digit_loop_val [of 10 "nat n"] by (simp add: numeral_val_def)
  then show ?thesis unfolding atoi_def b using assms(1,2) by (simp add: signed_of_int signed_take_bit_int_eq_self)
qed

theorem atoi_roundtrip_witness: "atoi (rev (printint_buf 1234 10 True) @ [32, 55]) = 1234"
  by (rule atoi_roundtrip) simp_all

end
