(* ===== verification/Utext.thy ===== *)
theory Utext
  imports Ulib
begin

text \<open>
  \<^verbatim>\<open>user/grep.c\<close> and \<^verbatim>\<open>user/wc.c\<close>: programs that read a file in pieces. Their results do
  not depend on how \<open>read\<close> cuts the file.
\<close>

section \<open>The pattern matcher\<close>

text \<open>A pointer into the pattern or the text is the list of the bytes from there to the nul: \<open>re[0]\<close> is
  0 iff the list is empty. \<open>42\<close> is the star, \<open>36\<close> the dollar, \<open>46\<close> the dot, \<open>94\<close> the caret.\<close>

function matchhere :: "u8 list \<Rightarrow> u8 list \<Rightarrow> bool"
  and matchstar :: "u8 \<Rightarrow> u8 list \<Rightarrow> u8 list \<Rightarrow> bool" where
  "matchhere re tx =
     (case re of
        [] \<Rightarrow> True
      | c # re' \<Rightarrow>
          if re' \<noteq> [] \<and> hd re' = 42 then matchstar c (tl re') tx
          else if c = 36 \<and> re' = [] then tx = []
          else case tx of x # tx' \<Rightarrow> (c = 46 \<or> c = x) \<and> matchhere re' tx' | [] \<Rightarrow> False)"
| "matchstar c re tx =
     (if matchhere re tx then True
      else case tx of x # tx' \<Rightarrow> (x = c \<or> c = 46) \<and> matchstar c re tx' | [] \<Rightarrow> False)"
  by pat_completeness auto
termination
  by (relation "measure (case_sum (\<lambda>(re, t). 2 * (length re + length t)) (\<lambda>(c, re, t). 2 * (length re + length t) + 1))")
    auto

declare matchhere.simps [simp del] matchstar.simps [simp del]

primrec match_loop :: "u8 list \<Rightarrow> u8 list \<Rightarrow> bool" where
  "match_loop re [] = matchhere re []"
| "match_loop re (x # tx) = (if matchhere re (x # tx) then True else match_loop re tx)"

definition match :: "u8 list \<Rightarrow> u8 list \<Rightarrow> bool" where
  "match re tx = (if re \<noteq> [] \<and> hd re = 94 then matchhere (tl re) tx else match_loop re tx)"

text \<open>The language of a pattern: one item for each literal, dot or starred character.\<close>

definition fits :: "u8 \<Rightarrow> u8 \<Rightarrow> bool" where
  "fits c x \<longleftrightarrow> c = 46 \<or> c = x"

fun body :: "u8 list \<Rightarrow> (u8 \<times> bool) list" where
  "body [] = []"
| "body [c] = (if c = 36 then [] else [(c, False)])"
| "body (c # d # re) = (if d = 42 then (c, True) # body re else (c, False) # body (d # re))"

fun at_end :: "u8 list \<Rightarrow> bool" where
  "at_end [] = False"
| "at_end [c] = (c = 36)"
| "at_end (c # d # re) = (if d = 42 then at_end re else at_end (d # re))"

primrec lang :: "(u8 \<times> bool) list \<Rightarrow> u8 list set" where
  "lang [] = {[]}"
| "lang (i # is) =
     (if snd i then {u @ v |u v. (\<forall>x \<in> set u. fits (fst i) x) \<and> v \<in> lang is}
      else {x # v |x v. fits (fst i) x \<and> v \<in> lang is})"

definition here :: "u8 list \<Rightarrow> u8 list \<Rightarrow> bool" where
  "here re tx \<longleftrightarrow> (\<exists>u v. tx = u @ v \<and> u \<in> lang (body re) \<and> (at_end re \<longrightarrow> v = []))"

lemma here_Nil [simp]: "here [] tx"
  by (auto simp: here_def)

lemma here_end: "here [36] tx \<longleftrightarrow> tx = []"
  by (auto simp: here_def)

lemma here_char: "\<not> (re \<noteq> [] \<and> hd re = 42) \<Longrightarrow> \<not> (c = 36 \<and> re = []) \<Longrightarrow>
  here (c # re) tx \<longleftrightarrow> (case tx of x # t \<Rightarrow> fits c x \<and> here re t | [] \<Rightarrow> False)"
proof -
  assume "\<not> (re \<noteq> [] \<and> hd re = 42)" "\<not> (c = 36 \<and> re = [])"
  then have "body (c # re) = (c, False) # body re" "at_end (c # re) = at_end re" by (cases re; simp)+
  then show ?thesis by (cases tx) (auto simp: here_def Cons_eq_append_conv)
qed

lemma here_starred:
  "here (c # 42 # re) tx \<longleftrightarrow> (\<exists>u v. tx = u @ v \<and> (\<forall>x \<in> set u. fits c x) \<and> here re v)"
proof
  assume "here (c # 42 # re) tx"
  then obtain u w where "tx = u @ w" "u \<in> lang (body (c # 42 # re))" "at_end re \<longrightarrow> w = []" by (auto simp: here_def)
  moreover then obtain a b where "u = a @ b" "\<forall>x \<in> set a. fits c x" "b \<in> lang (body re)" by auto
  ultimately have "tx = a @ (b @ w)" "\<forall>x \<in> set a. fits c x" "b \<in> lang (body re)" "at_end re \<longrightarrow> w = []" by simp_all
  then show "\<exists>u v. tx = u @ v \<and> (\<forall>x \<in> set u. fits c x) \<and> here re v"
    unfolding here_def by (intro exI [of _ a] exI [of _ "b @ w"]) auto
next
  assume "\<exists>u v. tx = u @ v \<and> (\<forall>x \<in> set u. fits c x) \<and> here re v"
  then obtain a b w where "tx = (a @ b) @ w" "\<forall>x \<in> set a. fits c x" "b \<in> lang (body re)" "at_end re \<longrightarrow> w = []"
    unfolding here_def by auto
  then show "here (c # 42 # re) tx"
    unfolding here_def by (intro exI [of _ "a @ b"] exI [of _ w]) auto
qed

lemma here_star: "here (c # 42 # re) tx \<longleftrightarrow> here re tx \<or> (case tx of x # t \<Rightarrow> fits c x \<and> here (c # 42 # re) t | [] \<Rightarrow> False)"
proof
  assume "here (c # 42 # re) tx"
  then obtain u v where s: "tx = u @ v" "\<forall>x \<in> set u. fits c x" "here re v" by (auto simp: here_starred)
  then show "here re tx \<or> (case tx of x # t \<Rightarrow> fits c x \<and> here (c # 42 # re) t | [] \<Rightarrow> False)"
    unfolding here_starred by (cases u) auto
next
  assume "here re tx \<or> (case tx of x # t \<Rightarrow> fits c x \<and> here (c # 42 # re) t | [] \<Rightarrow> False)"
  then consider "here re tx" | x u v where "tx = x # u @ v" "fits c x" "\<forall>y \<in> set u. fits c y" "here re v"
    by (auto simp: here_starred split: list.splits)
  then show "here (c # 42 # re) tx"
  proof cases
    case 1
    then show ?thesis unfolding here_starred by (intro exI [of _ "[]"] exI [of _ tx]) simp
  next
    case (2 x u v)
    then show ?thesis unfolding here_starred by (intro exI [of _ "x # u"] exI [of _ v]) simp
  qed
qed

lemma matchhere_here: "matchhere re tx \<longleftrightarrow> here re tx"
  and matchstar_here: "matchstar c re tx \<longleftrightarrow> here (c # 42 # re) tx"
proof (induction re tx and c re tx rule: matchhere_matchstar.induct)
  case (1 re tx)
  show ?case
  proof (cases re)
    case Nil
    then show ?thesis by (subst matchhere.simps) simp
  next
    case (Cons c re')
    consider (star) "re' \<noteq> [] \<and> hd re' = 42" | (dollar) "c = 36" "re' = []" | (char) "\<not> (re' \<noteq> [] \<and> hd re' = 42)" "\<not> (c = 36 \<and> re' = [])"
      by blast
    then show ?thesis
    proof cases
      case star
      then have "re = c # 42 # tl re'" using Cons by (cases re') auto
      then show ?thesis using 1(1) [OF Cons star] star Cons by (subst matchhere.simps) simp
    next
      case dollar
      then show ?thesis using Cons by (subst matchhere.simps) (simp add: here_end)
    next
      case char
      then show ?thesis using 1(2) [OF Cons char] Cons by (subst matchhere.simps) (auto simp: here_char fits_def split: list.split)
    qed
  qed
next
  case (2 c re tx)
  then show ?case
    by (subst matchstar.simps, subst here_star) (auto simp: fits_def split: list.split)
qed

lemma match_loop_here: "match_loop re tx \<longleftrightarrow> (\<exists>u v. tx = u @ v \<and> here re v)"
proof (induction tx)
  case Nil
  then show ?case by (simp add: matchhere_here)
next
  case (Cons x tx)
  have "(\<exists>u v. x # tx = u @ v \<and> here re v) \<longleftrightarrow> here re (x # tx) \<or> (\<exists>u v. tx = u @ v \<and> here re v)"
    by (auto simp: Cons_eq_append_conv)
  then show ?case using Cons by (simp add: matchhere_here)
qed

text \<open>C22: \<open>match\<close> decides the pattern language: the text contains a part in the language of the
  pattern's characters, dots and starred characters, which begins the text when the
  pattern starts with a caret and ends it when the pattern ends with a dollar.\<close>

theorem match_correct:
  "match re tx \<longleftrightarrow>
     (let caret = (re \<noteq> [] \<and> hd re = 94); r = (if caret then tl re else re)
      in \<exists>u w v. tx = u @ w @ v \<and> w \<in> lang (body r) \<and> (caret \<longrightarrow> u = []) \<and> (at_end r \<longrightarrow> v = []))"
  by (auto simp: match_def matchhere_here match_loop_here here_def Let_def)

theorem match_correct_witness:
  "[97, 98, 98, 99] \<in> lang (body [97, 46, 42, 99, 36])"
proof -
  have "match [94, 97, 46, 42, 99, 36] [97, 98, 98, 99]" by code_simp
  then show ?thesis unfolding match_correct by simp
qed

section \<open>grep\<close>

text \<open>\<open>grep_lines\<close> is the inner loop: \<open>p\<close> is what the buffer holds from \<open>p\<close> to the nul at \<open>buf[m]\<close>, \<open>wr\<close>
  what was written. The outer loop keeps the rest of \<open>p\<close> in front of the buffer.\<close>

function grep_lines :: "u8 list \<Rightarrow> u8 list \<Rightarrow> u8 list \<Rightarrow> u8 list \<times> u8 list" where
  "grep_lines pattern p wr =
     (case strchr p 10 of
        None \<Rightarrow> (p, wr)
      | Some k \<Rightarrow>
          grep_lines pattern (drop (k + 1) p) (if match pattern (take k p) then wr @ take (k + 1) p else wr))"
  by pat_completeness auto
termination
  by (relation "measure (\<lambda>(_, p, _). length p)") (auto dest: strchr_Some)

declare grep_lines.simps [simp del]

primrec grep_loop :: "nat \<Rightarrow> 'w reader \<Rightarrow> u8 list \<Rightarrow> u8 list \<Rightarrow> u8 list \<Rightarrow> 'w \<Rightarrow> (u8 list \<times> 'w) option" where
  "grep_loop 0 rd pattern buf wr w = None"
| "grep_loop (Suc k) rd pattern buf wr w =
     (case rd w (1024 - length buf - 1) of
        (Some (b # bs), w) \<Rightarrow>
          (case grep_lines pattern (buf @ b # bs) wr of (buf, wr) \<Rightarrow> grep_loop k rd pattern buf wr w)
      | (_, w) \<Rightarrow> Some (wr, w))"

definition grep :: "nat \<Rightarrow> 'w reader \<Rightarrow> u8 list \<Rightarrow> 'w \<Rightarrow> (u8 list \<times> 'w) option" where
  "grep k rd pattern w = grep_loop k rd pattern [] [] w"

text \<open>The specification: the lines, without their newlines, and what follows the last newline.\<close>

primrec cut_lines :: "u8 list \<Rightarrow> u8 list list \<times> u8 list" where
  "cut_lines [] = ([], [])"
| "cut_lines (b # bs) =
     (case cut_lines bs of (ls, r) \<Rightarrow>
      if b = 10 then ([] # ls, r) else case ls of [] \<Rightarrow> ([], b # r) | l # ls' \<Rightarrow> ((b # l) # ls', r))"

abbreviation lines_of :: "u8 list \<Rightarrow> u8 list list" where "lines_of bs \<equiv> fst (cut_lines bs)"
abbreviation last_of :: "u8 list \<Rightarrow> u8 list" where "last_of bs \<equiv> snd (cut_lines bs)"

definition matching :: "u8 list \<Rightarrow> u8 list list \<Rightarrow> u8 list" where
  "matching pattern ls = concat (map (\<lambda>l. l @ [10]) (filter (match pattern) ls))"

lemma matching_append [simp]: "matching pattern (ls @ ls') = matching pattern ls @ matching pattern ls'"
  and matching_Nil [simp]: "matching pattern [] = []"
  by (simp_all add: matching_def)

lemma cut_lines_none: "10 \<notin> set bs \<Longrightarrow> cut_lines bs = ([], bs)"
  by (induction bs) auto

lemma cut_lines_line: "10 \<notin> set l \<Longrightarrow> cut_lines (l @ 10 # t) = (l # lines_of t, last_of t)"
  by (induction l) (auto simp: case_prod_unfold)

lemma cut_lines_append: "cut_lines (a @ b) = (lines_of a @ lines_of (last_of a @ b), last_of (last_of a @ b))"
proof (induction a)
  case (Cons x a)
  then show ?case by (cases "lines_of a") (auto simp: case_prod_unfold)
qed simp

lemma last_of_newline: "10 \<notin> set (last_of bs)"
  by (induction bs) (auto simp: case_prod_unfold split: list.split)

lemma set_last_of: "set (last_of bs) \<subseteq> set bs"
  by (induction bs) (auto simp: case_prod_unfold split: list.split)

lemma last_of_short:
  assumes "\<forall>l \<in> set (lines_of (r @ t)). length l < n" "length (last_of (r @ t)) < n" "10 \<notin> set r"
  shows "length r < n"
proof (cases "10 \<in> set t")
  case True
  then obtain a b where "t = a @ 10 # b" "10 \<notin> set a" using split_list_first by fastforce
  then show ?thesis using assms cut_lines_line [of "r @ a" b] by simp
next
  case False
  then show ?thesis using assms cut_lines_none [of "r @ t"] by simp
qed

lemma grep_lines_cut:
  "0 \<notin> set p \<Longrightarrow> grep_lines pattern p wr = (last_of p, wr @ matching pattern (lines_of p))"
proof (induction pattern p wr rule: grep_lines.induct)
  case (1 pattern p wr)
  show ?case
  proof (cases "strchr p 10")
    case None
    then show ?thesis using strchr_None [OF 1(2), of 10] cut_lines_none [of p] by (subst grep_lines.simps) simp
  next
    case (Some k)
    note k = strchr_Some [OF Some]
    then have p: "p = take k p @ 10 # drop (k + 1) p" using id_take_nth_drop [of k p] by simp
    have "0 \<notin> set (drop (k + 1) p)" using 1(2) by (meson in_set_dropD)
    note ih = 1(1) [OF Some this]
    have t: "take (k + 1) p = take k p @ [10]" using k by (simp add: take_Suc_conv_app_nth)
    have "cut_lines p = (take k p # lines_of (drop (k + 1) p), last_of (drop (k + 1) p))"
      by (subst p, rule cut_lines_line) (use k in blast)
    then show ?thesis using ih Some t by (subst grep_lines.simps) (simp add: matching_def)
  qed
qed

lemma grep_loop_cut:
  assumes "reads rd left"
  shows "length (left w) < k \<Longrightarrow> 0 \<notin> set (buf @ left w) \<Longrightarrow> 10 \<notin> set buf \<Longrightarrow>
    \<forall>l \<in> set (lines_of (buf @ left w)). length l < 1023 \<Longrightarrow> length (last_of (buf @ left w)) < 1023 \<Longrightarrow>
    \<exists>w'. grep_loop k rd pattern buf wr w = Some (wr @ matching pattern (lines_of (buf @ left w)), w')"
proof (induction k arbitrary: buf wr w)
  case (Suc k)
  have lt: "length buf < 1023" using last_of_short [OF Suc.prems(4,5,3)] .
  obtain bs w' where r: "rd w (1024 - length buf - 1) = (Some bs, w')" "left w = bs @ left w'"
    "bs = [] \<longrightarrow> 1024 - length buf - 1 = 0 \<or> left w = []"
    using assms unfolding reads_def by meson
  show ?case
  proof (cases bs)
    case Nil
    then have "left w = []" using r lt by simp
    then show ?thesis using r Nil cut_lines_none [OF Suc.prems(3)] by simp
  next
    case (Cons b bs')
    let ?p = "buf @ bs"
    have c: "cut_lines (buf @ left w) = (lines_of ?p @ lines_of (last_of ?p @ left w'), last_of (last_of ?p @ left w'))"
      using cut_lines_append [of ?p "left w'"] r(2) by simp
    have g: "grep_lines pattern ?p wr = (last_of ?p, wr @ matching pattern (lines_of ?p))"
      using Suc.prems(2) r(2) by (intro grep_lines_cut) auto
    have "\<exists>w2. grep_loop k rd pattern (last_of ?p) (wr @ matching pattern (lines_of ?p)) w' =
      Some ((wr @ matching pattern (lines_of ?p)) @ matching pattern (lines_of (last_of ?p @ left w')), w2)"
      using Suc.prems r(2) Cons c set_last_of [of ?p] last_of_newline [of ?p] by (intro Suc.IH) auto
    then show ?thesis using r(1) g c Cons by simp
  qed
qed simp

text \<open>C39: \<open>grep\<close> ends and has written exactly the lines that match, in order, however \<open>read\<close> cuts
  the file, when no line has more than 1022 characters and the file has no nul. (A line that fills the
  buffer ends the loop, because the next \<open>read\<close> is for 0 bytes; a last line without a newline is not
  matched.)\<close>

theorem grep_correct:
  assumes "reads rd left" "0 \<notin> set (left w)" "length (left w) < k"
    and "\<forall>l \<in> set (lines_of (left w)). length l < 1023" "length (last_of (left w)) < 1023"
  shows "\<exists>w'. grep k rd pattern w = Some (matching pattern (lines_of (left w)), w')"
  using grep_loop_cut [OF assms(1), of w k "[]" pattern "[]"] assms by (simp add: grep_def)

text \<open>A file read in pieces of at most 3 bytes.\<close>

definition slow_file :: "u8 list reader" where
  "slow_file w n = (Some (take (min n 3) w), drop (min n 3) w)"

lemma slow_file_reads: "reads slow_file (\<lambda>w. w)"
  by (auto simp: reads_def slow_file_def)

theorem grep_correct_witness:
  "\<exists>w'. grep 20 slow_file [97, 42, 98] [97, 97, 98, 10, 99, 100, 10, 98, 10] = Some ([97, 97, 98, 10, 98, 10], w')"
proof -
  have "matching [97, 42, 98] [[97, 97, 98], [99, 100], [98]] = [97, 97, 98, 10, 98, 10]" by code_simp
  then show ?thesis
    using grep_correct [OF slow_file_reads, of "[97, 97, 98, 10, 99, 100, 10, 98, 10]" 20 "[97, 42, 98]"] by simp
qed

section \<open>wc\<close>

record wcount =
  wc_l :: u32
  wc_w :: u32
  wc_c :: u32
  inword :: bool

definition wc_space :: "u8 \<Rightarrow> bool" where
  "wc_space b \<longleftrightarrow> strchr [32, 13, 9, 10, 11] b \<noteq> None"

definition wc_byte :: "u8 \<Rightarrow> wcount \<Rightarrow> wcount" where
  "wc_byte b s =
     (let s = s\<lparr>wc_c := wc_c s + 1\<rparr>;
          s = (if b = 10 then s\<lparr>wc_l := wc_l s + 1\<rparr> else s)
      in if wc_space b then s\<lparr>inword := False\<rparr>
         else if \<not> inword s then s\<lparr>wc_w := wc_w s + 1, inword := True\<rparr>
         else s)"

primrec wc_loop :: "nat \<Rightarrow> 'w reader \<Rightarrow> wcount \<Rightarrow> 'w \<Rightarrow> (wcount option \<times> 'w) option" where
  "wc_loop 0 rd s w = None"
| "wc_loop (Suc k) rd s w =
     (case rd w 512 of
        (None, w) \<Rightarrow> Some (None, w)
      | (Some [], w) \<Rightarrow> Some (Some s, w)
      | (Some (b # bs), w) \<Rightarrow> wc_loop k rd (fold wc_byte (b # bs) s) w)"

text \<open>\<open>wc\<close> gives the counts it prints, or \<open>None\<close> for a read error.\<close>

definition wc :: "nat \<Rightarrow> 'w reader \<Rightarrow> 'w \<Rightarrow> (wcount option \<times> 'w) option" where
  "wc k rd w = wc_loop k rd \<lparr>wc_l = 0, wc_w = 0, wc_c = 0, inword = False\<rparr> w"

definition word_starts :: "u8 list \<Rightarrow> nat set" where
  "word_starts bs = {i. i < length bs \<and> \<not> wc_space (bs ! i) \<and> (i = 0 \<or> wc_space (bs ! (i - 1)))}"

lemma finite_word_starts [simp]: "finite (word_starts bs)"
  by (simp add: word_starts_def)

lemma word_starts_snoc:
  "word_starts (bs @ [b]) =
     (if \<not> wc_space b \<and> (bs = [] \<or> wc_space (last bs)) then insert (length bs) (word_starts bs) else word_starts bs)"
  by (cases "bs = []") (auto simp: word_starts_def nth_append last_conv_nth less_Suc_eq)

definition wc_of :: "u8 list \<Rightarrow> wcount" where
  "wc_of bs = \<lparr>wc_l = of_nat (count_list bs 10), wc_w = of_nat (card (word_starts bs)), wc_c = of_nat (length bs),
     inword = (bs \<noteq> [] \<and> \<not> wc_space (last bs))\<rparr>"

lemma wc_byte_of: "wc_byte b (wc_of bs) = wc_of (bs @ [b])"
proof -
  have "length bs \<notin> word_starts bs" by (simp add: word_starts_def)
  then show ?thesis by (auto simp: wc_byte_def wc_of_def word_starts_snoc Let_def)
qed

lemma fold_wc_byte: "fold wc_byte cs (wc_of bs) = wc_of (bs @ cs)"
  by (induction cs arbitrary: bs) (simp_all add: wc_byte_of)

lemma wc_loop_of:
  assumes "reads rd left"
  shows "length (left w) < k \<Longrightarrow> \<exists>w'. wc_loop k rd (wc_of bs) w = Some (Some (wc_of (bs @ left w)), w')"
proof (induction k arbitrary: bs w)
  case (Suc k)
  obtain cs w' where r: "rd w 512 = (Some cs, w')" "left w = cs @ left w'" "cs = [] \<longrightarrow> left w = []"
    using assms unfolding reads_def by (metis zero_neq_numeral)
  show ?case
  proof (cases cs)
    case Nil
    then show ?thesis using r by simp
  next
    case (Cons c cs')
    then have "\<exists>w2. wc_loop k rd (wc_of (bs @ cs)) w' = Some (Some (wc_of ((bs @ cs) @ left w')), w2)"
      using Suc.prems r by (intro Suc.IH) simp
    then show ?thesis using r Cons fold_wc_byte [of cs bs] by simp
  qed
qed simp

text \<open>C40: \<open>wc\<close> ends and counts the newlines, the words (the places where a character that is not a space
  follows a space or the start of the file) and the bytes of the file, modulo \<open>2 ^ 32\<close>, however \<open>read\<close>
  cuts it: a word that a buffer boundary splits counts once.\<close>

theorem wc_correct:
  assumes "reads rd left" "length (left w) < k"
  shows "\<exists>r w'. wc k rd w = Some (Some r, w') \<and> wc_l r = of_nat (count_list (left w) 10) \<and>
    wc_w r = of_nat (card (word_starts (left w))) \<and> wc_c r = of_nat (length (left w))"
proof -
  have "wc_of [] = \<lparr>wc_l = 0, wc_w = 0, wc_c = 0, inword = False\<rparr>" by (simp add: wc_of_def word_starts_def)
  then show ?thesis using wc_loop_of [OF assms, of "[]"] by (auto simp: wc_def wc_of_def)
qed

theorem wc_correct_witness:
  "\<exists>r w'. wc 20 slow_file [97, 97, 97, 97, 32, 98, 10] = Some (Some r, w') \<and> wc_l r = 1 \<and> wc_c r = 7"
  using wc_correct [OF slow_file_reads, of "[97, 97, 97, 97, 32, 98, 10]" 20] by auto

end
