(* ===== verification/Shell.thy ===== *)
theory Shell
  imports Ulib
begin

unbundle bit_operations_syntax

text \<open>
  \<^verbatim>\<open>user/sh.c\<close>: the parser of the shell. A \<open>char *\<close> into the command line is an index, \<open>es\<close> is
  the length of the line, and the character there is the nul. The parser works on indices; the
  specification works on the tokens of the line.
\<close>

section \<open>Commands\<close>

text \<open>\<^verbatim>\<open>struct cmd\<close> and its variants. The parameter is what stands for a word: a pair of pointers
  (\<open>argv\<close> and \<open>eargv\<close>, \<open>file\<close> and \<open>efile\<close>) in the parser, a string in the specification.\<close>

datatype 'w cmd =
    EXEC "'w list"
  | REDIR "'w cmd" 'w int int
  | PIPE "'w cmd" "'w cmd"
  | LIST "'w cmd" "'w cmd"
  | BACK "'w cmd"

definition MAXARGS :: nat where "MAXARGS = 10"

definition O_RDONLY_sh :: int where "O_RDONLY_sh = 0"
definition O_WRONLY_sh :: int where "O_WRONLY_sh = 1"
definition O_CREATE_sh :: int where "O_CREATE_sh = 0x200"
definition O_TRUNC_sh :: int where "O_TRUNC_sh = 0x400"

text \<open>\<open>parseexec\<close> keeps a pointer to the command at the bottom of the redirections it has wrapped
  around it, and adds the arguments through that pointer.\<close>

primrec add_arg :: "'w \<Rightarrow> 'w cmd \<Rightarrow> 'w cmd" where
  "add_arg a (EXEC as) = EXEC (as @ [a])"
| "add_arg a (REDIR c f m d) = REDIR (add_arg a c) f m d"
| "add_arg a (PIPE l r) = PIPE l r"
| "add_arg a (LIST l r) = LIST l r"
| "add_arg a (BACK c) = BACK c"

section \<open>Tokens\<close>

definition whitespace :: "u8 list" where "whitespace = [32, 9, 13, 10, 11]"
definition symbols :: "u8 list" where "symbols = [60, 124, 62, 38, 59, 40, 41]"

definition is_in :: "u8 list \<Rightarrow> u8 \<Rightarrow> bool" where
  "is_in s c \<longleftrightarrow> strchr s c \<noteq> None"

text \<open>The character at an index; at \<open>es\<close> the nul.\<close>

definition ch :: "u8 list \<Rightarrow> nat \<Rightarrow> u8" where
  "ch buf s = (if s < length buf then buf ! s else 0)"

function skip_while :: "(u8 \<Rightarrow> bool) \<Rightarrow> u8 list \<Rightarrow> nat \<Rightarrow> nat" where
  "skip_while P buf s = (if s < length buf \<and> P (ch buf s) then skip_while P buf (s + 1) else s)"
  by pat_completeness auto
termination
  by (relation "measure (\<lambda>(_, buf, s). length buf - s)") auto

declare skip_while.simps [simp del]

definition skip_ws :: "u8 list \<Rightarrow> nat \<Rightarrow> nat" where
  "skip_ws buf s = skip_while (is_in whitespace) buf s"

text \<open>The result: the kind of the token, its first and last pointer, and the new \<open>*ps\<close>.\<close>

definition gettoken :: "u8 list \<Rightarrow> nat \<Rightarrow> u8 \<times> nat \<times> nat \<times> nat" where
  "gettoken buf s =
     (let q = skip_ws buf s; c = ch buf q;
          (ret, eq) =
            (if c = 0 then (c, q)
             else if c \<in> {124, 40, 41, 59, 38, 60} then (c, q + 1)
             else if c = 62 then (if ch buf (q + 1) = 62 then (43, q + 2) else (c, q + 1))
             else (97, skip_while (\<lambda>c. \<not> is_in whitespace c \<and> \<not> is_in symbols c) buf q))
      in (ret, q, eq, skip_ws buf eq))"

definition peek :: "u8 list \<Rightarrow> nat \<Rightarrow> u8 list \<Rightarrow> bool \<times> nat" where
  "peek buf s toks = (let s = skip_ws buf s in (ch buf s \<noteq> 0 \<and> is_in toks (ch buf s), s))"

section \<open>The parser\<close>

text \<open>Every loop and every call gets a number of rounds that bounds it; when they run out the result is
  \<open>Block\<close>. \<open>panic\<close> of the shell prints its message and exits.\<close>

type_synonym pcmd = "(nat \<times> nat) cmd"

primrec parseredirs :: "nat \<Rightarrow> pcmd \<Rightarrow> u8 list \<Rightarrow> nat \<Rightarrow> (pcmd \<times> nat) res" where
  "parseredirs 0 cmd buf s = Inl (Block ''parseredirs'')"
| "parseredirs (Suc k) cmd buf s =
     (case peek buf s [60, 62] of (b, s) \<Rightarrow>
      if \<not> b then Inr (cmd, s)
      else case gettoken buf s of (tok, _, _, s) \<Rightarrow>
      case gettoken buf s of (t, q, eq, s) \<Rightarrow>
      if t \<noteq> 97 then panic ''missing file for redirection''
      else parseredirs k
        (if tok = 60 then REDIR cmd (q, eq) O_RDONLY_sh 0
         else if tok = 62 then REDIR cmd (q, eq) (O_WRONLY_sh OR O_CREATE_sh OR O_TRUNC_sh) 1
         else REDIR cmd (q, eq) (O_WRONLY_sh OR O_CREATE_sh) 1) buf s)"

primrec parseargs :: "nat \<Rightarrow> nat \<Rightarrow> pcmd \<Rightarrow> u8 list \<Rightarrow> nat \<Rightarrow> (pcmd \<times> nat) res" where
  "parseargs 0 argc ret buf s = Inl (Block ''parseexec'')"
| "parseargs (Suc k) argc ret buf s =
     (case peek buf s [124, 41, 38, 59] of (b, s) \<Rightarrow>
      if b then Inr (ret, s)
      else case gettoken buf s of (tok, q, eq, s) \<Rightarrow>
      if tok = 0 then Inr (ret, s)
      else if tok \<noteq> 97 then panic ''syntax''
      else
        let ret = add_arg (q, eq) ret; argc = argc + 1
        in if argc \<ge> MAXARGS then panic ''too many args''
           else andthen (parseredirs k ret buf s) (\<lambda>(ret, s). parseargs k argc ret buf s))"

primrec parsebacks :: "nat \<Rightarrow> pcmd \<Rightarrow> u8 list \<Rightarrow> nat \<Rightarrow> (pcmd \<times> nat) res" where
  "parsebacks 0 cmd buf s = Inl (Block ''parseline'')"
| "parsebacks (Suc k) cmd buf s =
     (case peek buf s [38] of (b, s) \<Rightarrow>
      if \<not> b then Inr (cmd, s)
      else case gettoken buf s of (_, _, _, s) \<Rightarrow> parsebacks k (BACK cmd) buf s)"

fun parseline :: "nat \<Rightarrow> u8 list \<Rightarrow> nat \<Rightarrow> (pcmd \<times> nat) res"
  and parsepipe :: "nat \<Rightarrow> u8 list \<Rightarrow> nat \<Rightarrow> (pcmd \<times> nat) res"
  and parseexec :: "nat \<Rightarrow> u8 list \<Rightarrow> nat \<Rightarrow> (pcmd \<times> nat) res"
  and parseblock :: "nat \<Rightarrow> u8 list \<Rightarrow> nat \<Rightarrow> (pcmd \<times> nat) res" where
  "parseline 0 buf s = Inl (Block ''parseline'')"
| "parseline (Suc k) buf s =
     andthen (parsepipe k buf s) (\<lambda>(cmd, s).
     andthen (parsebacks k cmd buf s) (\<lambda>(cmd, s).
     case peek buf s [59] of (b, s) \<Rightarrow>
     if b then
       case gettoken buf s of (_, _, _, s) \<Rightarrow>
       andthen (parseline k buf s) (\<lambda>(r, s). Inr (LIST cmd r, s))
     else Inr (cmd, s)))"
| "parsepipe 0 buf s = Inl (Block ''parsepipe'')"
| "parsepipe (Suc k) buf s =
     andthen (parseexec k buf s) (\<lambda>(cmd, s).
     case peek buf s [124] of (b, s) \<Rightarrow>
     if b then
       case gettoken buf s of (_, _, _, s) \<Rightarrow>
       andthen (parsepipe k buf s) (\<lambda>(r, s). Inr (PIPE cmd r, s))
     else Inr (cmd, s))"
| "parseexec 0 buf s = Inl (Block ''parseexec'')"
| "parseexec (Suc k) buf s =
     (case peek buf s [40] of (b, s) \<Rightarrow>
      if b then parseblock k buf s
      else andthen (parseredirs k (EXEC []) buf s) (\<lambda>(ret, s). parseargs k 0 ret buf s))"
| "parseblock 0 buf s = Inl (Block ''parseblock'')"
| "parseblock (Suc k) buf s =
     (case peek buf s [40] of (b, s) \<Rightarrow>
      if \<not> b then panic ''parseblock''
      else case gettoken buf s of (_, _, _, s) \<Rightarrow>
      andthen (parseline k buf s) (\<lambda>(cmd, s).
      case peek buf s [41] of (b, s) \<Rightarrow>
      if \<not> b then panic ''syntax - missing )''
      else case gettoken buf s of (_, _, _, s) \<Rightarrow> parseredirs k cmd buf s))"

text \<open>\<open>nulterminate\<close> stores a nul at the end of every word.\<close>

primrec nulterminate :: "pcmd \<Rightarrow> u8 list \<Rightarrow> u8 list" where
  "nulterminate (EXEC as) buf = fold (\<lambda>(q, eq) buf. buf[eq := 0]) as buf"
| "nulterminate (REDIR c f m d) buf = (nulterminate c buf)[snd f := 0]"
| "nulterminate (PIPE l r) buf = nulterminate r (nulterminate l buf)"
| "nulterminate (LIST l r) buf = nulterminate r (nulterminate l buf)"
| "nulterminate (BACK c) buf = nulterminate c buf"

text \<open>\<open>parsecmd\<close> gives the command and the line with its nuls. Four rounds for every character and
  four more are enough.\<close>

definition parsecmd :: "u8 list \<Rightarrow> (pcmd \<times> u8 list) res" where
  "parsecmd buf =
     andthen (parseline (4 * length buf + 4) buf 0) (\<lambda>(cmd, s).
     case peek buf s [] of (_, s) \<Rightarrow>
     if s \<noteq> length buf then panic ''syntax'' else Inr (cmd, nulterminate cmd (buf @ [0])))"

end
