(* ===== verification/Shgram.thy ===== *)
theory Shgram
  imports Shparse
begin

unbundle bit_operations_syntax

text \<open>
  The grammar of the shell: the tokens that stand for a command, and the proof that the parser reads
  them back.
\<close>

section \<open>Commands as tokens\<close>

definition out_trunc :: int where "out_trunc = O_WRONLY_sh OR O_CREATE_sh OR O_TRUNC_sh"
definition out_append :: int where "out_append = O_WRONLY_sh OR O_CREATE_sh"

lemma redir_modes: "out_trunc = 0x601" "out_append = 0x201"
  by (simp_all add: out_trunc_def out_append_def O_WRONLY_sh_def O_CREATE_sh_def O_TRUNC_sh_def)

definition redir_toks :: "u8 list \<Rightarrow> int \<Rightarrow> int \<Rightarrow> token list" where
  "redir_toks f m d = [if d = 0 then Sym 60 else if m = out_trunc then Sym 62 else App, Word f]"

definition block_toks :: "bool \<Rightarrow> token list \<Rightarrow> token list" where
  "block_toks b ts = (if b then [Sym 40] @ ts @ [Sym 41] else ts)"

text \<open>The level says where the command stands: 0 as an element of a pipeline, 1 as a pipeline, 2 as a
  pipeline with ampersands, 3 as a list. A command that does not fit there gets parentheses.\<close>

primrec cmd_toks :: "nat \<Rightarrow> u8 list cmd \<Rightarrow> token list" where
  "cmd_toks lv (EXEC ws) = map Word ws"
| "cmd_toks lv (REDIR c f m d) = cmd_toks 0 c @ redir_toks f m d"
| "cmd_toks lv (PIPE l r) = block_toks (lv < 1) (cmd_toks 0 l @ [Sym 124] @ cmd_toks 1 r)"
| "cmd_toks lv (BACK c) = block_toks (lv < 2) (cmd_toks 2 c @ [Sym 38])"
| "cmd_toks lv (LIST l r) = block_toks (lv < 3) (cmd_toks 2 l @ [Sym 59] @ cmd_toks 3 r)"

text \<open>At most 9 arguments, and the three kinds of redirection.\<close>

primrec wf_cmd :: "'w cmd \<Rightarrow> bool" where
  "wf_cmd (EXEC ws) \<longleftrightarrow> length ws < MAXARGS"
| "wf_cmd (REDIR c f m d) \<longleftrightarrow> wf_cmd c \<and> (m, d) \<in> {(O_RDONLY_sh, 0), (out_trunc, 1), (out_append, 1)}"
| "wf_cmd (PIPE l r) \<longleftrightarrow> wf_cmd l \<and> wf_cmd r"
| "wf_cmd (LIST l r) \<longleftrightarrow> wf_cmd l \<and> wf_cmd r"
| "wf_cmd (BACK c) \<longleftrightarrow> wf_cmd c"

section \<open>What the parser gives\<close>

definition gives :: "u8 list \<Rightarrow> token list \<Rightarrow> u8 list cmd \<Rightarrow> (pcmd \<times> nat) res \<Rightarrow> bool" where
  "gives buf ts c m \<longleftrightarrow>
     (\<exists>t s. m = Inr (t, s) \<and> s \<le> length buf \<and> tokens (drop s buf) = ts \<and> map_cmd (word_at buf) t = c)"

lemma gives_andthen:
  assumes "gives buf ts c m"
    and "\<And>t s. s \<le> length buf \<Longrightarrow> tokens (drop s buf) = ts \<Longrightarrow> map_cmd (word_at buf) t = c \<Longrightarrow> gives buf ts' c' (f (t, s))"
  shows "gives buf ts' c' (andthen m f)"
  using assms by (auto simp: gives_def)

lemma givesI: "s \<le> length buf \<Longrightarrow> tokens (drop s buf) = ts \<Longrightarrow> map_cmd (word_at buf) t = c \<Longrightarrow> gives buf ts c (Inr (t, s))"
  by (auto simp: gives_def)

lemma starts_Sym [simp]: "starts toks (Sym c # ts) \<longleftrightarrow> c \<in> set toks"
  and starts_App [simp]: "starts toks (App # ts) \<longleftrightarrow> 62 \<in> set toks"
  by (simp_all add: starts_def first_char_def)

lemma starts_Word: "Word w # ts = tokens bs \<Longrightarrow> \<forall>c \<in> set toks. \<not> word_char c \<Longrightarrow> \<not> starts toks (Word w # ts)"
  using tokens_wf [of "Word w" bs] by (cases w) (auto simp: starts_def first_char_def wf_token_def dest: sym)

abbreviation redir :: "'w cmd \<Rightarrow> 'w \<times> int \<times> int \<Rightarrow> 'w cmd" where
  "redir c r \<equiv> REDIR c (fst r) (fst (snd r)) (snd (snd r))"

abbreviation rtoks :: "(u8 list \<times> int \<times> int) list \<Rightarrow> token list" where
  "rtoks rs \<equiv> concat (map (\<lambda>r. redir_toks (fst r) (fst (snd r)) (snd (snd r))) rs)"

abbreviation wf_redirs :: "(u8 list \<times> int \<times> int) list \<Rightarrow> bool" where
  "wf_redirs rs \<equiv> \<forall>r \<in> set rs. snd r \<in> {(O_RDONLY_sh, 0), (out_trunc, 1), (out_append, 1)}"

lemma peek_yes:
  assumes "0 \<notin> set buf" "s \<le> length buf" "0 \<notin> set toks" "starts toks (tokens (drop s buf))"
  obtains s1 where "peek buf s toks = (True, s1)" "s1 \<le> length buf" "tokens (drop s1 buf) = tokens (drop s buf)"
  by (rule peek_tokens [OF assms(1-3)]) (use assms(4) that in auto)

lemma gettoken_next:
  assumes "0 \<notin> set buf" "s \<le> length buf" "tokens (drop s buf) = t # ts"
  shows "\<exists>q e s'. gettoken buf s = (kind t, q, e, s') \<and> s' \<le> length buf \<and> tokens (drop s' buf) = ts \<and>
    (\<forall>w. t = Word w \<longrightarrow> word_at buf (q, e) = w)"
  by (rule gettoken_some [OF assms]) blast

lemma parseredirs_gives:
  assumes "0 \<notin> set buf" "\<not> starts [60, 62] ts"
  shows "s \<le> length buf \<Longrightarrow> tokens (drop s buf) = rtoks rs @ ts \<Longrightarrow> wf_redirs rs \<Longrightarrow> length rs < k \<Longrightarrow>
    map_cmd (word_at buf) t = c \<Longrightarrow> gives buf ts (foldl redir c rs) (parseredirs k t buf s)"
proof (induction k arbitrary: s rs t c)
  case (Suc k)
  show ?case
  proof (cases rs)
    case Nil
    obtain s1 where "peek buf s [60, 62] = (False, s1)" "s1 \<le> length buf" "tokens (drop s1 buf) = tokens (drop s buf)"
      by (rule peek_not [OF assms(1) Suc.prems(1), of "[60, 62]"]) (use Suc.prems(2) Nil assms(2) in simp_all)
    then show ?thesis using Suc.prems Nil by (simp add: givesI)
  next
    case (Cons r rs')
    obtain f m d where r: "r = (f, m, d)" by (cases r)
    define x where "x = (if d = 0 then Sym 60 else if m = out_trunc then Sym 62 else App)"
    have ts: "tokens (drop s buf) = x # Word f # rtoks rs' @ ts" using Suc.prems(2) Cons r by (simp add: redir_toks_def x_def)
    have st: "starts [60, 62] (tokens (drop s buf))" unfolding ts by (simp add: x_def)
    obtain s1 where s1: "peek buf s [60, 62] = (True, s1)" "s1 \<le> length buf" "tokens (drop s1 buf) = tokens (drop s buf)"
      by (rule peek_tokens [OF assms(1) Suc.prems(1), of "[60, 62]"]) (use st in simp_all)
    obtain q e s2 where s2: "gettoken buf s1 = (kind x, q, e, s2)" "s2 \<le> length buf" "tokens (drop s2 buf) = Word f # rtoks rs' @ ts"
      using gettoken_next [OF assms(1) s1(2) s1(3) [unfolded ts]] by blast
    obtain q e s3 where s3: "gettoken buf s2 = (kind (Word f), q, e, s3)" "s3 \<le> length buf" "tokens (drop s3 buf) = rtoks rs' @ ts"
      "word_at buf (q, e) = f" using gettoken_next [OF assms(1) s2(2,3)] by blast
    have md: "(m, d) \<in> {(O_RDONLY_sh, 0), (out_trunc, 1), (out_append, 1)}" using Suc.prems(3) Cons r by simp
    have "parseredirs (Suc k) t buf s = parseredirs k (REDIR t (q, e) m d) buf s3"
      using md s1(1) s2(1) s3(1) unfolding out_trunc_def [symmetric] out_append_def [symmetric]
      by (auto simp: kind_def x_def redir_modes out_trunc_def [symmetric] out_append_def [symmetric])
    moreover have "gives buf ts (foldl redir (REDIR c f m d) rs') (parseredirs k (REDIR t (q, e) m d) buf s3)"
      using Suc.IH [OF s3(2,3), of "REDIR t (q, e) m d" "REDIR c f m d"] Suc.prems(3-5) Cons s3(4) by simp
    ultimately show ?thesis using Cons r by simp
  qed
qed simp

definition stops :: "u8 list \<Rightarrow> token list \<Rightarrow> bool" where
  "stops toks ts \<longleftrightarrow> ts = [] \<or> starts toks ts"

lemma stops_not_starts: "stops toks ts \<Longrightarrow> set toks \<inter> set toks' = {} \<Longrightarrow> \<not> starts toks' ts"
  by (auto simp: stops_def starts_def)

lemma stops_mono: "stops toks ts \<Longrightarrow> set toks \<subseteq> set toks' \<Longrightarrow> stops toks' ts"
  by (auto simp: stops_def starts_def)

lemma map_add_arg: "map_cmd f (add_arg a c) = add_arg (f a) (map_cmd f c)"
  by (induction c) auto

lemma parseargs_stop:
  assumes "0 \<notin> set buf" "s \<le> length buf" "stops [124, 41, 38, 59] (tokens (drop s buf))" "map_cmd (word_at buf) t = c"
  shows "gives buf (tokens (drop s buf)) c (parseargs (Suc k) argc t buf s)"
proof (cases "tokens (drop s buf)")
  case Nil
  then have n: "\<not> starts [124, 41, 38, 59] (tokens (drop s buf))" by simp
  obtain s1 where s1: "peek buf s [124, 41, 38, 59] = (False, s1)" "s1 \<le> length buf" "tokens (drop s1 buf) = tokens (drop s buf)"
    by (rule peek_not [OF assms(1,2) _ n]) simp_all
  moreover then obtain q e s2 where "gettoken buf s1 = (0, q, e, s2)" "s2 \<le> length buf" "tokens (drop s2 buf) = []"
    using gettoken_none [OF s1(2)] Nil by metis
  ultimately show ?thesis using assms(4) Nil by (simp add: givesI)
next
  case (Cons x xs)
  then have st: "starts [124, 41, 38, 59] (tokens (drop s buf))" using assms(3) by (simp add: stops_def)
  obtain s1 where "peek buf s [124, 41, 38, 59] = (True, s1)" "s1 \<le> length buf" "tokens (drop s1 buf) = tokens (drop s buf)"
    by (rule peek_yes [OF assms(1,2) _ st]) simp_all
  then show ?thesis using assms(4) by (simp add: givesI)
qed

lemma parseargs_gives:
  assumes "0 \<notin> set buf" "stops [124, 41, 38, 59] ts" "wf_redirs rs"
  shows "s \<le> length buf \<Longrightarrow> tokens (drop s buf) = map Word ws @ rtoks rs @ ts \<Longrightarrow> ws = [] \<longrightarrow> rs = [] \<Longrightarrow>
    argc + length ws < MAXARGS \<Longrightarrow> length ws + length rs < k \<Longrightarrow> map_cmd (word_at buf) t = EXEC as \<Longrightarrow>
    gives buf ts (foldl redir (EXEC (as @ ws)) rs) (parseargs k argc t buf s)"
proof (induction k arbitrary: s ws argc t as)
  case (Suc k)
  show ?case
  proof (cases ws)
    case Nil
    then show ?thesis using parseargs_stop [OF assms(1) Suc.prems(1), of t] Suc.prems assms(2) by simp
  next
    case (Cons w ws')
    have ts: "tokens (drop s buf) = Word w # map Word ws' @ rtoks rs @ ts" using Suc.prems(2) Cons by simp
    have ns: "\<not> starts [124, 41, 38, 59] (tokens (drop s buf))"
      unfolding ts by (rule starts_Word [OF ts [symmetric]]) (simp add: word_char_iff)
    obtain s1 where s1: "peek buf s [124, 41, 38, 59] = (False, s1)" "s1 \<le> length buf" "tokens (drop s1 buf) = tokens (drop s buf)"
      by (rule peek_not [OF assms(1) Suc.prems(1) _ ns]) simp_all
    obtain q e s2 where s2: "gettoken buf s1 = (97, q, e, s2)" "s2 \<le> length buf" "tokens (drop s2 buf) = map Word ws' @ rtoks rs @ ts"
      "word_at buf (q, e) = w" using gettoken_next [OF assms(1) s1(2) s1(3) [unfolded ts]] by (auto simp: kind_def)
    have t: "map_cmd (word_at buf) (add_arg (q, e) t) = EXEC (as @ [w])" using Suc.prems(6) s2(4) by (simp add: map_add_arg)
    have p: "parseargs (Suc k) argc t buf s =
        andthen (parseredirs k (add_arg (q, e) t) buf s2) (\<lambda>(ret, s). parseargs k (argc + 1) ret buf s)"
      using s1 s2 Suc.prems(4) Cons by simp
    show ?thesis
    proof (cases ws')
      case Nil
      have g: "gives buf ts (foldl redir (EXEC (as @ [w])) rs) (parseredirs k (add_arg (q, e) t) buf s2)"
        using s2 t Nil Suc.prems(5) Cons
        by (intro parseredirs_gives [OF assms(1) stops_not_starts [OF assms(2)]] assms(3)) simp_all
      obtain k' where "k = Suc k'" using Suc.prems(5) Cons by (cases k) auto
      have "gives buf ts c (parseargs k (argc + 1) t' buf s')"
        if "s' \<le> length buf" "tokens (drop s' buf) = ts" "map_cmd (word_at buf) t' = c" for t' s' c
        using parseargs_stop [OF assms(1) that(1) _ that(3)] that(2) assms(2) \<open>k = Suc k'\<close> by simp
      with g show ?thesis unfolding p using Nil Cons by (auto intro!: gives_andthen)
    next
      case c: (Cons w2 ws2)
      have ns: "\<not> starts [60, 62] (map Word ws' @ rtoks rs @ ts)"
        using starts_Word [of w2 _ "drop s2 buf" "[60, 62]"] s2(3) c by (simp add: word_char_iff)
      have "gives buf (map Word ws' @ rtoks rs @ ts) (foldl redir (EXEC (as @ [w])) []) (parseredirs k (add_arg (q, e) t) buf s2)"
        using s2 t Suc.prems(5) Cons by (intro parseredirs_gives [OF assms(1) ns]) simp_all
      then show ?thesis unfolding p
      proof (rule gives_andthen)
        fix t' s' assume a: "s' \<le> length buf" "tokens (drop s' buf) = map Word ws' @ rtoks rs @ ts"
          "map_cmd (word_at buf) t' = foldl redir (EXEC (as @ [w])) []"
        have "gives buf ts (foldl redir (EXEC ((as @ [w]) @ ws')) rs) (parseargs k (argc + 1) t' buf s')"
          using a c Suc.prems(4,5) Cons by (intro Suc.IH) simp_all
        then show "gives buf ts (foldl redir (EXEC (as @ ws)) rs) (case (t', s') of (ret, s) \<Rightarrow> parseargs k (argc + 1) ret buf s)"
          using Cons by simp
      qed
    qed
  qed
qed simp

lemma parsebacks_gives:
  assumes "0 \<notin> set buf" "\<not> starts [38] ts"
  shows "s \<le> length buf \<Longrightarrow> tokens (drop s buf) = replicate n (Sym 38) @ ts \<Longrightarrow> n < k \<Longrightarrow>
    map_cmd (word_at buf) t = c \<Longrightarrow> gives buf ts ((BACK ^^ n) c) (parsebacks k t buf s)"
proof (induction k arbitrary: s n t c)
  case (Suc k)
  show ?case
  proof (cases n)
    case 0
    obtain s1 where "peek buf s [38] = (False, s1)" "s1 \<le> length buf" "tokens (drop s1 buf) = tokens (drop s buf)"
      by (rule peek_not [OF assms(1) Suc.prems(1), of "[38]"]) (use Suc.prems(2) 0 assms(2) in simp_all)
    then show ?thesis using Suc.prems 0 by (simp add: givesI)
  next
    case n: (Suc m)
    have st: "starts [38] (tokens (drop s buf))" unfolding Suc.prems(2) n by simp
    obtain s1 x q e s2 where s2: "peek buf s [38] = (True, s1)" "gettoken buf s1 = (x, q, e, s2)" "s2 \<le> length buf"
      "tokens (drop s2 buf) = tl (tokens (drop s buf))" by (rule peek_gettoken [OF assms(1) Suc.prems(1) _ st]) simp_all
    have "gives buf ts ((BACK ^^ m) (BACK c)) (parsebacks k (BACK t) buf s2)"
      using s2 Suc.prems n by (intro Suc.IH) simp_all
    then show ?thesis using s2 n by (simp add: funpow_swap1)
  qed
qed simp

section \<open>The levels of the grammar\<close>

definition exec_ok :: "u8 list \<Rightarrow> u8 list cmd \<Rightarrow> bool" where
  "exec_ok buf c \<longleftrightarrow> (\<forall>s ts rs k. s \<le> length buf \<longrightarrow> tokens (drop s buf) = cmd_toks 0 c @ rtoks rs @ ts \<longrightarrow>
     stops [124, 41, 38, 59] ts \<longrightarrow> wf_redirs rs \<longrightarrow> 4 * length (tokens (drop s buf)) + 2 \<le> k \<longrightarrow>
     gives buf ts (foldl redir c rs) (parseexec k buf s))"

definition pipe_ok :: "u8 list \<Rightarrow> u8 list cmd \<Rightarrow> bool" where
  "pipe_ok buf c \<longleftrightarrow> (\<forall>s ts k. s \<le> length buf \<longrightarrow> tokens (drop s buf) = cmd_toks 1 c @ ts \<longrightarrow>
     stops [41, 38, 59] ts \<longrightarrow> 4 * length (tokens (drop s buf)) + 3 \<le> k \<longrightarrow> gives buf ts c (parsepipe k buf s))"

definition back_ok :: "u8 list \<Rightarrow> u8 list cmd \<Rightarrow> bool" where
  "back_ok buf c \<longleftrightarrow> (\<forall>s ts n k. s \<le> length buf \<longrightarrow> tokens (drop s buf) = cmd_toks 2 c @ replicate n (Sym 38) @ ts \<longrightarrow>
     stops [41, 59] ts \<longrightarrow> 4 * length (tokens (drop s buf)) + 3 \<le> k \<longrightarrow>
     gives buf ts ((BACK ^^ n) c) (andthen (parsepipe k buf s) (\<lambda>(cmd, s). parsebacks k cmd buf s)))"

definition line_ok :: "u8 list \<Rightarrow> u8 list cmd \<Rightarrow> bool" where
  "line_ok buf c \<longleftrightarrow> (\<forall>s ts k. s \<le> length buf \<longrightarrow> tokens (drop s buf) = cmd_toks 3 c @ ts \<longrightarrow>
     stops [41] ts \<longrightarrow> 4 * length (tokens (drop s buf)) + 4 \<le> k \<longrightarrow> gives buf ts c (parseline k buf s))"

lemma pipe_end:
  assumes "0 \<notin> set buf" "s \<le> length buf" "\<not> starts [124] (tokens (drop s buf))"
    "gives buf (tokens (drop s buf)) c (Inr (t, s))"
  shows "gives buf (tokens (drop s buf)) c (case peek buf s [124] of (b, s) \<Rightarrow>
     if b then case gettoken buf s of (_, _, _, s) \<Rightarrow> andthen (parsepipe k buf s) (\<lambda>(r, s). Inr (PIPE t r, s)) else Inr (t, s))"
proof -
  obtain s1 where "peek buf s [124] = (False, s1)" "s1 \<le> length buf" "tokens (drop s1 buf) = tokens (drop s buf)"
    by (rule peek_not [OF assms(1,2) _ assms(3)]) simp_all
  then show ?thesis using assms(4) by (auto simp: gives_def)
qed

lemma pipe_from_exec:
  assumes "0 \<notin> set buf" "exec_ok buf c" "cmd_toks 1 c = cmd_toks 0 c"
  shows "pipe_ok buf c"
  unfolding pipe_ok_def
proof (intro allI impI)
  fix s ts k assume a: "s \<le> length buf" "tokens (drop s buf) = cmd_toks 1 c @ ts" "stops [41, 38, 59] ts" "4 * length (tokens (drop s buf)) + 3 \<le> k"
  then obtain j where k: "k = Suc j" by (cases k) auto
  have "gives buf ts (foldl redir c []) (parseexec j buf s)"
    using assms(2) [unfolded exec_ok_def, rule_format, OF a(1), of "[]" ts j] a assms(3) k
      stops_mono [OF a(3), of "[124, 41, 38, 59]"] by simp
  then show "gives buf ts c (parsepipe k buf s)" unfolding k parsepipe.simps
    by (rule gives_andthen) (use pipe_end [OF assms(1)] stops_not_starts [OF a(3), of "[124]"] in \<open>auto simp: gives_def\<close>)
qed

lemma pipe_PIPE:
  assumes "0 \<notin> set buf" "exec_ok buf l" "pipe_ok buf r"
  shows "pipe_ok buf (PIPE l r)"
  unfolding pipe_ok_def
proof (intro allI impI)
  fix s ts k assume a: "s \<le> length buf" "tokens (drop s buf) = cmd_toks 1 (PIPE l r) @ ts" "stops [41, 38, 59] ts" "4 * length (tokens (drop s buf)) + 3 \<le> k"
  then obtain j where k: "k = Suc j" by (cases k) auto
  let ?ts = "Sym 124 # cmd_toks 1 r @ ts"
  have t: "tokens (drop s buf) = cmd_toks 0 l @ ?ts" using a(2) by (simp add: block_toks_def)
  have "gives buf ?ts (foldl redir l []) (parseexec j buf s)"
    using assms(2) [unfolded exec_ok_def, rule_format, OF a(1), of "[]" ?ts j] a t k by (auto simp: stops_def)
  then show "gives buf ts (PIPE l r) (parsepipe k buf s)" unfolding k parsepipe.simps
  proof (rule gives_andthen)
    fix c s1 assume s1: "s1 \<le> length buf" "tokens (drop s1 buf) = ?ts" "map_cmd (word_at buf) c = foldl redir l []"
    have st: "starts [124] (tokens (drop s1 buf))" unfolding s1(2) by simp
    obtain s2 x q e s3 where g: "peek buf s1 [124] = (True, s2)" "gettoken buf s2 = (x, q, e, s3)" "s3 \<le> length buf"
      "tokens (drop s3 buf) = tl (tokens (drop s1 buf))" by (rule peek_gettoken [OF assms(1) s1(1) _ st]) simp_all
    have "gives buf ts r (parsepipe j buf s3)"
      using assms(3) [unfolded pipe_ok_def, rule_format, OF g(3), of ts j] g(4) s1(2) a t k by simp
    then show "gives buf ts (PIPE l r) (case (c, s1) of (cmd, s) \<Rightarrow> case peek buf s [124] of (b, s) \<Rightarrow>
        if b then case gettoken buf s of (_, _, _, s) \<Rightarrow> andthen (parsepipe j buf s) (\<lambda>(r, s). Inr (PIPE cmd r, s)) else Inr (cmd, s))"
      using g s1(3) by (auto intro!: gives_andthen givesI)
  qed
qed

lemma back_from_pipe:
  assumes "0 \<notin> set buf" "pipe_ok buf c" "cmd_toks 2 c = cmd_toks 1 c"
  shows "back_ok buf c"
  unfolding back_ok_def
proof (intro allI impI)
  fix s ts n k assume a: "s \<le> length buf" "tokens (drop s buf) = cmd_toks 2 c @ replicate n (Sym 38) @ ts" "stops [41, 59] ts"
    "4 * length (tokens (drop s buf)) + 3 \<le> k"
  have "stops [41, 38, 59] (replicate n (Sym 38) @ ts)" using a(3) by (cases n) (auto simp: stops_def starts_def first_char_def)
  then have "gives buf (replicate n (Sym 38) @ ts) c (parsepipe k buf s)"
    using assms(2) [unfolded pipe_ok_def, rule_format, OF a(1)] a assms(3) by simp
  moreover have "n < k" using a(2,4) by simp
  ultimately show "gives buf ts ((BACK ^^ n) c) (andthen (parsepipe k buf s) (\<lambda>(cmd, s). parsebacks k cmd buf s))"
    using parsebacks_gives [OF assms(1) stops_not_starts [OF a(3)]] by (auto intro!: gives_andthen)
qed

lemma line_step:
  assumes "back_ok buf c" "s \<le> length buf" "tokens (drop s buf) = cmd_toks 2 c @ ts" "stops [41, 59] ts" "4 * length (tokens (drop s buf)) + 4 \<le> Suc k"
    and "\<And>t s. s \<le> length buf \<Longrightarrow> tokens (drop s buf) = ts \<Longrightarrow> map_cmd (word_at buf) t = c \<Longrightarrow>
      gives buf ts' c' (case peek buf s [59] of (b, s) \<Rightarrow> if b then case gettoken buf s of (_, _, _, s) \<Rightarrow>
        andthen (parseline k buf s) (\<lambda>(r, s). Inr (LIST t r, s)) else Inr (t, s))"
  shows "gives buf ts' c' (parseline (Suc k) buf s)"
proof -
  have "gives buf ts ((BACK ^^ 0) c) (andthen (parsepipe k buf s) (\<lambda>(cmd, s). parsebacks k cmd buf s))"
    using assms(1) [unfolded back_ok_def, rule_format, OF assms(2), of 0 ts k] assms by simp
  then have "gives buf ts' c' (andthen (andthen (parsepipe k buf s) (\<lambda>(cmd, s). parsebacks k cmd buf s)) (\<lambda>(t, s).
      case peek buf s [59] of (b, s) \<Rightarrow> if b then case gettoken buf s of (_, _, _, s) \<Rightarrow>
        andthen (parseline k buf s) (\<lambda>(r, s). Inr (LIST t r, s)) else Inr (t, s)))"
    by (rule gives_andthen) (use assms(6) in simp)
  then show ?thesis by (simp add: andthen_assoc case_prod_unfold)
qed

lemma line_from_back:
  assumes "0 \<notin> set buf" "back_ok buf c" "cmd_toks 3 c = cmd_toks 2 c"
  shows "line_ok buf c"
  unfolding line_ok_def
proof (intro allI impI)
  fix s ts k assume a: "s \<le> length buf" "tokens (drop s buf) = cmd_toks 3 c @ ts" "stops [41] ts" "4 * length (tokens (drop s buf)) + 4 \<le> k"
  then obtain j where k: "k = Suc j" by (cases k) auto
  show "gives buf ts c (parseline k buf s)" unfolding k
  proof (rule line_step [OF assms(2) a(1)])
    fix t s1 assume s1: "s1 \<le> length buf" "tokens (drop s1 buf) = ts" "map_cmd (word_at buf) t = c"
    have ns: "\<not> starts [59] (tokens (drop s1 buf))" using stops_not_starts [OF a(3), of "[59]"] s1(2) by simp
    obtain s2 where "peek buf s1 [59] = (False, s2)" "s2 \<le> length buf" "tokens (drop s2 buf) = tokens (drop s1 buf)"
      by (rule peek_not [OF assms(1) s1(1) _ ns]) simp_all
    then show "gives buf ts c (case peek buf s1 [59] of (b, s) \<Rightarrow> if b then case gettoken buf s of (_, _, _, s) \<Rightarrow>
        andthen (parseline j buf s) (\<lambda>(r, s). Inr (LIST t r, s)) else Inr (t, s))" using s1 by (simp add: givesI)
  qed (use a assms(3) k stops_mono [OF a(3), of "[41, 59]"] in simp_all)
qed

lemma line_LIST:
  assumes "0 \<notin> set buf" "back_ok buf l" "line_ok buf r"
  shows "line_ok buf (LIST l r)"
  unfolding line_ok_def
proof (intro allI impI)
  fix s ts k assume a: "s \<le> length buf" "tokens (drop s buf) = cmd_toks 3 (LIST l r) @ ts" "stops [41] ts" "4 * length (tokens (drop s buf)) + 4 \<le> k"
  then obtain j where k: "k = Suc j" by (cases k) auto
  let ?ts = "Sym 59 # cmd_toks 3 r @ ts"
  have t: "tokens (drop s buf) = cmd_toks 2 l @ ?ts" using a(2) by (simp add: block_toks_def)
  show "gives buf ts (LIST l r) (parseline k buf s)" unfolding k
  proof (rule line_step [OF assms(2) a(1) t])
    fix c s1 assume s1: "s1 \<le> length buf" "tokens (drop s1 buf) = ?ts" "map_cmd (word_at buf) c = l"
    have st: "starts [59] (tokens (drop s1 buf))" unfolding s1(2) by simp
    obtain s2 x q e s3 where g: "peek buf s1 [59] = (True, s2)" "gettoken buf s2 = (x, q, e, s3)" "s3 \<le> length buf"
      "tokens (drop s3 buf) = tl (tokens (drop s1 buf))" by (rule peek_gettoken [OF assms(1) s1(1) _ st]) simp_all
    have "gives buf ts r (parseline j buf s3)"
      using assms(3) [unfolded line_ok_def, rule_format, OF g(3), of ts j] g(4) s1(2) a t k by simp
    then show "gives buf ts (LIST l r) (case peek buf s1 [59] of (b, s) \<Rightarrow> if b then case gettoken buf s of (_, _, _, s) \<Rightarrow>
        andthen (parseline j buf s) (\<lambda>(r, s). Inr (LIST c r, s)) else Inr (c, s))"
      using g s1(3) by (auto intro!: gives_andthen givesI)
  qed (use a t k in \<open>auto simp: stops_def\<close>)
qed

lemma exec_from_line:
  assumes "0 \<notin> set buf" "line_ok buf c" "cmd_toks 0 c = [Sym 40] @ cmd_toks 3 c @ [Sym 41]"
  shows "exec_ok buf c"
  unfolding exec_ok_def
proof (intro allI impI)
  fix s ts rs k assume a: "s \<le> length buf" "tokens (drop s buf) = cmd_toks 0 c @ rtoks rs @ ts" "stops [124, 41, 38, 59] ts" "wf_redirs rs"
    "4 * length (tokens (drop s buf)) + 2 \<le> k"
  then obtain j where k: "k = Suc (Suc j)" by (cases k; cases "k - 1") auto
  let ?ts = "Sym 41 # rtoks rs @ ts"
  have t: "tokens (drop s buf) = Sym 40 # cmd_toks 3 c @ ?ts" using a(2) assms(3) by simp
  have st: "starts [40] (tokens (drop s buf))" unfolding t by simp
  obtain s1 where s1: "peek buf s [40] = (True, s1)" "s1 \<le> length buf" "tokens (drop s1 buf) = tokens (drop s buf)"
    by (rule peek_yes [OF assms(1) a(1) _ st]) simp_all
  have st1: "starts [40] (tokens (drop s1 buf))" using st s1(3) by simp
  obtain s2 x q e s3 where g: "peek buf s1 [40] = (True, s2)" "gettoken buf s2 = (x, q, e, s3)" "s3 \<le> length buf"
    "tokens (drop s3 buf) = tl (tokens (drop s1 buf))" by (rule peek_gettoken [OF assms(1) s1(2) _ st1]) simp_all
  have t3: "tokens (drop s3 buf) = cmd_toks 3 c @ ?ts" using g(4) s1(3) t by simp
  have "gives buf ?ts c (parseline j buf s3)"
    using assms(2) [unfolded line_ok_def, rule_format, OF g(3) t3, of j] a(5) t t3 k by (simp add: stops_def)
  then have "gives buf ts (foldl redir c rs) (andthen (parseline j buf s3) (\<lambda>(cmd, s).
      case peek buf s [41] of (b, s) \<Rightarrow> if \<not> b then panic ''syntax - missing )''
      else case gettoken buf s of (_, _, _, s) \<Rightarrow> parseredirs j cmd buf s))"
  proof (rule gives_andthen)
    fix c' s4 assume s4: "s4 \<le> length buf" "tokens (drop s4 buf) = ?ts" "map_cmd (word_at buf) c' = c"
    have st4: "starts [41] (tokens (drop s4 buf))" unfolding s4(2) by simp
    obtain s5 x q e s6 where h: "peek buf s4 [41] = (True, s5)" "gettoken buf s5 = (x, q, e, s6)" "s6 \<le> length buf"
      "tokens (drop s6 buf) = tl (tokens (drop s4 buf))" by (rule peek_gettoken [OF assms(1) s4(1) _ st4]) simp_all
    have "length rs \<le> length (rtoks rs)" by (induction rs) (auto simp: redir_toks_def)
    then have "length rs < j" using a(5) t k by simp
    then have "gives buf ts (foldl redir c rs) (parseredirs j c' buf s6)"
      using h s4 a(4) by (intro parseredirs_gives [OF assms(1) stops_not_starts [OF a(3)]]) simp_all
    then show "gives buf ts (foldl redir c rs) (case (c', s4) of (cmd, s) \<Rightarrow> case peek buf s [41] of (b, s) \<Rightarrow>
        if \<not> b then panic ''syntax - missing )'' else case gettoken buf s of (_, _, _, s) \<Rightarrow> parseredirs j cmd buf s)"
      using h by simp
  qed
  then show "gives buf ts (foldl redir c rs) (parseexec k buf s)" using s1 g k by simp
qed

lemma rtoks_starts: "starts toks (rtoks rs @ ts) \<Longrightarrow> 60 \<notin> set toks \<Longrightarrow> 62 \<notin> set toks \<Longrightarrow> starts toks ts"
  by (cases rs) (auto simp: redir_toks_def starts_def first_char_def split: if_splits)

lemma exec_EXEC:
  assumes "0 \<notin> set buf" "length ws < MAXARGS"
  shows "exec_ok buf (EXEC ws)"
  unfolding exec_ok_def
proof (intro allI impI)
  fix s ts rs k assume a: "s \<le> length buf" "tokens (drop s buf) = cmd_toks 0 (EXEC ws) @ rtoks rs @ ts" "stops [124, 41, 38, 59] ts" "wf_redirs rs"
    "4 * length (tokens (drop s buf)) + 2 \<le> k"
  then obtain j where k: "k = Suc j" by (cases k) auto
  have t: "tokens (drop s buf) = map Word ws @ rtoks rs @ ts" using a(2) by simp
  have "\<not> starts [40] (tokens (drop s buf))"
  proof (cases ws)
    case Nil
    then show ?thesis using t rtoks_starts [of "[40]" rs ts] stops_not_starts [OF a(3), of "[40]"] by auto
  next
    case (Cons w ws')
    then show ?thesis using t starts_Word [of w _ "drop s buf" "[40]"] by (simp add: word_char_iff)
  qed
  then obtain s1 where s1: "peek buf s [40] = (False, s1)" "s1 \<le> length buf" "tokens (drop s1 buf) = tokens (drop s buf)"
    by (rule peek_not [OF assms(1) a(1), rotated]) simp_all
  have lr: "length rs \<le> length (rtoks rs)" by (induction rs) (auto simp: redir_toks_def)
  have "gives buf ts (foldl redir (EXEC ws) rs) (andthen (parseredirs j (EXEC []) buf s1) (\<lambda>(ret, s). parseargs j 0 ret buf s))"
  proof (cases ws)
    case Nil
    have "gives buf ts (foldl redir (EXEC []) rs) (parseredirs j (EXEC []) buf s1)"
      using s1 t Nil a k lr by (intro parseredirs_gives [OF assms(1) stops_not_starts [OF a(3)]]) simp_all
    moreover obtain i where "j = Suc i" using a(5) k by (cases j) auto
    then have "gives buf ts c (parseargs j 0 t' buf s')"
      if "s' \<le> length buf" "tokens (drop s' buf) = ts" "map_cmd (word_at buf) t' = c" for t' s' c
      using parseargs_stop [OF assms(1) that(1) _ that(3)] that(2) a(3) by simp
    ultimately show ?thesis using Nil by (auto intro!: gives_andthen)
  next
    case (Cons w ws')
    have "\<not> starts [60, 62] (map Word ws @ rtoks rs @ ts)"
      using t Cons starts_Word [of w _ "drop s buf" "[60, 62]"] by (simp add: word_char_iff)
    then have "gives buf (map Word ws @ rtoks rs @ ts) (foldl redir (EXEC []) []) (parseredirs j (EXEC []) buf s1)"
      using s1 t a k by (intro parseredirs_gives [OF assms(1)]) simp_all
    then show ?thesis
    proof (rule gives_andthen)
      fix t' s' assume s': "s' \<le> length buf" "tokens (drop s' buf) = map Word ws @ rtoks rs @ ts" "map_cmd (word_at buf) t' = foldl redir (EXEC []) []"
      have "gives buf ts (foldl redir (EXEC ([] @ ws)) rs) (parseargs j 0 t' buf s')"
        using s' Cons assms(2) a(5) k t lr by (intro parseargs_gives [OF assms(1) a(3,4)]) simp_all
      then show "gives buf ts (foldl redir (EXEC ws) rs) (case (t', s') of (ret, s) \<Rightarrow> parseargs j 0 ret buf s)" by simp
    qed
  qed
  then show "gives buf ts (foldl redir (EXEC ws) rs) (parseexec k buf s)" using s1 k by simp
qed

lemma exec_REDIR:
  assumes "exec_ok buf c" "(m, d) \<in> {(O_RDONLY_sh, 0), (out_trunc, 1), (out_append, 1)}"
  shows "exec_ok buf (REDIR c f m d)"
  unfolding exec_ok_def
proof (intro allI impI)
  fix s ts rs k assume a: "s \<le> length buf" "tokens (drop s buf) = cmd_toks 0 (REDIR c f m d) @ rtoks rs @ ts" "stops [124, 41, 38, 59] ts"
    "wf_redirs rs" "4 * length (tokens (drop s buf)) + 2 \<le> k"
  have "gives buf ts (foldl redir c ((f, m, d) # rs)) (parseexec k buf s)"
    using assms a by (intro assms(1) [unfolded exec_ok_def, rule_format]) auto
  then show "gives buf ts (foldl redir (REDIR c f m d) rs) (parseexec k buf s)" by simp
qed

lemma back_BACK:
  assumes "back_ok buf c"
  shows "back_ok buf (BACK c)"
  unfolding back_ok_def
proof (intro allI impI)
  fix s ts n k assume a: "s \<le> length buf" "tokens (drop s buf) = cmd_toks 2 (BACK c) @ replicate n (Sym 38) @ ts" "stops [41, 59] ts"
    "4 * length (tokens (drop s buf)) + 3 \<le> k"
  have "gives buf ts ((BACK ^^ Suc n) c) (andthen (parsepipe k buf s) (\<lambda>(cmd, s). parsebacks k cmd buf s))"
    using a by (intro assms [unfolded back_ok_def, rule_format]) (simp_all add: block_toks_def)
  then show "gives buf ts ((BACK ^^ n) (BACK c)) (andthen (parsepipe k buf s) (\<lambda>(cmd, s). parsebacks k cmd buf s))"
    by (simp only: funpow_Suc_right o_apply)
qed

lemma cmd_ok:
  assumes "0 \<notin> set buf"
  shows "wf_cmd c \<Longrightarrow> exec_ok buf c \<and> pipe_ok buf c \<and> back_ok buf c \<and> line_ok buf c"
proof (induction c)
  case (EXEC ws)
  then have "exec_ok buf (EXEC ws)" by (simp add: exec_EXEC [OF assms])
  then show ?case using pipe_from_exec [OF assms] back_from_pipe [OF assms] line_from_back [OF assms] by simp
next
  case (REDIR c f m d)
  then have "exec_ok buf (REDIR c f m d)" by (intro exec_REDIR) simp_all
  then show ?case using pipe_from_exec [OF assms] back_from_pipe [OF assms] line_from_back [OF assms] by simp
next
  case (PIPE l r)
  then have "pipe_ok buf (PIPE l r)" by (intro pipe_PIPE [OF assms]) simp_all
  then have "pipe_ok buf (PIPE l r)" "back_ok buf (PIPE l r)" "line_ok buf (PIPE l r)"
    using back_from_pipe [OF assms] line_from_back [OF assms] by (simp_all add: block_toks_def)
  then show ?case using exec_from_line [OF assms] by (simp add: block_toks_def)
next
  case (LIST l r)
  then have l: "line_ok buf (LIST l r)" by (intro line_LIST [OF assms]) simp_all
  then have "exec_ok buf (LIST l r)" using exec_from_line [OF assms] by (simp add: block_toks_def)
  then show ?case using l pipe_from_exec [OF assms] back_from_pipe [OF assms] by (simp add: block_toks_def)
next
  case (BACK c)
  then have b: "back_ok buf (BACK c)" by (intro back_BACK) simp
  then have l: "line_ok buf (BACK c)" using line_from_back [OF assms] by (simp add: block_toks_def)
  then have "exec_ok buf (BACK c)" using exec_from_line [OF assms] by (simp add: block_toks_def)
  then show ?case using b l pipe_from_exec [OF assms] by (simp add: block_toks_def)
qed

section \<open>Nuls\<close>

lemma fold_nul: "i < length buf \<Longrightarrow> length (fold (\<lambda>(q, eq) buf. buf[eq := 0]) as buf) = length buf \<and>
  fold (\<lambda>(q, eq) buf. buf[eq := 0]) as buf ! i = (if i \<in> snd ` set as then 0 else buf ! i)"
proof (induction as arbitrary: buf)
  case (Cons a as)
  then show ?case by (cases a) (simp add: nth_list_update)
qed simp

lemma nulterminate_nth: "i < length buf \<Longrightarrow> length (nulterminate t buf) = length buf \<and>
  nulterminate t buf ! i = (if i \<in> snd ` set_cmd t then 0 else buf ! i)"
proof (induction t arbitrary: buf)
  case (EXEC as)
  then show ?case using fold_nul [OF EXEC, of as] by simp
next
  case (REDIR t f m d)
  then show ?case by (cases "snd f = i") simp_all
qed (simp_all add: image_Un)

definition c_string :: "u8 list \<Rightarrow> nat \<Rightarrow> u8 list" where
  "c_string b q = takeWhile (\<lambda>x. x \<noteq> 0) (drop q b)"

lemma nulterminate_words:
  assumes "0 \<notin> set buf" "\<forall>p \<in> set_cmd t. delimits buf p" "p \<in> set_cmd t"
  shows "c_string (nulterminate t (buf @ [0])) (fst p) = word_at buf p"
proof -
  obtain q e where p: "p = (q, e)" by (cases p)
  let ?b = "nulterminate t (buf @ [0])"
  have d: "q < e" "e \<le> length buf" "\<forall>c \<in> set (word_at buf p). word_char c" using assms(2,3) p by (auto simp: delimits_def)
  have len: "length ?b = Suc (length buf)" using nulterminate_nth [of 0 "buf @ [0]" t] by simp
  have nth: "?b ! i = buf ! i \<and> buf ! i \<noteq> 0" if "q \<le> i" "i < e" for i
  proof -
    have "buf ! i \<in> set (word_at buf p)" using that d p by (auto simp: word_at_def in_set_conv_nth intro!: exI [of _ "i - q"])
    then have "word_char (buf ! i)" using d by blast
    moreover have "i < length buf" using that d by simp
    ultimately have "i \<notin> snd ` set_cmd t" using assms(2) by (force simp: delimits_def)
    moreover have "buf ! i \<noteq> 0" using assms(1) \<open>i < length buf\<close> by (metis nth_mem)
    ultimately show ?thesis using nulterminate_nth [of i "buf @ [0]" t] \<open>i < length buf\<close> by (simp add: nth_append)
  qed
  have z: "?b ! e = 0" using nulterminate_nth [of e "buf @ [0]" t] d assms(3) p by (force simp: image_iff)
  have "takeWhile (\<lambda>x. x \<noteq> 0) (drop q ?b) = take (e - q) (drop q ?b)"
  proof (rule takeWhile_eq_take_P_nth)
    fix i assume "i < e - q" "i < length (drop q ?b)"
    then show "drop q ?b ! i \<noteq> 0" using nth [of "q + i"] len by simp
  next
    assume "e - q < length (drop q ?b)"
    then show "\<not> drop q ?b ! (e - q) \<noteq> 0" using z d len by simp
  qed
  also have "\<dots> = take (e - q) (drop q buf)" using nth d len by (auto intro!: nth_equalityI)
  finally show ?thesis using p by (simp add: c_string_def word_at_def)
qed

section \<open>Properties\<close>

lemma parsecmd_line:
  assumes "0 \<notin> set buf"
  shows "ends buf (length buf) (parseline (4 * length buf + 4) buf 0)"
proof (rule ends_mono [OF _ tokens_length])
  have "ends_in buf (4 * length buf + 4) (parseline (4 * length buf + 4) buf) 4" using parse_ends [OF assms] by blast
  then show "ends buf (length (tokens buf)) (parseline (4 * length buf + 4) buf 0)"
    using tokens_length [of buf] unfolding ends_in_def by (metis add_le_mono1 drop0 mult_le_mono2 zero_le)
qed

text \<open>C16: The parser ends: for every line \<open>parsecmd\<close> gives a command or calls \<open>panic\<close>, and the rounds it
  has do not run out. In a command that it gives every word is a string, ended by the nul that \<open>nulterminate\<close>
  stores, that is not empty and has no space and no symbol.\<close>

theorem parsecmd_ends:
  assumes "0 \<notin> set buf"
  shows "case parsecmd buf of
      Inl x \<Rightarrow> \<exists>msg. x = Panic msg
    | Inr (t, b) \<Rightarrow> \<forall>p \<in> set_cmd t. c_string b (fst p) \<noteq> [] \<and> (\<forall>c \<in> set (c_string b (fst p)). word_char c)"
proof (cases "parseline (4 * length buf + 4) buf 0")
  case (Inl x)
  then show ?thesis using parsecmd_line [OF assms] by (cases x) (simp_all add: parsecmd_def ends_def)
next
  case (Inr r)
  obtain t s where r: "r = (t, s)" by (cases r)
  have d: "\<forall>p \<in> set_cmd t. delimits buf p" using parsecmd_line [OF assms] Inr r by simp
  have w: "word_at buf p \<noteq> [] \<and> (\<forall>c \<in> set (word_at buf p). word_char c)" if "p \<in> set_cmd t" for p
    using d that by (auto simp: delimits_def word_at_def)
  then have "\<forall>p \<in> set_cmd t. c_string (nulterminate t (buf @ [0])) (fst p) \<noteq> [] \<and>
      (\<forall>c \<in> set (c_string (nulterminate t (buf @ [0])) (fst p)). word_char c)"
    using nulterminate_words [OF assms d] by simp
  then show ?thesis using Inr r by (cases "peek buf s []") (simp add: parsecmd_def)
qed

theorem parsecmd_ends_witness:
  "parsecmd [97, 59] = Inr (LIST (EXEC [(0, 1)]) (EXEC []), [97, 0, 0]) \<and> c_string [97, 0, 0] 0 \<noteq> []"
proof -
  have e: "parsecmd [97, 59] = Inr (LIST (EXEC [(0, 1)]) (EXEC []), [97, 0, 0])" by code_simp
  then show ?thesis using parsecmd_ends [of "[97, 59]"] by simp
qed

text \<open>C15: Every command with at most 9 arguments can be written: a line with the tokens of the command, however
  they are spaced, parses to that command, with the strings that the nuls end.\<close>

theorem parsecmd_roundtrip:
  assumes "wf_cmd c" "0 \<notin> set buf" "tokens buf = cmd_toks 3 c"
  shows "\<exists>t b. parsecmd buf = Inr (t, b) \<and> map_cmd (\<lambda>p. c_string b (fst p)) t = c"
proof -
  have "line_ok buf c" using cmd_ok [OF assms(2,1)] by blast
  then have "gives buf [] c (parseline (4 * length buf + 4) buf 0)"
    using assms(3) tokens_length [of buf] by (simp add: line_ok_def stops_def)
  then obtain t s where t: "parseline (4 * length buf + 4) buf 0 = Inr (t, s)" "s \<le> length buf" "tokens (drop s buf) = []"
    "map_cmd (word_at buf) t = c" by (auto simp: gives_def)
  have d: "\<forall>p \<in> set_cmd t. delimits buf p" using parsecmd_line [OF assms(2)] t by simp
  have "skip_ws buf s = length buf"
  proof -
    obtain q e s' where "gettoken buf s = (0, q, e, s')" using gettoken_none [OF t(2,3)] by metis
    then have "ch buf (skip_ws buf s) = 0" by (auto simp: gettoken_def Let_def split: if_splits)
    then have "\<not> skip_ws buf s < length buf" using assms(2) by (metis ch_def nth_mem)
    then show ?thesis using drop_skip_ws [OF t(2)] by simp
  qed
  then have "parsecmd buf = Inr (t, nulterminate t (buf @ [0]))" using t(1) by (simp add: parsecmd_def peek_def Let_def)
  moreover have "map_cmd (\<lambda>p. c_string (nulterminate t (buf @ [0])) (fst p)) t = map_cmd (word_at buf) t"
    by (rule cmd.map_cong0) (rule nulterminate_words [OF assms(2) d])
  ultimately show ?thesis using t(4) by simp
qed

theorem parsecmd_roundtrip_witness:
  "\<exists>t b. parsecmd (bytes_of ''(a b>f;c)|d &'') = Inr (t, b) \<and>
     map_cmd (\<lambda>p. c_string b (fst p)) t =
       BACK (PIPE (LIST (REDIR (EXEC [[97], [98]]) [102] out_trunc 1) (EXEC [[99]])) (EXEC [[100]]))"
proof (rule parsecmd_roundtrip)
  show "wf_cmd (BACK (PIPE (LIST (REDIR (EXEC [[97 :: u8], [98]]) [102] out_trunc 1) (EXEC [[99]])) (EXEC [[100]])))"
    by (simp add: MAXARGS_def)
  show "0 \<notin> set (bytes_of ''(a b>f;c)|d &'')" by code_simp
  show "tokens (bytes_of ''(a b>f;c)|d &'') =
      cmd_toks 3 (BACK (PIPE (LIST (REDIR (EXEC [[97], [98]]) [102] out_trunc 1) (EXEC [[99]])) (EXEC [[100]])))"
    by code_simp
qed

end
