(* ===== verification/Shrun.thy ===== *)
theory Shrun
  imports Shgram
begin

text \<open>
  \<^verbatim>\<open>user/sh.c\<close>: running a command. A process is its table of open files; the system calls that the
  shell makes are modelled by what they do to that table: \<open>open\<close>, \<open>dup\<close> and \<open>pipe\<close> take the lowest
  free descriptors. The parameter \<open>ok\<close> says which files can be opened; \<open>n\<close> numbers the pipes.
  The result is the list of the programs that are executed, each with its arguments and its
  open files. A child runs until it executes a program or exits; that the programs then run
  concurrently does not matter for what they have open. \<open>fork\<close> does not fail.
\<close>

datatype ofile = Console | PipeR nat | PipeW nat | Named "u8 list" int

type_synonym fdt = "nat \<Rightarrow> ofile option"

definition lowest_fd :: "fdt \<Rightarrow> nat option" where
  "lowest_fd fd = find (\<lambda>i. fd i = None) [0..<NOFILE]"

definition sh_open :: "(u8 list \<Rightarrow> int \<Rightarrow> bool) \<Rightarrow> u8 list \<Rightarrow> int \<Rightarrow> fdt \<Rightarrow> fdt option" where
  "sh_open ok f m fd =
     (if ok f m then map_option (\<lambda>i. fd(i := Some (Named f m))) (lowest_fd fd) else None)"

definition sh_dup :: "nat \<Rightarrow> fdt \<Rightarrow> fdt" where
  "sh_dup j fd = (case lowest_fd fd of None \<Rightarrow> fd | Some i \<Rightarrow> fd(i := fd j))"

definition sh_pipe :: "nat \<Rightarrow> fdt \<Rightarrow> (nat \<times> nat \<times> fdt) option" where
  "sh_pipe n fd =
     (case lowest_fd fd of
        None \<Rightarrow> None
      | Some i \<Rightarrow>
          let fd = fd(i := Some (PipeR n))
          in case lowest_fd fd of None \<Rightarrow> None | Some j \<Rightarrow> Some (i, j, fd(j := Some (PipeW n))))"

type_synonym started = "(u8 list list \<times> fdt) list"

primrec runcmd :: "(u8 list \<Rightarrow> int \<Rightarrow> bool) \<Rightarrow> u8 list cmd \<Rightarrow> fdt \<Rightarrow> nat \<Rightarrow> started \<times> nat" where
  "runcmd ok (EXEC argv) fd n = (if argv = [] then [] else [(argv, fd)], n)"
| "runcmd ok (REDIR c f m d) fd n =
     (case sh_open ok f m (fd(nat d := None)) of
        None \<Rightarrow> ([], n)
      | Some fd \<Rightarrow> runcmd ok c fd n)"
| "runcmd ok (LIST l r) fd n =
     (case runcmd ok l fd n of (a, n) \<Rightarrow>
      case runcmd ok r fd n of (b, n) \<Rightarrow> (a @ b, n))"
| "runcmd ok (PIPE l r) fd n =
     (case sh_pipe n fd of
        None \<Rightarrow> ([], n)
      | Some (p0, p1, fd) \<Rightarrow>
          let fl = fd(1 := None); fl = sh_dup p1 fl; fl = fl(p0 := None); fl = fl(p1 := None)
          in case runcmd ok l fl (n + 1) of (a, n) \<Rightarrow>
          let fr = fd(0 := None); fr = sh_dup p0 fr; fr = fr(p0 := None); fr = fr(p1 := None)
          in case runcmd ok r fr n of (b, n) \<Rightarrow> (a @ b, n))"
| "runcmd ok (BACK c) fd n = runcmd ok c fd n"

text \<open>What it means: a redirection replaces one file, a pipe the output of the left and the input of the
  right command; nothing else is open.\<close>

primrec meaning :: "(u8 list \<Rightarrow> int \<Rightarrow> bool) \<Rightarrow> u8 list cmd \<Rightarrow> fdt \<Rightarrow> nat \<Rightarrow> started \<times> nat" where
  "meaning ok (EXEC argv) fd n = (if argv = [] then [] else [(argv, fd)], n)"
| "meaning ok (REDIR c f m d) fd n = (if ok f m then meaning ok c (fd(nat d \<mapsto> Named f m)) n else ([], n))"
| "meaning ok (LIST l r) fd n =
     (case meaning ok l fd n of (a, n) \<Rightarrow> case meaning ok r fd n of (b, n) \<Rightarrow> (a @ b, n))"
| "meaning ok (PIPE l r) fd n =
     (case meaning ok l (fd(1 \<mapsto> PipeW n)) (n + 1) of (a, n') \<Rightarrow>
      case meaning ok r (fd(0 \<mapsto> PipeR n)) n' of (b, n) \<Rightarrow> (a @ b, n))"
| "meaning ok (BACK c) fd n = meaning ok c fd n"

definition std_open :: "fdt \<Rightarrow> bool" where
  "std_open fd \<longleftrightarrow> dom fd = {0, 1, 2}"

lemma fds_cases: "[0..<NOFILE] = 0 # 1 # 2 # 3 # 4 # [5..<NOFILE]"
  by code_simp

lemma std_openD: "std_open fd \<Longrightarrow> fd 0 \<noteq> None \<and> fd 1 \<noteq> None \<and> fd 2 \<noteq> None \<and> fd 3 = None \<and> fd 4 = None"
proof -
  assume "std_open fd"
  then have "fd i \<noteq> None \<longleftrightarrow> i \<in> {0, 1, 2}" for i unfolding std_open_def by (metis domIff)
  from this [of 0] this [of 1] this [of 2] this [of 3] this [of 4] show ?thesis by simp
qed

lemma redir_open:
  assumes "std_open fd" "ok f m" "d = 0 \<or> d = 1"
  shows "sh_open ok f m (fd(d := None)) = Some (fd(d \<mapsto> Named f m))"
  using std_openD [OF assms(1)] assms(2,3) by (auto simp: sh_open_def lowest_fd_def fds_cases)

lemma pipe_open:
  assumes "std_open fd"
  shows "sh_pipe n fd = Some (3, 4, fd(3 \<mapsto> PipeR n, 4 \<mapsto> PipeW n))"
  using std_openD [OF assms] by (auto simp: sh_pipe_def lowest_fd_def fds_cases Let_def)

lemma pipe_left:
  assumes "std_open fd"
  shows "((sh_dup 4 ((fd(3 \<mapsto> PipeR n, 4 \<mapsto> PipeW n))(1 := None)))(3 := None))(4 := None) = fd(1 \<mapsto> PipeW n)"
  using std_openD [OF assms] by (auto simp: sh_dup_def lowest_fd_def fds_cases fun_eq_iff)

lemma pipe_right:
  assumes "std_open fd"
  shows "((sh_dup 3 ((fd(3 \<mapsto> PipeR n, 4 \<mapsto> PipeW n))(0 := None)))(3 := None))(4 := None) = fd(0 \<mapsto> PipeR n)"
  using std_openD [OF assms] by (auto simp: sh_dup_def lowest_fd_def fds_cases fun_eq_iff)

lemma std_open_upd: "std_open fd \<Longrightarrow> i = 0 \<or> i = 1 \<Longrightarrow> std_open (fd(i \<mapsto> x))"
  by (auto simp: std_open_def)

text \<open>C17: The shell runs what the command means: started with the three standard files open, \<open>runcmd\<close>
  executes the programs of the command, in order, each with its redirections, the left side of a pipe with
  the pipe's write end as output and the right side with its read end as input, and with no other end of
  the pipe open, so that a reader sees the end of the file when the writer exits.\<close>

theorem runcmd_refines:
  assumes "wf_cmd c" "std_open fd"
  shows "runcmd ok c fd n = meaning ok c fd n"
  using assms
proof (induction c arbitrary: fd n)
  case (REDIR c f m d)
  then have d: "nat d = 0 \<or> nat d = 1" by auto
  show ?case
  proof (cases "ok f m")
    case True
    then show ?thesis using REDIR redir_open [OF REDIR.prems(2), of ok f m "nat d"] True d std_open_upd [OF REDIR.prems(2) d] by simp
  qed (simp add: sh_open_def)
next
  case (PIPE l r)
  have "runcmd ok l (fd(1 \<mapsto> PipeW n)) (n + 1) = meaning ok l (fd(1 \<mapsto> PipeW n)) (n + 1)"
    using PIPE std_open_upd by simp
  moreover have "runcmd ok r (fd(0 \<mapsto> PipeR n)) n' = meaning ok r (fd(0 \<mapsto> PipeR n)) n'" for n'
    using PIPE std_open_upd by simp
  ultimately show ?case
    unfolding runcmd.simps meaning.simps pipe_open [OF PIPE.prems(2)] option.case prod.case Let_def
      pipe_left [OF PIPE.prems(2)] pipe_right [OF PIPE.prems(2)] by (simp only:)
qed simp_all

theorem runcmd_refines_witness:
  "runcmd (\<lambda>_ _. True) (PIPE (EXEC [[97]]) (EXEC [[98]])) (\<lambda>i. if i < 3 then Some Console else None) 7 =
     ([([[97]], \<lambda>i. if i = 1 then Some (PipeW 7) else if i < 3 then Some Console else None),
       ([[98]], \<lambda>i. if i = 0 then Some (PipeR 7) else if i < 3 then Some Console else None)], 8)"
proof -
  have "wf_cmd (PIPE (EXEC [[97 :: u8]]) (EXEC [[98]]))" by (simp add: MAXARGS_def)
  moreover have "std_open (\<lambda>i. if i < 3 then Some Console else None)" by (auto simp: std_open_def dom_def)
  ultimately show ?thesis by (subst runcmd_refines) (auto simp: fun_eq_iff)
qed

end
