(* ===== verification/Umalloc.thy ===== *)
theory Umalloc
  imports Prelude
begin

text \<open>
  \<^verbatim>\<open>user/umalloc.c\<close>: the memory allocator of user programs. A \<open>Header *\<close> is its address in bytes,
  0 for the null pointer; a header has 16 bytes and the size of a block, with its header, is counted in
  headers. \<open>hptr\<close> and \<open>hsize\<close> are the fields \<open>s.ptr\<close> and \<open>s.size\<close> of the header at an address, and
  \<open>brk\<close> is the end of the heap, which \<open>sbrk\<close> moves. The loops have a bound \<open>k\<close> on their
  rounds; \<open>None\<close> says that it was not enough.
\<close>

record heap =
  hptr :: "nat \<Rightarrow> nat"
  hsize :: "nat \<Rightarrow> u32"
  freep :: nat
  brk :: nat

definition set_ptr :: "nat \<Rightarrow> nat \<Rightarrow> heap \<Rightarrow> heap" where
  "set_ptr p v h = h\<lparr>hptr := (hptr h)(p := v)\<rparr>"

definition set_size :: "nat \<Rightarrow> u32 \<Rightarrow> heap \<Rightarrow> heap" where
  "set_size p v h = h\<lparr>hsize := (hsize h)(p := v)\<rparr>"

text \<open>\<open>p + p->s.size\<close>\<close>

definition bend :: "heap \<Rightarrow> nat \<Rightarrow> nat" where
  "bend h p = p + 16 * unat (hsize h p)"

primrec free_find :: "nat \<Rightarrow> nat \<Rightarrow> nat \<Rightarrow> heap \<Rightarrow> nat option" where
  "free_find 0 bp p h = None"
| "free_find (Suc k) bp p h =
     (if bp > p \<and> bp < hptr h p then Some p
      else if p \<ge> hptr h p \<and> (bp > p \<or> bp < hptr h p) then Some p
      else free_find k bp (hptr h p) h)"

definition free :: "nat \<Rightarrow> nat \<Rightarrow> heap \<Rightarrow> heap option" where
  "free k ap h =
     (let bp = ap - 16
      in case free_find k bp (freep h) h of
           None \<Rightarrow> None
         | Some p \<Rightarrow>
             let h = (if bend h bp = hptr h p
                      then let h = set_size bp (hsize h bp + hsize h (hptr h p)) h
                           in set_ptr bp (hptr h (hptr h p)) h
                      else set_ptr bp (hptr h p) h);
                 h = (if bend h p = bp
                      then let h = set_size p (hsize h p + hsize h bp) h
                           in set_ptr p (hptr h bp) h
                      else set_ptr p bp h)
             in Some (h\<lparr>freep := p\<rparr>))"

text \<open>\<open>sb n b\<close> is \<open>sbrk(n)\<close> when the heap ends at \<open>b\<close>: the address it returns and the new end, or
  \<open>None\<close> for \<open>SBRK_ERROR\<close>. Its argument is an \<open>int\<close>.\<close>

type_synonym sbrk = "int \<Rightarrow> nat \<Rightarrow> (nat \<times> nat) option"

definition morecore :: "nat \<Rightarrow> sbrk \<Rightarrow> u32 \<Rightarrow> heap \<Rightarrow> (nat \<times> heap) option" where
  "morecore k sb nu h =
     (let nu = (if nu < 4096 then 4096 else nu)
      in case sb (sint (of_nat (unat nu * 16) :: u32)) (brk h) of
           None \<Rightarrow> Some (0, h)
         | Some (hp, b) \<Rightarrow>
             (case free k (hp + 16) (set_size hp nu (h\<lparr>brk := b\<rparr>)) of
                None \<Rightarrow> None
              | Some h \<Rightarrow> Some (freep h, h)))"

primrec malloc_loop :: "nat \<Rightarrow> sbrk \<Rightarrow> u32 \<Rightarrow> nat \<Rightarrow> nat \<Rightarrow> heap \<Rightarrow> (nat \<times> heap) option" where
  "malloc_loop 0 sb nunits prevp p h = None"
| "malloc_loop (Suc k) sb nunits prevp p h =
     (if hsize h p \<ge> nunits
      then if hsize h p = nunits
           then let h = set_ptr prevp (hptr h p) h in Some (p + 16, h\<lparr>freep := prevp\<rparr>)
           else let h = set_size p (hsize h p - nunits) h;
                    p = bend h p;
                    h = set_size p nunits h
                in Some (p + 16, h\<lparr>freep := prevp\<rparr>)
      else if p = freep h
      then case morecore k sb nunits h of
             None \<Rightarrow> None
           | Some (p, h) \<Rightarrow> if p = 0 then Some (0, h) else malloc_loop k sb nunits p (hptr h p) h
      else malloc_loop k sb nunits p (hptr h p) h)"

text \<open>The sum in \<open>nunits\<close> is computed in the 64 bits of \<open>sizeof\<close>.\<close>

definition units_of :: "u32 \<Rightarrow> u32" where
  "units_of nbytes = of_nat ((unat nbytes + 16 - 1) div 16 + 1)"

definition malloc :: "nat \<Rightarrow> sbrk \<Rightarrow> nat \<Rightarrow> u32 \<Rightarrow> heap \<Rightarrow> (nat \<times> heap) option" where
  "malloc k sb base nbytes h =
     (let nunits = units_of nbytes;
          h = (if freep h = 0
               then set_size base 0 ((set_ptr base base h)\<lparr>freep := base\<rparr>)
               else h);
          prevp = freep h
      in malloc_loop k sb nunits prevp (hptr h prevp) h)"

section \<open>The free list\<close>

text \<open>\<open>chain h ns z\<close>: the pointers lead along \<open>ns\<close> and then to \<open>z\<close>. The free list is a ring that
  starts at the header \<open>base\<close>, whose size is 0, in the order of the addresses.\<close>

primrec chain :: "heap \<Rightarrow> nat list \<Rightarrow> nat \<Rightarrow> bool" where
  "chain h [] z \<longleftrightarrow> True"
| "chain h (a # ns) z \<longleftrightarrow> hptr h a = hd (ns @ [z]) \<and> chain h ns z"

text \<open>Blocks do not overlap.\<close>

definition apart :: "heap \<Rightarrow> nat set \<Rightarrow> bool" where
  "apart h B \<longleftrightarrow> (\<forall>x \<in> B. \<forall>y \<in> B. x < y \<longrightarrow> bend h x \<le> y)"

text \<open>The invariant: \<open>ns\<close> is the free list, \<open>A\<close> the set of the blocks in use.\<close>

definition heap_ok :: "nat list \<Rightarrow> nat set \<Rightarrow> heap \<Rightarrow> bool" where
  "heap_ok ns A h \<longleftrightarrow> ns \<noteq> [] \<and> 0 < hd ns \<and> hsize h (hd ns) = 0 \<and> chain h ns (hd ns) \<and> sorted_wrt (<) ns \<and>
     set ns \<inter> A = {} \<and> apart h (set ns \<union> A) \<and>
     (\<forall>x \<in> set ns \<union> A. x = hd ns \<or> hd ns + 16 \<le> x \<and> hsize h x \<noteq> 0) \<and>
     (\<forall>x \<in> set ns \<union> A. bend h x \<le> brk h) \<and> hd ns + 16 \<le> brk h \<and> brk h < 2 ^ 36"

lemma chain_append: "chain h (xs @ ys) z \<longleftrightarrow> chain h xs (hd (ys @ [z])) \<and> chain h ys z"
  by (induction xs) (auto simp: hd_append)

lemma chain_cong: "\<forall>a \<in> set ns. hptr h a = hptr h' a \<Longrightarrow> chain h ns z \<longleftrightarrow> chain h' ns z"
  by (induction ns) auto

lemma heap_sel [simp]:
  "hptr (set_ptr p v h) = (hptr h)(p := v)" "hsize (set_ptr p v h) = hsize h"
  "freep (set_ptr p v h) = freep h" "brk (set_ptr p v h) = brk h"
  "hptr (set_size p u h) = hptr h" "hsize (set_size p u h) = (hsize h)(p := u)"
  "freep (set_size p u h) = freep h" "brk (set_size p u h) = brk h"
  by (simp_all add: set_ptr_def set_size_def)

lemma bend_ptr [simp]: "bend (set_ptr p v h) = bend h"
  by (simp add: bend_def fun_eq_iff)

lemma bend_freep [simp]: "bend (h\<lparr>freep := p\<rparr>) = bend h"
  by (simp add: bend_def fun_eq_iff)

lemma chain_freep [simp]: "chain (h\<lparr>freep := p\<rparr>) ns z = chain h ns z"
  by (rule chain_cong) simp

lemma heap_ok_freep [simp]: "heap_ok ns A (h\<lparr>freep := p\<rparr>) = heap_ok ns A h"
  by (simp add: heap_ok_def apart_def)

lemma heap_okD:
  assumes "heap_ok ns A h"
  shows "ns \<noteq> []" "0 < hd ns" "hsize h (hd ns) = 0" "chain h ns (hd ns)" "sorted_wrt (<) ns" "set ns \<inter> A = {}"
    "apart h (set ns \<union> A)" "\<forall>x \<in> set ns \<union> A. x = hd ns \<or> hd ns + 16 \<le> x \<and> hsize h x \<noteq> 0"
    "\<forall>x \<in> set ns \<union> A. bend h x \<le> brk h" "brk h < 2 ^ 36" "hd ns + 16 \<le> brk h"
  using assms by (simp_all add: heap_ok_def)

lemma ring_pos: "heap_ok ns A h \<Longrightarrow> x \<in> set ns \<Longrightarrow> 0 < x"
  using heap_okD(2,8) [of ns A h] by (metis UnI1 add_gr_0 less_le_trans)

text \<open>A block that is no longer used is linked behind its predecessor.\<close>

lemma heap_ok_link:
  assumes ok: "heap_ok (xs @ p # ys) A h" and bp: "bp \<in> A" "p < bp" "\<forall>y \<in> set ys. bp < y"
  shows "heap_ok (xs @ p # bp # ys) (A - {bp}) (set_ptr p bp (set_ptr bp (hptr h p) h))"
proof -
  note d = heap_okD [OF ok]
  let ?h = "set_ptr p bp (set_ptr bp (hptr h p) h)" and ?ns = "xs @ p # bp # ys"
  have nin: "bp \<notin> set (xs @ p # ys)" "p \<notin> set xs" "p \<notin> set ys" using d(5,6) bp by (auto simp: sorted_wrt_append)
  have hd: "hd ?ns = hd (xs @ p # ys)" by (cases xs) auto
  have c: "chain h xs p" "hptr h p = hd (ys @ [hd (xs @ p # ys)])" "chain h ys (hd (xs @ p # ys))"
    using d(4) by (simp_all add: chain_append)
  have "chain ?h xs p" using c(1) nin by (subst chain_cong [of _ _ h]) auto
  moreover have "chain ?h ys (hd ?ns)" using c(3) nin unfolding hd by (subst chain_cong [of _ _ h]) auto
  ultimately have "chain ?h ?ns (hd ?ns)" using c(2) bp(2) by (simp add: chain_append hd)
  moreover have "sorted_wrt (<) ?ns" using d(5) bp by (auto simp: sorted_wrt_append)
  moreover have e: "set ?ns \<union> (A - {bp}) = set (xs @ p # ys) \<union> A" using bp(1) by auto
  moreover have "apart ?h (set ?ns \<union> (A - {bp}))" using d(7) unfolding e by (simp add: apart_def)
  ultimately show ?thesis using d unfolding heap_ok_def e hd by auto
qed

text \<open>Neighbours that touch become one block.\<close>

lemma heap_ok_merge:
  assumes ok: "heap_ok (xs @ x # y # ys) A h" and touch: "bend h x = y"
  shows "heap_ok (xs @ x # ys) A (set_ptr x (hptr h y) (set_size x (hsize h x + hsize h y) h))"
proof -
  note d = heap_okD [OF ok]
  let ?h = "set_ptr x (hptr h y) (set_size x (hsize h x + hsize h y) h)"
  have hd: "hd (xs @ x # ys) = hd (xs @ x # y # ys)" by (cases xs) auto
  have xy: "x < y" "x \<notin> set xs" "x \<notin> set ys" "y \<notin> set xs" "y \<notin> set ys" using d(5) by (auto simp: sorted_wrt_append)
  have nb: "x \<noteq> hd (xs @ x # y # ys)" using touch xy(1) d(3) by (auto simp: bend_def)
  have "16 * (unat (hsize h x) + unat (hsize h y)) < 2 ^ 36" using d(9,10) touch by (fastforce simp: bend_def)
  then have "unat (hsize h x + hsize h y) = unat (hsize h x) + unat (hsize h y)" by (simp add: unat_word_ariths)
  then have bx: "bend ?h x = bend h y" using touch by (simp add: bend_def)
  have bo: "bend ?h z = bend h z" if "z \<noteq> x" for z using that by (simp add: bend_def)
  have "chain ?h xs x \<longleftrightarrow> chain h xs x" "chain ?h ys z \<longleftrightarrow> chain h ys z" for z using xy by (auto intro!: chain_cong)
  then have "chain ?h (xs @ x # ys) (hd (xs @ x # ys))" using d(4) unfolding hd by (simp add: chain_append)
  moreover have "apart ?h (set (xs @ x # ys) \<union> A)"
    unfolding apart_def
  proof (intro ballI impI)
    fix a b assume a: "a \<in> set (xs @ x # ys) \<union> A" and b: "b \<in> set (xs @ x # ys) \<union> A" and l: "a < b"
    have ap: "c \<in> set (xs @ x # y # ys) \<union> A \<Longrightarrow> e \<in> set (xs @ x # y # ys) \<union> A \<Longrightarrow> c < e \<Longrightarrow> bend h c \<le> e" for c e
      using d(7) unfolding apart_def by blast
    show "bend ?h a \<le> b"
    proof (cases "a = x")
      case True
      have "y \<le> b" using ap [of x b] b l True touch by auto
      moreover have "b \<noteq> y" using b xy d(6) by auto
      ultimately show ?thesis using ap [of y b] b True bx by auto
    next
      case False
      then show ?thesis using ap [of a b] a b l bo by auto
    qed
  qed
  moreover have "hsize ?h x \<noteq> 0"
    using d(8) nb \<open>unat (hsize h x + hsize h y) = _\<close> by (auto simp: unat_eq_zero [symmetric])
  moreover have "hsize ?h z = hsize h z" if "z \<noteq> x" for z using that by simp
  moreover have "\<forall>z \<in> set (xs @ x # ys) \<union> A. bend ?h z \<le> brk h"
  proof
    fix z assume "z \<in> set (xs @ x # ys) \<union> A"
    then show "bend ?h z \<le> brk h" using bx bo d(9) by (cases "z = x") auto
  qed
  moreover have "sorted_wrt (<) (xs @ x # ys)" "set (xs @ x # ys) \<inter> A = {}" using d(5,6) by (auto simp: sorted_wrt_append)
  ultimately show ?thesis using d(1-3,8,10,11) nb unfolding heap_ok_def hd by auto
qed

section \<open>Walking along the ring\<close>

definition nxt :: "nat list \<Rightarrow> nat \<Rightarrow> nat" where
  "nxt ns i = (if i + 1 = length ns then 0 else i + 1)"

definition dist :: "nat list \<Rightarrow> nat \<Rightarrow> nat \<Rightarrow> nat" where
  "dist ns i j = (if i \<le> j then j - i else j + length ns - i)"

lemma nxt_less: "i < length ns \<Longrightarrow> nxt ns i < length ns"
  by (auto simp: nxt_def)

lemma dist_nxt: "i < length ns \<Longrightarrow> j < length ns \<Longrightarrow> i \<noteq> j \<Longrightarrow> dist ns i j = Suc (dist ns (nxt ns i) j)"
  by (auto simp: dist_def nxt_def)

lemma dist_less: "i < length ns \<Longrightarrow> j < length ns \<Longrightarrow> dist ns i j < length ns"
  by (auto simp: dist_def)

lemma dist_0: "i < length ns \<Longrightarrow> j < length ns \<Longrightarrow> dist ns i j = 0 \<longleftrightarrow> i = j"
  by (auto simp: dist_def)

lemma dist_last: "f < length ns \<Longrightarrow> j < length ns \<Longrightarrow> dist ns (nxt ns f) j \<le> dist ns (nxt ns f) f"
  by (auto simp: dist_def nxt_def)

lemma chain_nth: "chain h ns z \<Longrightarrow> i < length ns \<Longrightarrow> hptr h (ns ! i) = (ns @ [z]) ! Suc i"
proof (induction ns arbitrary: i)
  case (Cons a ns)
  then show ?case by (cases i) (auto simp: hd_conv_nth)
qed simp

lemma ring_nxt: "heap_ok ns A h \<Longrightarrow> i < length ns \<Longrightarrow> hptr h (ns ! i) = ns ! nxt ns i"
  using chain_nth [OF heap_okD(4), of ns A h i] heap_okD(1) by (auto simp: nxt_def nth_append hd_conv_nth)

section \<open>free\<close>

lemma used_above: "heap_ok ns A h \<Longrightarrow> a \<in> A \<Longrightarrow> hd ns + 16 \<le> a \<and> hsize h a \<noteq> 0"
  using heap_okD(1,6,8) [of ns A h] by (metis Int_iff UnI2 empty_iff hd_in_set)

lemma free_find_walk:
  assumes ok: "heap_ok ns A h" and bp: "bp \<in> A" and j: "j < length ns" "ns ! j < bp" "\<forall>y \<in> set (drop (Suc j) ns). bp < y"
  shows "i < length ns \<Longrightarrow> dist ns i j < k \<Longrightarrow> free_find k bp (ns ! i) h = Some (ns ! j)"
proof (induction k arbitrary: i)
  case (Suc k)
  note d = heap_okD [OF ok]
  note n = ring_nxt [OF ok Suc.prems(1)]
  have hd: "ns ! 0 < bp" using used_above [OF ok bp] hd_conv_nth [OF d(1)] by simp
  have srt: "a < b \<Longrightarrow> b < length ns \<Longrightarrow> ns ! a < ns ! b" for a b using d(5) by (simp add: sorted_wrt_iff_nth_less)
  have after: "bp < ns ! b" if "b < length ns" "j < b" for b
    using j(3) nth_mem [of "b - Suc j" "drop (Suc j) ns"] that by simp
  show ?case
  proof (cases "i = j")
    case True
    have "(bp > ns ! j \<and> bp < ns ! nxt ns j) \<or> (ns ! j \<ge> ns ! nxt ns j \<and> (bp > ns ! j \<or> bp < ns ! nxt ns j))"
    proof (cases "j + 1 < length ns")
      case True
      then show ?thesis using j(2) after [of "j + 1"] by (simp add: nxt_def)
    next
      case False
      then have "nxt ns j = 0" using j(1) by (simp add: nxt_def)
      then show ?thesis using j(1,2) srt [of 0 j] by (cases "j = 0") auto
    qed
    then show ?thesis using n True by auto
  next
    case False
    have no: "\<not> (bp > ns ! i \<and> bp < ns ! nxt ns i)" "\<not> (ns ! i \<ge> ns ! nxt ns i \<and> (bp > ns ! i \<or> bp < ns ! nxt ns i))"
    proof -
      consider (before) "i < j" | (between) "j < i" "nxt ns i = i + 1" "i + 1 < length ns" | (top) "j < i" "nxt ns i = 0"
        using False Suc.prems(1) by (cases "i + 1 = length ns"; cases "i < j") (simp_all add: nxt_def)
      then have "\<not> (bp > ns ! i \<and> bp < ns ! nxt ns i) \<and> \<not> (ns ! i \<ge> ns ! nxt ns i \<and> (bp > ns ! i \<or> bp < ns ! nxt ns i))"
      proof cases
        case before
        then have "nxt ns i = i + 1" "ns ! i < ns ! (i + 1)" using j(1) srt [of i "i + 1"] by (auto simp: nxt_def)
        moreover have "ns ! (i + 1) \<le> ns ! j" using before j(1) srt [of "i + 1" j] by (cases "i + 1 = j") auto
        ultimately show ?thesis using j(2) by simp
      next
        case between
        then show ?thesis using after [of i] srt [of i "i + 1"] Suc.prems(1) by simp
      next
        case top
        then show ?thesis using after [of i] hd Suc.prems(1) by simp
      qed
      then show "\<not> (bp > ns ! i \<and> bp < ns ! nxt ns i)" "\<not> (ns ! i \<ge> ns ! nxt ns i \<and> (bp > ns ! i \<or> bp < ns ! nxt ns i))" by blast+
    qed
    have "free_find k bp (ns ! nxt ns i) h = Some (ns ! j)"
      using Suc.prems dist_nxt [OF Suc.prems(1) j(1) False] by (intro Suc.IH nxt_less) simp_all
    then show ?thesis by (simp only: free_find.simps n if_not_P [OF no(1)] if_not_P [OF no(2)])
  qed
qed simp

text \<open>The place of a block in the ring.\<close>

lemma ring_place:
  assumes "heap_ok ns A h" "bp \<in> A"
  obtains xs p ys where "ns = xs @ p # ys" "p < bp" "\<forall>y \<in> set ys. bp < y"
proof -
  note d = heap_okD [OF assms(1)]
  let ?t = "takeWhile (\<lambda>x. x < bp) ns" and ?r = "dropWhile (\<lambda>x. x < bp) ns"
  have "hd ns < bp" using used_above [OF assms] by simp
  then have t: "?t \<noteq> []" using d(1) by (cases ns) auto
  have r: "bp < y" if "y \<in> set ?r" for y
  proof -
    have "y \<in> set ns" "y \<noteq> bp" using that set_dropWhileD [of y _ ns] d(6) assms(2) by auto
    moreover have "?r \<noteq> []" using that by (metis empty_iff list.set(1))
    then have "\<not> hd ?r < bp" by (rule hd_dropWhile)
    moreover have "sorted_wrt (<) ?r" using d(5) by (metis sorted_wrt_append takeWhile_dropWhile_id)
    then have "hd ?r \<le> y" using that by (cases ?r) auto
    ultimately show ?thesis by simp
  qed
  show thesis
  proof (rule that [of "butlast ?t" "last ?t" ?r])
    show "ns = butlast ?t @ last ?t # ?r" using t by (metis append.assoc append_Cons append_Nil append_butlast_last_id takeWhile_dropWhile_id)
    show "last ?t < bp" using t last_in_set [OF t] set_takeWhileD by fastforce
  qed (use r in blast)
qed

text \<open>\<open>free\<close> links the block, then joins it with the next and with the previous block if they touch.\<close>

definition join_next :: "nat \<Rightarrow> heap \<Rightarrow> heap" where
  "join_next x h = (if bend h x = hptr h x then set_ptr x (hptr h (hptr h x)) (set_size x (hsize h x + hsize h (hptr h x)) h) else h)"

lemma brk_join [simp]: "brk (join_next x h) = brk h"
  by (simp add: join_next_def)

lemma heap_ok_join:
  assumes ok: "heap_ok (xs @ x # ys) A h" and ne: "xs \<noteq> [] \<or> ys \<noteq> []"
  shows "\<exists>zs. heap_ok (xs @ x # zs) A (join_next x h) \<and> set zs \<subseteq> set ys \<and> length zs \<le> length ys \<and>
    (\<forall>y \<in> set (x # ys). \<exists>f \<in> set (x # zs). unat (hsize h y) \<le> unat (hsize (join_next x h) f)) \<and>
    (\<forall>z. z \<noteq> x \<longrightarrow> hsize (join_next x h) z = hsize h z)"
proof (cases "bend h x = hptr h x")
  case False
  then show ?thesis using ok by (intro exI [of _ ys]) (auto simp: join_next_def)
next
  case True
  note d = heap_okD [OF ok]
  have p: "hptr h x = hd (ys @ [hd (xs @ x # ys)])" using d(4) by (simp add: chain_append)
  show ?thesis
  proof (cases ys)
    case Nil
    then obtain a as where "xs = a # as" using ne by (cases xs) auto
    moreover then have "a < x" using d(5) by simp
    ultimately show ?thesis using True p Nil by (simp add: bend_def)
  next
    case (Cons y ys')
    then have y: "hptr h x = y" using p by simp
    have j: "join_next x h = set_ptr x (hptr h y) (set_size x (hsize h x + hsize h y) h)"
      using True y by (simp add: join_next_def)
    have "heap_ok (xs @ x # ys') A (join_next x h)"
      using heap_ok_merge [of xs x y ys' A h] ok Cons True y j by simp
    moreover have "16 * (unat (hsize h x) + unat (hsize h y)) < 2 ^ 36"
      using d(9,10) True y Cons by (fastforce simp: bend_def)
    then have "unat (hsize h x + hsize h y) = unat (hsize h x) + unat (hsize h y)" by (simp add: unat_word_ariths)
    moreover have "x \<notin> set ys'" using d(5) Cons by (auto simp: sorted_wrt_append)
    ultimately show ?thesis using Cons j by (intro exI [of _ ys']) auto
  qed
qed

lemma free_staged:
  assumes "free_find k bp (freep h) h = Some p" "p \<noteq> bp" "hptr h p \<noteq> bp" "bend h bp = hptr h p \<longrightarrow> hptr h p \<noteq> p"
  shows "free k (bp + 16) h = Some ((let h1 = join_next bp (set_ptr p bp (set_ptr bp (hptr h p) h)) in join_next p h1)\<lparr>freep := p\<rparr>)"
proof -
  let ?h0 = "set_ptr p bp (set_ptr bp (hptr h p) h)"
  let ?h1 = "if bend h bp = hptr h p then set_ptr bp (hptr h (hptr h p)) (set_size bp (hsize h bp + hsize h (hptr h p)) h)
     else set_ptr bp (hptr h p) h"
  have b: "bend (set_ptr bp a (set_size bp b h)) p = bend h p" for a b using assms(2) by (simp add: bend_def)
  have j: "join_next bp ?h0 = set_ptr p bp ?h1"
    using assms(2-4) by (auto simp: join_next_def set_ptr_def set_size_def bend_def fun_upd_twist)
  show ?thesis unfolding j
    using assms b by (auto simp: free_def Let_def join_next_def set_ptr_def set_size_def bend_def fun_upd_twist)
qed

lemma free_ok:
  assumes ok: "heap_ok ns A h" and bp: "bp \<in> A" and fp: "freep h \<in> set ns" and k: "length ns < k"
  shows "\<exists>ns' h'. free k (bp + 16) h = Some h' \<and> heap_ok ns' (A - {bp}) h' \<and> hd ns' = hd ns \<and> freep h' \<in> set ns' \<and>
    length ns' \<le> length ns + 1 \<and> brk h' = brk h \<and> (\<forall>a \<in> A - {bp}. hsize h' a = hsize h a) \<and>
    (\<exists>f \<in> set ns'. unat (hsize h bp) \<le> unat (hsize h' f))"
proof -
  note d = heap_okD [OF ok]
  obtain xs p ys where ns: "ns = xs @ p # ys" and pl: "p < bp" "\<forall>y \<in> set ys. bp < y" by (rule ring_place [OF ok bp])
  obtain i where i: "i < length ns" "ns ! i = freep h" using fp by (auto simp: in_set_conv_nth)
  have ff: "free_find k bp (freep h) h = Some p"
    using free_find_walk [OF ok bp, of "length xs" i k] ns pl i k dist_less [of i ns "length xs"] by (simp add: nth_append)
  have lx: "length xs < length ns" "ns ! length xs = p" using ns by auto
  have q: "hptr h p \<in> set ns"
    using ring_nxt [OF ok lx(1)] nth_mem [OF nxt_less [OF lx(1)]] lx(2) by metis
  let ?h0 = "set_ptr p bp (set_ptr bp (hptr h p) h)"
  let ?h1 = "join_next bp ?h0"
  have bb: "bp \<le> bend h bp" by (simp add: bend_def)
  have st: "free k (bp + 16) h = Some ((join_next p ?h1)\<lparr>freep := p\<rparr>)"
    using free_staged [OF ff] pl q d(6) bp bb by (auto simp: Let_def)
  have "heap_ok ((xs @ [p]) @ bp # ys) (A - {bp}) ?h0" using heap_ok_link [of xs p ys A h bp] ok ns bp pl by simp
  then obtain zs where z: "heap_ok ((xs @ [p]) @ bp # zs) (A - {bp}) ?h1" "set zs \<subseteq> set ys" "length zs \<le> length ys"
    "\<forall>y \<in> set (bp # ys). \<exists>f \<in> set (bp # zs). unat (hsize ?h0 y) \<le> unat (hsize ?h1 f)" "\<forall>z. z \<noteq> bp \<longrightarrow> hsize ?h1 z = hsize ?h0 z"
    using heap_ok_join [of "xs @ [p]" bp ys "A - {bp}" ?h0] by auto
  have "heap_ok (xs @ p # bp # zs) (A - {bp}) ?h1" using z(1) by simp
  then obtain ws where w: "heap_ok (xs @ p # ws) (A - {bp}) (join_next p ?h1)" "length ws \<le> length (bp # zs)"
    "\<forall>y \<in> set (p # bp # zs). \<exists>f \<in> set (p # ws). unat (hsize ?h1 y) \<le> unat (hsize (join_next p ?h1) f)"
    "\<forall>z. z \<noteq> p \<longrightarrow> hsize (join_next p ?h1) z = hsize ?h1 z"
    using heap_ok_join [of xs p "bp # zs" "A - {bp}" ?h1] by auto
  have "\<exists>f \<in> set (p # ws). unat (hsize h bp) \<le> unat (hsize (join_next p ?h1) f)"
  proof -
    obtain f where "f \<in> set (bp # zs)" "unat (hsize h bp) \<le> unat (hsize ?h1 f)" using z(4) by auto
    moreover then obtain g where "g \<in> set (p # ws)" "unat (hsize ?h1 f) \<le> unat (hsize (join_next p ?h1) g)" using w(3) by auto
    ultimately show ?thesis using le_trans by blast
  qed
  moreover have "hsize (join_next p ?h1) a = hsize h a" if "a \<in> A - {bp}" for a
    using that w(4) z(5) d(6) ns by auto
  moreover have "hd (xs @ p # ws) = hd ns" using ns by (cases xs) auto
  moreover have "length (xs @ p # ws) \<le> length ns + 1" using w(2) z(3) ns by simp
  ultimately show ?thesis using st w(1)
    by (intro exI [of _ "xs @ p # ws"] exI [of _ "(join_next p ?h1)\<lparr>freep := p\<rparr>"] conjI ballI) (simp_all, blast)
qed

section \<open>malloc\<close>

text \<open>A block that fits exactly leaves the ring.\<close>

lemma heap_ok_unlink:
  assumes ok: "heap_ok (xs @ a # p # ys) A h"
  shows "heap_ok (xs @ a # ys) (insert p A) (set_ptr a (hptr h p) h)"
proof -
  note d = heap_okD [OF ok]
  let ?h = "set_ptr a (hptr h p) h"
  have hd: "hd (xs @ a # ys) = hd (xs @ a # p # ys)" by (cases xs) auto
  have n: "a \<notin> set xs" "a \<notin> set ys" "a < p" "p \<notin> set ys" "p \<notin> set xs" using d(5) by (auto simp: sorted_wrt_append)
  have "chain ?h xs a \<longleftrightarrow> chain h xs a" "chain ?h ys z \<longleftrightarrow> chain h ys z" for z using n by (auto intro!: chain_cong)
  then have "chain ?h (xs @ a # ys) (hd (xs @ a # ys))" using d(4) unfolding hd by (simp add: chain_append)
  moreover have e: "set (xs @ a # ys) \<union> insert p A = set (xs @ a # p # ys) \<union> A" by auto
  moreover have "sorted_wrt (<) (xs @ a # ys)" "set (xs @ a # ys) \<inter> insert p A = {}"
    using d(5,6) n by (auto simp: sorted_wrt_append)
  moreover have "apart ?h (set (xs @ a # p # ys) \<union> A)" using d(7) by (simp add: apart_def)
  ultimately show ?thesis using d(2,3,8-11) unfolding heap_ok_def e hd by simp
qed

text \<open>A larger block gives its tail.\<close>

lemma heap_ok_tail:
  assumes ok: "heap_ok ns A h" and p: "p \<in> set ns" and n: "n \<noteq> 0" "n < hsize h p"
  defines "h1 \<equiv> set_size p (hsize h p - n) h" and "q \<equiv> p + 16 * unat (hsize h p - n)"
  shows "heap_ok ns (insert q A) (set_size q n h1) \<and> q \<notin> A \<and> q \<noteq> p \<and> q \<notin> set ns \<and> bend h1 p = q"
proof -
  note d = heap_okD [OF ok]
  let ?h = "set_size q n h1"
  have lt: "unat n < unat (hsize h p)" "0 < unat n" using n by (simp_all add: word_less_nat_alt unat_gt_0)
  then have sz: "unat (hsize h p - n) = unat (hsize h p) - unat n" by (simp add: unat_sub_if')
  have pq: "p < q" "q < bend h p" "q + 16 * unat n = bend h p" using lt by (auto simp: q_def sz bend_def)
  have pb: "p \<noteq> hd ns" using d(3) n by auto
  then have pb16: "hd ns + 16 \<le> p" using d(8) p by blast
  have ap: "bend h x \<le> y" if "x \<in> set ns \<union> A" "y \<in> set ns \<union> A" "x < y" for x y using d(7) that unfolding apart_def by blast
  have out: "z \<noteq> q" if "z \<in> set ns \<union> A" for z using ap [of p z] p that pq by fastforce
  have b: "bend ?h q = bend h p" "bend ?h p = q" using pq by (auto simp: bend_def h1_def q_def)
  have bo: "bend ?h z = bend h z" if "z \<noteq> p" "z \<noteq> q" for z using that by (simp add: bend_def h1_def)
  have "apart ?h (set ns \<union> insert q A)"
    unfolding apart_def
  proof (intro ballI impI)
    fix x y assume x: "x \<in> set ns \<union> insert q A" and y: "y \<in> set ns \<union> insert q A" and l: "x < y"
    consider "x = q" | "x = p" | "x \<noteq> q" "x \<noteq> p" "y = q" | "x \<noteq> q" "x \<noteq> p" "y \<noteq> q" by blast
    then show "bend ?h x \<le> y"
    proof cases
      case 1
      then show ?thesis using ap [of p y] p y l pq b by fastforce
    next
      case 2
      then show ?thesis using ap [of p y] p y l pq b by fastforce
    next
      case 3
      have "x < p"
      proof (rule ccontr)
        assume "\<not> x < p"
        then show False using ap [of p x] p x 3 l pq by fastforce
      qed
      then show ?thesis using ap [of x p] p x 3 bo pq by fastforce
    next
      case 4
      then show ?thesis using ap [of x y] x y l bo by simp
    qed
  qed
  moreover have "bend ?h z \<le> brk h" if "z \<in> set ns \<union> insert q A" for z
    using that d(9) p b bo pq by (cases "z = q"; cases "z = p") force+
  moreover have "z = hd ns \<or> hd ns + 16 \<le> z \<and> hsize ?h z \<noteq> 0" if "z \<in> set ns \<union> insert q A" for z
    using that d(8) pb pb16 pq n by (cases "z = q"; cases "z = p") (auto simp: h1_def)
  moreover have "hsize ?h (hd ns) = 0" using d(1,3) pb out [of "hd ns"] by (simp add: h1_def)
  moreover have "chain ?h ns (hd ns)" using d(4) by (subst chain_cong [of _ _ h]) (auto simp: h1_def)
  moreover have "set ns \<inter> insert q A = {}" using d(6) out by auto
  ultimately show ?thesis using d(1,2,5,10,11) out p b(2) pq(1) unfolding heap_ok_def by (auto simp: h1_def bend_def)
qed

text \<open>What the caller of \<open>malloc\<close> gets: a block that no one else has, and the other blocks unchanged.\<close>

definition granted :: "nat \<Rightarrow> nat set \<Rightarrow> u32 \<Rightarrow> heap \<Rightarrow> nat \<Rightarrow> heap \<Rightarrow> bool" where
  "granted base A n h p h' \<longleftrightarrow> (\<exists>ns'. heap_ok ns' (insert (p - 16) A) h' \<and> hd ns' = base \<and> freep h' \<in> set ns') \<and>
     16 < p \<and> p - 16 \<notin> A \<and> hsize h' (p - 16) = n \<and> (\<forall>a \<in> A. hsize h' a = hsize h a)"

lemma malloc_loop_found:
  assumes ok: "heap_ok ns A h" and n: "n \<noteq> 0" and f: "f < length ns" "freep h = ns ! f"
    and t: "t < length ns" "n \<le> hsize h (ns ! t)"
  shows "j < length ns \<Longrightarrow> dist ns (nxt ns j) t \<le> dist ns (nxt ns j) f \<Longrightarrow> dist ns (nxt ns j) t < k \<Longrightarrow>
    \<exists>p h'. malloc_loop k sb n (ns ! j) (hptr h (ns ! j)) h = Some (p, h') \<and> granted (hd ns) A n h p h'"
proof (induction k arbitrary: j)
  case (Suc k)
  note d = heap_okD [OF ok]
  let ?i = "nxt ns j"
  have i: "?i < length ns" "hptr h (ns ! j) = ns ! ?i" using nxt_less ring_nxt [OF ok] Suc.prems(1) by auto
  have m: "ns ! ?i \<in> set ns" "ns ! j \<in> set ns" using i(1) Suc.prems(1) by simp_all
  show ?case
  proof (cases "n \<le> hsize h (ns ! ?i)")
    case True
    then have "ns ! ?i \<noteq> hd ns" using d(3) n by auto
    then have i0: "?i \<noteq> 0" "hd ns + 16 \<le> ns ! ?i" using hd_conv_nth [OF d(1)] d(8) m(1) by (metis, blast)
    then have ij: "?i = Suc j" by (auto simp: nxt_def split: if_splits)
    show ?thesis
    proof (cases "hsize h (ns ! ?i) = n")
      case eq: True
      have sp: "ns = take j ns @ ns ! j # ns ! ?i # drop (Suc (Suc j)) ns"
        using i(1) Suc.prems(1) unfolding ij by (metis Cons_nth_drop_Suc append_take_drop_id)
      let ?ns = "take j ns @ ns ! j # drop (Suc (Suc j)) ns"
      have "heap_ok ?ns (insert (ns ! ?i) A) (set_ptr (ns ! j) (hptr h (ns ! ?i)) h)"
        by (rule heap_ok_unlink) (use ok sp in simp)
      moreover have "hd ?ns = hd ns" by (subst (3) sp) (cases "take j ns", auto)
      moreover have "ns ! j \<in> set ?ns" by simp
      moreover have "ns ! ?i \<notin> A" using d(6) m(1) by auto
      ultimately have "granted (hd ns) A n h (ns ! ?i + 16) ((set_ptr (ns ! j) (hptr h (ns ! ?i)) h)\<lparr>freep := ns ! j\<rparr>)"
        using eq i0(2) d(2) unfolding granted_def by (intro conjI exI [of _ ?ns]) simp_all
      then show ?thesis using eq i(2) by (simp add: Let_def)
    next
      case False
      then have lt: "n < hsize h (ns ! ?i)" using True by simp
      note tl = heap_ok_tail [OF ok m(1) n lt]
      let ?h1 = "set_size (ns ! ?i) (hsize h (ns ! ?i) - n) h" and ?q = "ns ! ?i + 16 * unat (hsize h (ns ! ?i) - n)"
      have "hsize (set_size ?q n ?h1) a = hsize h a" if "a \<in> A" for a using that tl d(6) m(1) by auto
      then have "granted (hd ns) A n h (?q + 16) ((set_size ?q n ?h1)\<lparr>freep := ns ! j\<rparr>)"
        using tl i0(2) d(2) m(2) unfolding granted_def by (intro conjI exI [of _ ns] ballI) simp_all
      moreover have "malloc_loop (Suc k) sb n (ns ! j) (hptr h (ns ! j)) h = Some (?q + 16, (set_size ?q n ?h1)\<lparr>freep := ns ! j\<rparr>)"
        using True False i(2) tl by (simp add: Let_def)
      ultimately show ?thesis by blast
    qed
  next
    case False
    then have it: "?i \<noteq> t" using t(2) by auto
    then have d0: "0 < dist ns ?i t" using dist_0 [OF i(1) t(1)] by simp
    then have "?i \<noteq> f" using Suc.prems(2) dist_0 [OF i(1) f(1)] by auto
    moreover then have "ns ! ?i \<noteq> freep h"
      using f i(1) d(5) by (metis linorder_neqE_nat order_less_irrefl sorted_wrt_iff_nth_less)
    moreover have "\<exists>p h'. malloc_loop k sb n (ns ! ?i) (hptr h (ns ! ?i)) h = Some (p, h') \<and> granted (hd ns) A n h p h'"
      using Suc.prems dist_nxt [OF i(1) t(1) it] dist_nxt [OF i(1) f(1)] \<open>?i \<noteq> f\<close> i(1) by (intro Suc.IH) simp_all
    ultimately show ?thesis using False i(2) by simp
  qed
qed simp

lemma malloc_loop_walk:
  assumes ok: "heap_ok ns A h" and f: "f < length ns" "freep h = ns ! f" and no: "\<forall>t < length ns. hsize h (ns ! t) < n"
  shows "j < length ns \<Longrightarrow> d = dist ns (nxt ns j) f \<Longrightarrow> malloc_loop (d + Suc m) sb n (ns ! j) (hptr h (ns ! j)) h =
    (case morecore m sb n h of None \<Rightarrow> None
     | Some (p, h) \<Rightarrow> if p = 0 then Some (0, h) else malloc_loop m sb n p (hptr h p) h)"
proof (induction d arbitrary: j)
  case 0
  then have "nxt ns j = f" using dist_0 nxt_less f(1) by metis
  moreover have "\<not> n \<le> hsize h (ns ! f)" using no f(1) by (simp add: not_le)
  ultimately show ?case using f(2) ring_nxt [OF ok 0(1)] by simp
next
  case (Suc d)
  let ?i = "nxt ns j"
  have i: "?i < length ns" "hptr h (ns ! j) = ns ! ?i" using nxt_less ring_nxt [OF ok] Suc.prems(1) by auto
  then have "?i \<noteq> f" using Suc.prems(2) dist_0 [OF i(1) f(1)] by auto
  moreover then have "ns ! ?i \<noteq> freep h"
    using f i(1) heap_okD(5) [OF ok] by (metis linorder_neqE_nat order_less_irrefl sorted_wrt_iff_nth_less)
  moreover have "\<not> n \<le> hsize h (ns ! ?i)" using no i(1) by (simp add: not_le)
  moreover have "d = dist ns (nxt ns ?i) f" using dist_nxt [OF i(1) f(1) \<open>?i \<noteq> f\<close>] Suc.prems(2) by simp
  ultimately show ?case using Suc.IH [OF i(1)] i(2) by simp
qed

text \<open>What \<open>sbrk\<close> promises for a growth: it fails, or it moves the end of the heap and returns the old one.\<close>

definition sbrk_ok :: "sbrk \<Rightarrow> bool" where
  "sbrk_ok sb \<longleftrightarrow> (\<forall>n b. 0 \<le> n \<longrightarrow> sb n b = None \<or> sb n b = Some (b, b + nat n) \<and> b + nat n < 2 ^ 36)"

lemma heap_ok_grow:
  assumes ok: "heap_ok ns A h" and u: "u \<noteq> 0" and b: "b = brk h + 16 * unat u" "b < 2 ^ 36"
  shows "heap_ok ns (insert (brk h) A) (set_size (brk h) u (h\<lparr>brk := b\<rparr>)) \<and> brk h \<notin> A \<and> brk h \<notin> set ns"
proof -
  note d = heap_okD [OF ok]
  let ?h = "set_size (brk h) u (h\<lparr>brk := b\<rparr>)"
  have out: "z < brk h" if "z \<in> set ns \<union> A" for z
  proof -
    have "z = hd ns \<or> z < bend h z" using d(8) that by (auto simp: bend_def unat_gt_0)
    moreover have "bend h z \<le> brk h" using d(9) that by blast
    ultimately show ?thesis using d(11) by linarith
  qed
  have bo: "bend ?h z = bend h z" if "z \<in> set ns \<union> A" for z using out [OF that] by (simp add: bend_def)
  have bb: "bend ?h (brk h) = b" using b by (simp add: bend_def)
  have "apart ?h (set ns \<union> insert (brk h) A)"
    unfolding apart_def
  proof (intro ballI impI)
    fix x y assume x: "x \<in> set ns \<union> insert (brk h) A" and y: "y \<in> set ns \<union> insert (brk h) A" and l: "x < y"
    have "x \<in> set ns \<union> A" using x y l out [of y] by auto
    moreover have "y = brk h \<or> y \<in> set ns \<union> A" using y by auto
    ultimately show "bend ?h x \<le> y" using bo d(7,9) l unfolding apart_def by metis
  qed
  moreover have "bend ?h z \<le> b" if "z \<in> set ns \<union> A" for z using bo [OF that] d(9) that b(1) by (metis trans_le_add1)
  then have "\<forall>z \<in> set ns \<union> insert (brk h) A. bend ?h z \<le> b" using bb by auto
  moreover have "\<forall>z \<in> set ns \<union> insert (brk h) A. z = hd ns \<or> hd ns + 16 \<le> z \<and> hsize ?h z \<noteq> 0"
    using d(8,11) u out by auto
  moreover have "chain ?h ns (hd ns)" using d(4) by (subst chain_cong [of _ _ h]) auto
  moreover have "brk h \<notin> set ns \<union> A" using out by blast
  moreover have "hsize ?h (hd ns) = 0" using d(1,3) out [of "hd ns"] by simp
  ultimately show ?thesis using d(1,2,5,6,11) b unfolding heap_ok_def by auto
qed

lemma morecore_ok:
  assumes ok: "heap_ok ns A h" and fp: "freep h \<in> set ns" and k: "length ns < k"
    and u: "unat u < 2 ^ 27" and sb: "sbrk_ok sb"
  shows "morecore k sb u h = Some (0, h) \<and> sb (int (16 * max 4096 (unat u))) (brk h) = None \<or>
    (\<exists>ns' h'. morecore k sb u h = Some (freep h', h') \<and> heap_ok ns' A h' \<and> hd ns' = hd ns \<and> freep h' \<in> set ns' \<and>
       length ns' \<le> length ns + 1 \<and> (\<forall>a \<in> A. hsize h' a = hsize h a) \<and> (\<exists>f \<in> set ns'. u \<le> hsize h' f))"
proof -
  define v where "v = (if u < 4096 then 4096 else u)"
  have v: "unat v < 2 ^ 27" "u \<le> v" "v \<noteq> 0" using u by (auto simp: v_def)
  define w where "w = unat v * 16"
  have "w < 2 ^ 31" using v(1) by (simp add: w_def)
  then have "int w < 2 ^ 31" by simp
  then have "sint (of_nat w :: u32) = int w"
    by (simp only: signed_of_nat) (simp add: signed_take_bit_int_eq_self)
  then have mc: "morecore k sb u h = (case sb (int w) (brk h) of None \<Rightarrow> Some (0, h)
     | Some (hp, b) \<Rightarrow> (case free k (hp + 16) (set_size hp v (h\<lparr>brk := b\<rparr>)) of None \<Rightarrow> None | Some h \<Rightarrow> Some (freep h, h)))"
    by (simp only: morecore_def v_def [symmetric] w_def [symmetric] Let_def)
  have w16: "w = 16 * unat v" by (simp add: w_def)
  moreover have "unat v = max 4096 (unat u)" by (auto simp: v_def word_less_nat_alt max_def)
  ultimately have wm: "w = 16 * max 4096 (unat u)" by simp
  consider "sb (int w) (brk h) = None"
    | b where "sb (int w) (brk h) = Some (brk h, b)" "b = brk h + w" "b < 2 ^ 36"
    using sb [unfolded sbrk_ok_def, rule_format, of "int w" "brk h"] by auto
  then show ?thesis
  proof cases
    case 1
    then show ?thesis using mc unfolding wm by simp
  next
    case 2
    note g = heap_ok_grow [OF ok v(3) 2(2) [unfolded w16] 2(3)]
    let ?h = "set_size (brk h) v (h\<lparr>brk := b\<rparr>)"
    have ai: "insert (brk h) A - {brk h} = A" using g by auto
    obtain ns' h' where r: "free k (brk h + 16) ?h = Some h'" "heap_ok ns' A h'" "hd ns' = hd ns" "freep h' \<in> set ns'"
      "length ns' \<le> length ns + 1" "\<forall>a \<in> A. hsize h' a = hsize ?h a" "\<exists>f \<in> set ns'. unat (hsize ?h (brk h)) \<le> unat (hsize h' f)"
      using free_ok [of ns "insert (brk h) A" ?h "brk h" k] g fp k unfolding ai by auto
    have "\<exists>f \<in> set ns'. u \<le> hsize h' f"
      using r(7) v(2) by (auto simp: word_le_nat_alt intro: le_trans)
    moreover have "\<forall>a \<in> A. hsize h' a = hsize h a" using r(6) g by auto
    ultimately show ?thesis using mc 2(1) r(1-5) by auto
  qed
qed

lemma malloc_loop_ok:
  assumes ok: "heap_ok ns A h" and fp: "freep h \<in> set ns" and k: "2 * length ns + 3 \<le> k"
    and n: "n \<noteq> 0" "unat n < 2 ^ 27" and sb: "sbrk_ok sb"
  shows "\<exists>p h'. malloc_loop k sb n (freep h) (hptr h (freep h)) h = Some (p, h') \<and>
    (p = 0 \<and> h' = h \<and> sb (int (16 * max 4096 (unat n))) (brk h) = None \<or> granted (hd ns) A n h p h')"
proof -
  obtain f where f: "f < length ns" "freep h = ns ! f" using fp by (metis in_set_conv_nth)
  note nf = nxt_less [OF f(1)]
  show ?thesis
  proof (cases "\<exists>t < length ns. n \<le> hsize h (ns ! t)")
    case True
    then obtain t where t: "t < length ns" "n \<le> hsize h (ns ! t)" by blast
    show ?thesis
      using malloc_loop_found [OF ok n(1) f t f(1) dist_last [OF f(1) t(1)], of k sb] dist_less [OF nf t(1)] k f(2) by auto
  next
    case False
    define d where "d = dist ns (nxt ns f) f"
    define m where "m = k - Suc d"
    have dl: "d < length ns" using dist_less [OF nf f(1)] d_def by simp
    then have km: "k = d + Suc m" "length ns + 2 \<le> m" using k by (simp_all add: m_def)
    have w: "malloc_loop k sb n (freep h) (hptr h (freep h)) h =
      (case morecore m sb n h of None \<Rightarrow> None | Some (p, h) \<Rightarrow> if p = 0 then Some (0, h) else malloc_loop m sb n p (hptr h p) h)"
      using malloc_loop_walk [OF ok f _ f(1) d_def, of n m sb] False f(2) km(1) by (simp add: not_le)
    consider "morecore m sb n h = Some (0, h)" "sb (int (16 * max 4096 (unat n))) (brk h) = None"
      | ns' h1 where "morecore m sb n h = Some (freep h1, h1)" "heap_ok ns' A h1" "hd ns' = hd ns" "freep h1 \<in> set ns'"
        "length ns' \<le> length ns + 1" "\<forall>a \<in> A. hsize h1 a = hsize h a" "\<exists>f \<in> set ns'. n \<le> hsize h1 f"
      using morecore_ok [OF ok fp _ n(2) sb, of m] km(2) by auto
    then show ?thesis
    proof cases
      case 1
      then show ?thesis using w by simp
    next
      case 2
      have nz: "freep h1 \<noteq> 0" using ring_pos [OF 2(2,4)] by simp
      obtain g where g: "g < length ns'" "freep h1 = ns' ! g" using 2(4) by (metis in_set_conv_nth)
      obtain t where t: "t < length ns'" "n \<le> hsize h1 (ns' ! t)" using 2(7) by (metis in_set_conv_nth)
      obtain p h' where r: "malloc_loop m sb n (freep h1) (hptr h1 (freep h1)) h1 = Some (p, h')" "granted (hd ns') A n h1 p h'"
        using malloc_loop_found [OF 2(2) n(1) g t g(1) dist_last [OF g(1) t(1)], of m sb] g(2)
          dist_less [OF nxt_less [OF g(1)] t(1)] 2(5) km(2) by auto
      have "granted (hd ns) A n h p h'" using r(2) 2(3,6) by (simp add: granted_def)
      then show ?thesis using w 2(1) nz r(1) by simp
    qed
  qed
qed

text \<open>The state of the allocator between two calls: before the first call, or with a free list.\<close>

definition heap_inv :: "nat \<Rightarrow> nat set \<Rightarrow> heap \<Rightarrow> bool" where
  "heap_inv base A h \<longleftrightarrow>
     (freep h = 0 \<and> A = {} \<and> 0 < base \<and> base + 16 \<le> brk h \<and> brk h < 2 ^ 36) \<or>
     (\<exists>ns. heap_ok ns A h \<and> hd ns = base \<and> freep h \<in> set ns)"

lemma units_of_bounds:
  assumes "unat nbytes < 2 ^ 31 - 32"
  shows "units_of nbytes \<noteq> 0" "unat (units_of nbytes) < 2 ^ 27" "unat nbytes + 16 \<le> 16 * unat (units_of nbytes)"
    "16 * unat (units_of nbytes) < unat nbytes + 32"
proof -
  have "(unat nbytes + 16 - 1) div 16 + 1 < 2 ^ LENGTH(32)" using assms by simp
  then have "unat (units_of nbytes) = (unat nbytes + 16 - 1) div 16 + 1"
    by (simp only: units_of_def unsigned_of_nat take_bit_nat_eq_self of_nat_id)
  then show "units_of nbytes \<noteq> 0" "unat (units_of nbytes) < 2 ^ 27" "unat nbytes + 16 \<le> 16 * unat (units_of nbytes)"
    "16 * unat (units_of nbytes) < unat nbytes + 32" using assms by (auto simp: unat_eq_zero [symmetric])
qed

lemma malloc_inv:
  assumes inv: "heap_inv base A h" and sb: "sbrk_ok sb" and n: "n = units_of nbytes" "n \<noteq> 0" "unat n < 2 ^ 27"
  shows "\<exists>K. \<forall>k \<ge> K. \<exists>p h'. malloc k sb base nbytes h = Some (p, h') \<and>
    (p = 0 \<and> heap_inv base A h' \<and> (\<forall>a \<in> A. hsize h' a = hsize h a) \<and>
       sb (int (16 * max 4096 (unat n))) (brk h) = None \<or> granted base A n h p h')"
proof (cases "freep h = 0")
  case True
  let ?h = "set_size base 0 ((set_ptr base base h)\<lparr>freep := base\<rparr>)"
  have e: "A = {}" "0 < base" "base + 16 \<le> brk h" "brk h < 2 ^ 36" using inv True ring_pos by (auto simp: heap_inv_def)
  have ok: "heap_ok [base] A ?h" using e by (auto simp: heap_ok_def apart_def bend_def)
  have m: "malloc k sb base nbytes h = malloc_loop k sb n (freep ?h) (hptr ?h (freep ?h)) ?h" for k
    using True by (simp add: malloc_def n(1))
  have "heap_inv base A ?h" using ok by (auto simp: heap_inv_def intro!: exI [of _ "[base]"])
  moreover have "granted base A n h p h' \<longleftrightarrow> granted base A n ?h p h'" for p h' using e(1) by (simp add: granted_def)
  moreover have "\<exists>p h'. malloc k sb base nbytes h = Some (p, h') \<and>
    (p = 0 \<and> h' = ?h \<and> sb (int (16 * max 4096 (unat n))) (brk h) = None \<or> granted base A n ?h p h')" if "5 \<le> k" for k
    unfolding m using malloc_loop_ok [OF ok _ _ n(2,3) sb, of k] that by simp
  ultimately show ?thesis using e(1) by (intro exI [of _ 5]) (metis empty_iff)
next
  case False
  then obtain ns where ns: "heap_ok ns A h" "hd ns = base" "freep h \<in> set ns" using inv by (auto simp: heap_inv_def)
  have m: "malloc k sb base nbytes h = malloc_loop k sb n (freep h) (hptr h (freep h)) h" for k
    using False by (simp add: malloc_def n(1) Let_def)
  have "\<exists>p h'. malloc k sb base nbytes h = Some (p, h') \<and>
    (p = 0 \<and> h' = h \<and> sb (int (16 * max 4096 (unat n))) (brk h) = None \<or> granted base A n h p h')" if "2 * length ns + 3 \<le> k" for k
    unfolding m using malloc_loop_ok [OF ns(1,3) that n(2,3) sb] ns(2) by simp
  then show ?thesis using inv by (intro exI [of _ "2 * length ns + 3"]) blast
qed

text \<open>C20: \<open>malloc\<close> with enough rounds returns. It returns 0 only if \<open>sbrk\<close> refuses to grow the heap by
  the size it asks for, and then the heap is still well formed. Otherwise it returns an address behind the
  header of a block that was not in use, has room for \<open>nbytes\<close> bytes and overlaps no block in use;
  the sizes of the blocks in use do not change and the free list stays well formed.\<close>

theorem malloc_correct:
  assumes "heap_inv base A h" "sbrk_ok sb" "unat nbytes < 2 ^ 31 - 32"
  shows "\<exists>K. \<forall>k \<ge> K. \<exists>p h'. malloc k sb base nbytes h = Some (p, h') \<and> (\<forall>a \<in> A. hsize h' a = hsize h a) \<and>
    (p = 0 \<and> heap_inv base A h' \<and> sb (int (16 * max 4096 (unat (units_of nbytes)))) (brk h) = None \<or>
     16 < p \<and> heap_inv base (insert (p - 16) A) h' \<and> p - 16 \<notin> A \<and> p + unat nbytes \<le> bend h' (p - 16) \<and>
       (\<forall>a \<in> A. bend h' a \<le> p - 16 \<or> bend h' (p - 16) \<le> a))"
proof -
  note u = units_of_bounds [OF assms(3)]
  obtain K where K: "\<forall>k \<ge> K. \<exists>p h'. malloc k sb base nbytes h = Some (p, h') \<and>
    (p = 0 \<and> heap_inv base A h' \<and> (\<forall>a \<in> A. hsize h' a = hsize h a) \<and>
       sb (int (16 * max 4096 (unat (units_of nbytes)))) (brk h) = None \<or> granted base A (units_of nbytes) h p h')"
    using malloc_inv [OF assms(1,2) refl u(1,2)] by blast
  have g: "16 < p \<and> heap_inv base (insert (p - 16) A) h' \<and> p - 16 \<notin> A \<and> p + unat nbytes \<le> bend h' (p - 16) \<and>
       (\<forall>a \<in> A. bend h' a \<le> p - 16 \<or> bend h' (p - 16) \<le> a) \<and> (\<forall>a \<in> A. hsize h' a = hsize h a)"
    if gr: "granted base A (units_of nbytes) h p h'" for p h'
  proof -
    obtain ns where ns: "heap_ok ns (insert (p - 16) A) h'" "hd ns = base" "freep h' \<in> set ns"
      using gr by (auto simp: granted_def)
    have "bend h' a \<le> p - 16 \<or> bend h' (p - 16) \<le> a" if "a \<in> A" for a
      using heap_okD(7) [OF ns(1)] that gr unfolding apart_def granted_def by (metis UnI2 insertCI linorder_neqE_nat)
    moreover have "p + unat nbytes \<le> bend h' (p - 16)" using gr u(3) by (simp add: granted_def bend_def)
    ultimately show ?thesis using gr ns by (auto simp: granted_def heap_inv_def)
  qed
  show ?thesis
  proof (rule exI [of _ K], intro allI impI)
    fix k assume "K \<le> k"
    then obtain p h' where r: "malloc k sb base nbytes h = Some (p, h')"
      "p = 0 \<and> heap_inv base A h' \<and> (\<forall>a \<in> A. hsize h' a = hsize h a) \<and>
       sb (int (16 * max 4096 (unat (units_of nbytes)))) (brk h) = None \<or> granted base A (units_of nbytes) h p h'"
      using K by blast
    show "\<exists>p h'. malloc k sb base nbytes h = Some (p, h') \<and> (\<forall>a \<in> A. hsize h' a = hsize h a) \<and>
      (p = 0 \<and> heap_inv base A h' \<and> sb (int (16 * max 4096 (unat (units_of nbytes)))) (brk h) = None \<or>
       16 < p \<and> heap_inv base (insert (p - 16) A) h' \<and> p - 16 \<notin> A \<and> p + unat nbytes \<le> bend h' (p - 16) \<and>
         (\<forall>a \<in> A. bend h' a \<le> p - 16 \<or> bend h' (p - 16) \<le> a))"
      by (rule exI [of _ p], rule exI [of _ h'], rule conjI [OF r(1)]) (use r(2) g [of p h'] in blast)
  qed
qed

text \<open>The witness: the first call of \<open>malloc\<close>.\<close>

definition sample_sbrk :: sbrk where
  "sample_sbrk n b = (if b + nat n < 2 ^ 36 then Some (b, b + nat n) else None)"

definition sample_heap :: heap where
  "sample_heap = \<lparr>hptr = (\<lambda>_. 0), hsize = (\<lambda>_. 0), freep = 0, brk = 4096\<rparr>"

theorem malloc_correct_witness:
  "\<exists>k p h'. malloc k sample_sbrk 16 100 sample_heap = Some (p, h') \<and> 16 < p \<and> heap_inv 16 {p - 16} h' \<and> p + 100 \<le> bend h' (p - 16)"
proof -
  have "heap_inv 16 {} sample_heap" by (simp add: heap_inv_def sample_heap_def)
  moreover have "sbrk_ok sample_sbrk" by (simp add: sbrk_ok_def sample_sbrk_def)
  moreover have "sample_sbrk (int (16 * max 4096 (unat (units_of 100)))) (brk sample_heap) \<noteq> None"
    by (simp add: sample_sbrk_def units_of_def sample_heap_def)
  ultimately show ?thesis using malloc_correct [of 16 "{}" sample_heap sample_sbrk 100] by fastforce
qed

text \<open>C21: \<open>free\<close> of a block in use returns, the free list stays well formed with the block no longer in
  use, and the other blocks in use keep their sizes.\<close>

theorem free_correct:
  assumes "heap_inv base A h" "bp \<in> A"
  shows "\<exists>K. \<forall>k \<ge> K. \<exists>h'. free k (bp + 16) h = Some h' \<and> heap_inv base (A - {bp}) h' \<and> brk h' = brk h \<and>
    (\<forall>a \<in> A - {bp}. hsize h' a = hsize h a)"
proof -
  obtain ns where ns: "heap_ok ns A h" "hd ns = base" "freep h \<in> set ns" using assms by (auto simp: heap_inv_def)
  have "\<exists>h'. free k (bp + 16) h = Some h' \<and> heap_inv base (A - {bp}) h' \<and> brk h' = brk h \<and>
    (\<forall>a \<in> A - {bp}. hsize h' a = hsize h a)" if "length ns < k" for k
    using free_ok [OF ns(1) assms(2) ns(3) that] ns(2) unfolding heap_inv_def by blast
  then show ?thesis by (intro exI [of _ "Suc (length ns)"]) auto
qed

definition sample_used :: heap where
  "sample_used = \<lparr>hptr = (\<lambda>_. 16), hsize = (\<lambda>a. if a = 16 then 0 else 2), freep = 16, brk = 8192\<rparr>"

theorem free_correct_witness:
  "\<exists>k h'. free k 4112 sample_used = Some h' \<and> heap_inv 16 {} h'"
proof -
  have "heap_ok [16] {4096} sample_used" by (auto simp: heap_ok_def sample_used_def apart_def bend_def)
  then have "heap_inv 16 {4096} sample_used" unfolding heap_inv_def by (auto simp: sample_used_def intro!: exI [of _ "[16]"])
  then show ?thesis using free_correct [of 16 "{4096}" sample_used 4096] by fastforce
qed

end
