(* ===== verification/Spec2Isabelle.thy ===== *)
theory Spec2Isabelle
  imports Usafe Boot Syssafe Corelib Pipes Consline Utext Shrun Umalloc
begin

text \<open>
  A verification of xv6 for RISC-V, in the version with copy-on-write fork, lazily allocated memory,
  a kernel page table per process and system call filters: the kernel (\<^verbatim>\<open>src/kernel\<close>) and the larger
  user programs (\<^verbatim>\<open>src/user\<close>).

  \<^bold>\<open>How the code is modelled.\<close> A C function is a HOL function on a record of the state. Integers have the
  width they have in C; byte addressed memory is a function from addresses to bytes, and page tables are
  words in it. A function that may not return has the type \<open>'a res\<close> of theory \<open>Prelude\<close>: a value, or the
  reason why there is none, \<open>Panic\<close> with the message of \<open>panic\<close> or \<open>Block\<close> for a thread that waits for ever or
  has left the kernel. A null result is a value, as in the code. Loops that walk a list are primitive recursive;
  other loops recurse on a bound.

  \<^bold>\<open>The state.\<close> \<open>Kstate\<close> has the record of the memory, the process table (\<^verbatim>\<open>proc.h\<close>), the page
  allocator, the control registers and the locks that the hart holds; \<open>Kernel\<close> extends it by the buffer cache, log,
  inode and file tables, pipes, console and disk queue. Code between two sleeps runs on that state; while a thread
  sleeps, the field \<open>others\<close> of the environment \<open>env\<close> is what the other threads, interrupts and devices do. The
  statements about code that sleeps quantify over the environment or state what they need of it.

  \<^bold>\<open>The kernel, theory by theory.\<close>
  \<^item> \<open>Layout\<close>: the constants and macros of \<^verbatim>\<open>param.h\<close>, \<^verbatim>\<open>memlayout.h\<close> and \<^verbatim>\<open>riscv.h\<close>.
    \<open>Cstring\<close>: \<^verbatim>\<open>string.c\<close>.
  \<^item> \<open>Spinlock\<close>: \<^verbatim>\<open>spinlock.c\<close> at the level of the atomic instructions, and the step relation
    \<open>lock_step\<close> of all harts with its invariant. \<open>Corelib\<close> has the properties: mutual exclusion, and that the
    lock words implement the list of held locks that all other theories use.
  \<^item> \<open>Kalloc\<close>: \<^verbatim>\<open>kalloc.c\<close>, the free list and the reference counts. The locale \<open>page_pool\<close> is the contract
    of a page allocator with reference counts; the interpretation \<open>kmem\<close> shows that the code implements it.
  \<^item> \<open>Vm\<close>: \<^verbatim>\<open>vm.c\<close>. \<open>Pagetable\<close> reads a page table as a map from addresses to entries, \<open>Uvm\<close> and
    \<open>Uspace\<close> are the invariant of several address spaces that share pages, \<open>Ucopy\<close>, \<open>Uview\<close> and
    \<open>Twoprocs\<close> what fork, faults and copies do to what each space sees, \<open>Usafe\<close> the properties.
  \<^item> \<open>Proc\<close> and \<open>Fork\<close>: \<^verbatim>\<open>proc.c\<close>. \<open>Sleeplock\<close>: \<^verbatim>\<open>sleeplock.c\<close>. \<open>Psafe\<close>: properties of
    \<open>wakeup\<close>, \<open>kill\<close> and the scheduler.
  \<^item> \<open>Printf\<close>: \<^verbatim>\<open>printf.c\<close>, with what \<open>Printing\<close> proves of it. \<open>Console\<close>: \<^verbatim>\<open>console.c\<close> and
    \<^verbatim>\<open>uart.c\<close>; \<open>Consline\<close> shows that the interrupt handler is a line editor.
  \<^item> \<open>Virtio\<close>, \<open>Bio\<close>, \<open>Log\<close>, \<open>Fs\<close>: \<^verbatim>\<open>virtio_disk.c\<close>, \<^verbatim>\<open>bio.c\<close>, \<^verbatim>\<open>log.c\<close> and
    \<^verbatim>\<open>fs.c\<close>.
  \<^item> \<open>File\<close>: \<^verbatim>\<open>file.c\<close> and \<^verbatim>\<open>pipe.c\<close>. \<open>Queue\<close> has the locale \<open>bounded_queue\<close> of ring buffers,
    \<open>Pipes\<close> its interpretation \<open>pq\<close> on pipes and the properties of \<open>pipewrite\<close> and \<open>piperead\<close>.
  \<^item> \<open>Exec\<close>: \<^verbatim>\<open>exec.c\<close>. \<open>Sysfile\<close> and \<open>Syscall\<close>: \<^verbatim>\<open>sysfile.c\<close>, \<^verbatim>\<open>sysproc.c\<close> and
    \<^verbatim>\<open>syscall.c\<close>. \<open>Trap\<close>: \<^verbatim>\<open>trap.c\<close> and \<^verbatim>\<open>plic.c\<close>. \<open>Boot\<close>: \<^verbatim>\<open>start.c\<close> and
    \<^verbatim>\<open>main.c\<close>.
  \<^item> \<open>Held\<close> and \<open>Discipline\<close>: every function of the kernel releases the locks it takes and comes back to the
    process that called it, by weakest preconditions (\<open>rets\<close>, with the collections \<open>wp\<close> and \<open>hc\<close>).
    \<open>Frame\<close>: which functions leave the drivers' state alone. \<open>Syssafe\<close>: the properties of system calls,
    filters and traps that rest on them. \<open>Ksample\<close>: the concrete state that the witnesses use.

  \<^bold>\<open>User programs.\<close>
  \<^item> \<open>Ulib\<close>: \<^verbatim>\<open>ulib.c\<close>. \<open>Umalloc\<close>: \<^verbatim>\<open>umalloc.c\<close>, with the invariant of the ring of free
    blocks and the properties of \<open>malloc\<close> and \<open>free\<close>; \<open>sbrk\<close> is a parameter.
  \<^item> \<open>Utext\<close>: \<^verbatim>\<open>grep.c\<close> and \<^verbatim>\<open>wc.c\<close>, with the language of a pattern; \<open>read\<close> is a parameter
    that may return any number of bytes up to the one asked for.
  \<^item> \<open>Shell\<close>: the parser of \<^verbatim>\<open>sh.c\<close>. \<open>Shparse\<close> splits a line into tokens and shows that the
    parser ends, \<open>Shgram\<close> that it inverts the grammar. \<open>Shrun\<close>: \<open>runcmd\<close> and the meaning of a command.

  \<^bold>\<open>What is shown.\<close>
  \<^item> Memory: \<open>kalloc\<close>, \<open>kfree\<close> and \<open>kinit\<close> keep the allocator's invariant and do what they say; fork shares
    pages, and a store by one process, with the fault it causes, is seen by no other one; growing, shrinking,
    lazy allocation and the copies between user and kernel memory change exactly the bytes they should.
    Two statements record defects: a double free is not noticed, and \<open>copyout\<close> fails on a copy-on-write page.
  \<^item> Locks and processes: mutual exclusion in every interleaving; \<open>usertrap\<close> returns with the locks it
    started with, for every trap and every system call; a forbidden system call or an access outside the
    memory of the process ends in its termination; the scheduler runs a process iff one is runnable.
  \<^item> Devices: pipes deliver what is written, byte for byte; the console's indices stay in order; \<open>printf\<close>
    prints the rendering of its format.
  \<^item> User programs: the shell's parser is total and inverse to the grammar, and \<open>runcmd\<close> gives every
    program the files its command means; the matcher decides the language of a pattern, \<open>grep\<close> and \<open>wc\<close> are
    correct however the input is cut; \<open>malloc\<close> returns memory that overlaps nothing in use.

  \<^bold>\<open>Bounds.\<close> \<open>walk\<close> and \<open>freewalk\<close> recurse on the three levels of the tree; loops over pages have the
  number of pages as their bound, which the lemmas of \<open>Vm\<close>, \<open>Ucopy\<close> and \<open>Uspace\<close> show to be enough; loops over fixed
  tables (processes, files, inodes, buffers) run over the list of the indices. A loop that waits for another thread
  or a device has the bound \<open>patience\<close> of the environment, since nothing bounds the wait. The parser's bound
  is a function of the length of the line and suffices for every line; \<open>malloc\<close> and \<open>free\<close> end with every bound
  from a certain one on. \<open>scheduler_pass\<close> is one round of the endless loop of the scheduler.

  \<^bold>\<open>What is not modelled.\<close> Assembly (\<^verbatim>\<open>entry.S\<close>, \<^verbatim>\<open>swtch.S\<close>, \<^verbatim>\<open>trampoline.S\<close>,
  \<^verbatim>\<open>kernelvec.S\<close>): its effect on registers is the step between the C functions around it. The TLB:
  a change of a page table is effective at once. Interrupts between two sleeps of a thread: handlers are
  separate functions on the same state, protected by the locks that the code takes. Data races on memory that no lock
  protects. The user programs that only make a few system calls, the test programs and \<^verbatim>\<open>mkfs\<close>.
  For the file system above the log, the development has the model and its lock discipline but no functional
  specification.
\<close>

end
